theory Spec2Isabelle
  imports Main "HOL-Library.Word" "HOL-Library.Tree"
begin

unbundle bit_operations_syntax

section \<open>Machine model\<close>

text \<open>
  The allocator of \<^verbatim>\<open>mm.c\<close> stores pointers in \<^verbatim>\<open>int\<close> words
  (\<^verbatim>\<open>SETLEFT\<close>, \<^verbatim>\<open>(int)(bp = mem_sbrk(size))\<close>), so it is a program for a 32-bit
  machine: pointers, \<^verbatim>\<open>int\<close> and \<^verbatim>\<open>size_t\<close> are all 32-bit words, pointer
  arithmetic wraps, and memory is an array of bytes. A word is read and written in
  little-endian byte order (IA-32).
\<close>

type_synonym ptr = "32 word"
type_synonym mem = "ptr \<Rightarrow> 8 word"

abbreviation NULL :: ptr where "NULL \<equiv> 0"

definition WSIZE :: "32 word" where "WSIZE = 4"
definition DSIZE :: "32 word" where "DSIZE = 8"
definition CHUNKSIZE :: "32 word" where "CHUNKSIZE = push_bit 12 1"
definition OVERHEAD :: "32 word" where "OVERHEAD = 8"

definition MAX_macro :: "32 word \<Rightarrow> 32 word \<Rightarrow> 32 word" where
  "MAX_macro x y = (if x > y then x else y)"

definition GET :: "mem \<Rightarrow> ptr \<Rightarrow> 32 word" where
  "GET m p = ucast (m p) OR push_bit 8 (ucast (m (p + 1)))
     OR push_bit 16 (ucast (m (p + 2))) OR push_bit 24 (ucast (m (p + 3)))"

definition PUT :: "mem \<Rightarrow> ptr \<Rightarrow> 32 word \<Rightarrow> mem" where
  "PUT m p v = m(p := ucast v, p + 1 := ucast (drop_bit 8 v),
     p + 2 := ucast (drop_bit 16 v), p + 3 := ucast (drop_bit 24 v))"

definition PACK :: "32 word \<Rightarrow> 32 word \<Rightarrow> 32 word" where
  "PACK sz alloc = sz OR alloc"

definition GET_SIZE :: "mem \<Rightarrow> ptr \<Rightarrow> 32 word" where
  "GET_SIZE m p = GET m p AND NOT 7"

definition GET_ALLOC :: "mem \<Rightarrow> ptr \<Rightarrow> 32 word" where
  "GET_ALLOC m p = GET m p AND 1"

definition HDRP :: "ptr \<Rightarrow> ptr" where
  "HDRP bp = bp - WSIZE"

definition FTRP :: "mem \<Rightarrow> ptr \<Rightarrow> ptr" where
  "FTRP m bp = bp + GET_SIZE m (HDRP bp) - DSIZE"

definition NEXT_BLKP :: "mem \<Rightarrow> ptr \<Rightarrow> ptr" where
  "NEXT_BLKP m bp = bp + GET_SIZE m (bp - WSIZE)"

definition PREV_BLKP :: "mem \<Rightarrow> ptr \<Rightarrow> ptr" where
  "PREV_BLKP m bp = bp - GET_SIZE m (bp - DSIZE)"

text \<open>The tree macros. \<^verbatim>\<open>GETSIZE\<close> yields an \<^verbatim>\<open>int\<close>: its results are compared signed.\<close>

definition RIGHT :: "mem \<Rightarrow> ptr \<Rightarrow> ptr" where
  "RIGHT m bp = GET m (bp + WSIZE)"

definition LEFT :: "mem \<Rightarrow> ptr \<Rightarrow> ptr" where
  "LEFT m bp = GET m bp"

definition SETLEFT :: "mem \<Rightarrow> ptr \<Rightarrow> ptr \<Rightarrow> mem" where
  "SETLEFT m bp bq = PUT m bp bq"

definition SETRIGHT :: "mem \<Rightarrow> ptr \<Rightarrow> ptr \<Rightarrow> mem" where
  "SETRIGHT m bp bq = PUT m (bp + WSIZE) bq"

definition GETSIZE :: "mem \<Rightarrow> ptr \<Rightarrow> 32 word" where
  "GETSIZE m bp = GET m (bp - WSIZE) AND NOT 7"

definition memcpy :: "mem \<Rightarrow> ptr \<Rightarrow> ptr \<Rightarrow> 32 word \<Rightarrow> mem" where
  "memcpy m dst src n = (\<lambda>x. if x - dst < n then m (src + (x - dst)) else m x)"

section \<open>Outcomes of a call\<close>

text \<open>
  A call either returns a value, or stops the program: by applying a tree macro to the
  null pointer, by running off the end of \<^verbatim>\<open>mm_fitter\<close> without a return value, by a
  store outside the memory of the heap (a segmentation fault), or by \<^verbatim>\<open>exit\<close>. A
  recursion that never returns has the outcome \<open>None\<close>.
\<close>

datatype error = NullDeref | NoReturnValue | SegFault | Exit int

type_synonym 'a res = "(error + 'a) option"

definition ret :: "'a \<Rightarrow> 'a res" where
  "ret x = Some (Inr x)"

definition fault :: "error \<Rightarrow> 'a res" where
  "fault e = Some (Inl e)"

definition bnd :: "'a res \<Rightarrow> ('a \<Rightarrow> 'b res) \<Rightarrow> 'b res" where
  "bnd x f = Option.bind x (\<lambda>r. case r of Inl e \<Rightarrow> Some (Inl e) | Inr v \<Rightarrow> f v)"

lemma bnd_mono [partial_function_mono]:
  assumes "mono_option B" and "\<And>y. mono_option (\<lambda>f. C y f)"
  shows "mono_option (\<lambda>f. bnd (B f) (\<lambda>y. C y f))"
  unfolding bnd_def
proof (rule bind_mono [OF assms(1)])
  fix y
  show "mono_option (\<lambda>f. case y of Inl e \<Rightarrow> Some (Inl e) | Inr v \<Rightarrow> C v f)"
    by (cases y) (simp_all add: option.const_mono assms(2))
qed

section \<open>The free-block index\<close>

partial_function (option) mm_insert :: "mem \<Rightarrow> ptr \<Rightarrow> ptr \<Rightarrow> (mem \<times> ptr) res" where
  "mm_insert m root bp =
    (if root = NULL then
       (if bp = NULL then fault NullDeref
        else ret (SETRIGHT (SETLEFT m bp NULL) bp NULL, bp))
     else if bp = NULL then fault NullDeref
     else if GETSIZE m bp \<le>s GETSIZE m root then
       bnd (mm_insert m (LEFT m root) bp) (\<lambda>(m', q). ret (SETLEFT m' root q, root))
     else
       bnd (mm_insert m (RIGHT m root) bp) (\<lambda>(m', q). ret (SETRIGHT m' root q, root)))"

partial_function (option) mm_fitter :: "mem \<Rightarrow> ptr \<Rightarrow> 32 word \<Rightarrow> ptr res" where
  "mm_fitter m root sz =
    (if root = NULL then ret NULL
     else if sz \<le>s GETSIZE m root then ret root
     else if GETSIZE m root <s sz then mm_fitter m (RIGHT m root) sz
     else fault NoReturnValue)"

partial_function (option) mm_parent :: "mem \<Rightarrow> ptr \<Rightarrow> ptr \<Rightarrow> ptr res" where
  "mm_parent m root bp =
    (if bp = root then ret NULL
     else if bp = NULL \<or> root = NULL then fault NullDeref
     else if GETSIZE m bp \<le>s GETSIZE m root then
       (if LEFT m root = bp then ret root else mm_parent m (LEFT m root) bp)
     else
       (if RIGHT m root = bp then ret root else mm_parent m (RIGHT m root) bp))"

definition mm_children :: "mem \<Rightarrow> ptr \<Rightarrow> int res" where
  "mm_children m root =
    (if root = NULL then fault NullDeref
     else ret ((if LEFT m root \<noteq> NULL then 1 else 0) + (if RIGHT m root \<noteq> NULL then 1 else 0)))"

partial_function (option) mm_replace :: "mem \<Rightarrow> ptr \<Rightarrow> ptr res" where
  "mm_replace m bp =
    (if bp = NULL then fault NullDeref
     else if RIGHT m bp = NULL then ret bp
     else mm_replace m (RIGHT m bp))"

text \<open>
  Linking \<open>child\<close> into the slot of \<open>bp\<close>: the tail shared by the three cases of
  \<^verbatim>\<open>mm_remove\<close> (\<^verbatim>\<open>if(parent_node != NULL) { if(LEFT(parent_node) == bp) ... }\<close>).
\<close>

definition relink :: "mem \<Rightarrow> ptr \<Rightarrow> ptr \<Rightarrow> ptr \<Rightarrow> ptr \<Rightarrow> ptr \<Rightarrow> (mem \<times> ptr) res" where
  "relink m root parent_node bp child at_root =
    (if parent_node \<noteq> NULL then
       (if LEFT m parent_node = bp then ret (SETLEFT m parent_node child, root)
        else ret (SETRIGHT m parent_node child, root))
     else ret (m, at_root))"

partial_function (option) mm_remove :: "mem \<Rightarrow> ptr \<Rightarrow> ptr \<Rightarrow> (mem \<times> ptr) res" where
  "mm_remove m root bp =
    bnd (mm_children m bp) (\<lambda>n.
      if n = 0 then
        bnd (mm_parent m root bp) (\<lambda>parent_node.
          relink m root parent_node bp NULL NULL)
      else if n = 1 then
        bnd (mm_parent m root bp) (\<lambda>parent_node.
          let child = (if LEFT m bp \<noteq> NULL then LEFT m bp else RIGHT m bp)
          in relink m root parent_node bp child child)
      else
        bnd (mm_parent m root bp) (\<lambda>parent_node.
        bnd (mm_replace m (LEFT m bp)) (\<lambda>replacement.
        bnd (mm_remove m (LEFT m bp) replacement) (\<lambda>(m1, new_bp).
          if replacement = NULL then fault NullDeref
          else
            let m2 = SETLEFT m1 replacement new_bp;
                m3 = SETRIGHT m2 replacement (RIGHT m2 bp)
            in relink m3 root parent_node bp replacement replacement))))"

section \<open>The heap sink\<close>

text \<open>
  Modelled from the spec: the heap sink \<^verbatim>\<open>mem_sbrk\<close> of \<^verbatim>\<open>memlib.c\<close>, which is not
  part of the sources. It "enlarges the heap tail by bytes and returns the former tail
  (the base of the new region), or a failure sentinel on exhaustion". The sink owns the
  current break and a limit; the value of its failure sentinel is not fixed by the spec
  and is a field of the state (\<^verbatim>\<open>mm_init\<close> tests for \<^verbatim>\<open>NULL\<close>, \<^verbatim>\<open>extend_heap\<close>
  for \<^verbatim>\<open>-1\<close>).
\<close>

record state =
  heap :: mem
  heap_listp :: ptr
  tree_root :: ptr
  mem_brk :: ptr
  mem_max_addr :: ptr
  mem_fail :: ptr

definition mem_sbrk :: "state \<Rightarrow> 32 word \<Rightarrow> ptr \<times> state" where
  "mem_sbrk s incr =
    (if unat (mem_brk s) + unat incr \<le> unat (mem_max_addr s)
     then (mem_brk s, s\<lparr>mem_brk := mem_brk s + incr\<rparr>)
     else (mem_fail s, s))"

section \<open>Coalescing, placement and heap extension\<close>

definition coalesce :: "state \<Rightarrow> ptr \<Rightarrow> (state \<times> ptr) res" where
  "coalesce s bp =
    (let m = heap s;
         prev_alloc = GET_ALLOC m (FTRP m (PREV_BLKP m bp));
         next_alloc = GET_ALLOC m (HDRP (NEXT_BLKP m bp));
         sz = GET_SIZE m (HDRP bp)
     in if prev_alloc \<noteq> 0 \<and> next_alloc \<noteq> 0 then ret (s, bp)
        else if prev_alloc \<noteq> 0 \<and> next_alloc = 0 then
          let sz = sz + GET_SIZE m (HDRP (NEXT_BLKP m bp)) in
          bnd (mm_remove m (tree_root s) (NEXT_BLKP m bp)) (\<lambda>(m1, root).
            let m2 = PUT m1 (HDRP bp) (PACK sz 0);
                m3 = PUT m2 (FTRP m2 bp) (PACK sz 0)
            in ret (s\<lparr>heap := m3, tree_root := root\<rparr>, bp))
        else if prev_alloc = 0 \<and> next_alloc \<noteq> 0 then
          let sz = sz + GET_SIZE m (HDRP (PREV_BLKP m bp)) in
          bnd (mm_remove m (tree_root s) (PREV_BLKP m bp)) (\<lambda>(m1, root).
            let m2 = PUT m1 (FTRP m1 bp) (PACK sz 0);
                m3 = PUT m2 (HDRP (PREV_BLKP m2 bp)) (PACK sz 0)
            in ret (s\<lparr>heap := m3, tree_root := root\<rparr>, PREV_BLKP m3 bp))
        else
          let sz = sz + GET_SIZE m (HDRP (PREV_BLKP m bp))
                      + GET_SIZE m (FTRP m (NEXT_BLKP m bp)) in
          bnd (mm_remove m (tree_root s) (NEXT_BLKP m bp)) (\<lambda>(m1, root1).
          bnd (mm_remove m1 root1 (PREV_BLKP m1 bp)) (\<lambda>(m2, root2).
            let m3 = PUT m2 (HDRP (PREV_BLKP m2 bp)) (PACK sz 0);
                m4 = PUT m3 (FTRP m3 (NEXT_BLKP m3 bp)) (PACK sz 0)
            in ret (s\<lparr>heap := m4, tree_root := root2\<rparr>, PREV_BLKP m4 bp))))"

definition place :: "state \<Rightarrow> ptr \<Rightarrow> 32 word \<Rightarrow> (state \<times> ptr) res" where
  "place s bp asize =
    (let m = heap s; csize = GET_SIZE m (HDRP bp)
     in if csize - asize \<ge> 6 * OVERHEAD then
          (if GETSIZE m (PREV_BLKP m bp) <s GETSIZE m (NEXT_BLKP m bp) then
             let m1 = PUT m (HDRP bp) (PACK asize 1);
                 m2 = PUT m1 (FTRP m1 bp) (PACK asize 1);
                 blah = NEXT_BLKP m2 bp;
                 m3 = PUT m2 (HDRP blah) (PACK (csize - asize) 0);
                 m4 = PUT m3 (FTRP m3 blah) (PACK (csize - asize) 0)
             in bnd (mm_insert m4 (tree_root s) blah) (\<lambda>(m5, root).
                  ret (s\<lparr>heap := m5, tree_root := root\<rparr>, bp))
           else
             let m1 = PUT m (HDRP bp) (PACK (csize - asize) 0);
                 m2 = PUT m1 (FTRP m1 bp) (PACK (csize - asize) 0);
                 blah = NEXT_BLKP m2 bp;
                 m3 = PUT m2 (HDRP blah) (PACK asize 1);
                 m4 = PUT m3 (FTRP m3 blah) (PACK asize 1)
             in bnd (mm_insert m4 (tree_root s) bp) (\<lambda>(m5, root).
                  ret (s\<lparr>heap := m5, tree_root := root\<rparr>, blah)))
        else
          let m1 = PUT m (HDRP bp) (PACK csize 1);
              m2 = PUT m1 (FTRP m1 bp) (PACK csize 1)
          in ret (s\<lparr>heap := m2\<rparr>, bp))"

definition extend_heap :: "state \<Rightarrow> 32 word \<Rightarrow> (state \<times> ptr) res" where
  "extend_heap s words =
    (let sz = (if words mod 2 \<noteq> 0 then (words + 1) * WSIZE else words * WSIZE);
         (bp, s1) = mem_sbrk s sz
     in if bp = - 1 then ret (s1, NULL)
        else
          let m1 = PUT (heap s1) (HDRP bp) (PACK sz 0);
              m2 = PUT m1 (FTRP m1 bp) (PACK sz 0);
              m3 = PUT m2 (HDRP (NEXT_BLKP m2 bp)) (PACK 0 1)
          in coalesce (s1\<lparr>heap := m3\<rparr>) bp)"

section \<open>The public operations\<close>

text \<open>
  In \<^verbatim>\<open>mm_free\<close> the call \<^verbatim>\<open>mm_insert(tree_root, coalesce(bp))\<close> reads \<^verbatim>\<open>tree_root\<close>
  after \<^verbatim>\<open>coalesce\<close> has run (arguments evaluated right to left, as on IA-32 with
  gcc): the spec's "run coalescer, insert result into index".
\<close>

text \<open>
  \<^verbatim>\<open>mm_init\<close> tests the result of the sink for \<^verbatim>\<open>NULL\<close> only. A sink that fails with
  another value (\<^verbatim>\<open>extend_heap\<close> expects \<open>-1\<close>) goes undetected, and the stores of the four
  sentinel words then go through that value. Memory is a total function here, so these
  stores are checked: the four words must lie below the break, inside what the sink has
  handed out; otherwise the first store ends the program with a segmentation fault.
\<close>

definition below_brk :: "state \<Rightarrow> ptr \<Rightarrow> nat \<Rightarrow> bool" where
  "below_brk s p n \<longleftrightarrow> unat p + n \<le> unat (mem_brk s)"

definition mm_init :: "state \<Rightarrow> (state \<times> int) res" where
  "mm_init s0 =
    (let s1 = s0\<lparr>tree_root := NULL\<rparr>;
         (p, s2) = mem_sbrk s1 (4 * WSIZE);
         s3 = s2\<lparr>heap_listp := p\<rparr>
     in if heap_listp s3 = NULL then ret (s3, - 1)
        else if \<not> below_brk s3 (heap_listp s3) 16 then fault SegFault
        else
          let m1 = PUT (heap s3) (heap_listp s3) 0;
              m2 = PUT m1 (heap_listp s3 + WSIZE) (PACK OVERHEAD 1);
              m3 = PUT m2 (heap_listp s3 + DSIZE) (PACK OVERHEAD 1);
              m4 = PUT m3 (heap_listp s3 + WSIZE + DSIZE) (PACK 0 1);
              s4 = s3\<lparr>heap := m4, heap_listp := heap_listp s3 + DSIZE\<rparr>
          in bnd (extend_heap s4 (CHUNKSIZE div WSIZE)) (\<lambda>(s5, bp).
               if bp = NULL then ret (s5, - 1)
               else bnd (mm_insert (heap s5) (tree_root s5) bp) (\<lambda>(m, root).
                 ret (s5\<lparr>heap := m, tree_root := root\<rparr>, 0))))"

definition mm_malloc :: "state \<Rightarrow> 32 word \<Rightarrow> (state \<times> ptr) res" where
  "mm_malloc s sz =
    (if sz \<le> 0 then ret (s, NULL)
     else
       let asize = (if sz \<le> DSIZE then DSIZE + OVERHEAD
                    else DSIZE * ((sz + OVERHEAD + (DSIZE - 1)) div DSIZE))
       in bnd (mm_fitter (heap s) (tree_root s) asize) (\<lambda>bp.
            if bp \<noteq> NULL then
              bnd (mm_remove (heap s) (tree_root s) bp) (\<lambda>(m1, root).
                place (s\<lparr>heap := m1, tree_root := root\<rparr>) bp asize)
            else
              let extendsize = MAX_macro asize CHUNKSIZE in
              bnd (extend_heap s (extendsize div WSIZE)) (\<lambda>(s1, bp).
                if bp = NULL then ret (s1, NULL) else place s1 bp asize)))"

definition mm_free :: "state \<Rightarrow> ptr \<Rightarrow> state res" where
  "mm_free s bp =
    (let m = heap s;
         sz = GET_SIZE m (HDRP bp);
         m1 = PUT m (HDRP bp) (PACK sz 0);
         m2 = PUT m1 (FTRP m1 bp) (PACK sz 0)
     in bnd (coalesce (s\<lparr>heap := m2\<rparr>) bp) (\<lambda>(s1, bp1).
          bnd (mm_insert (heap s1) (tree_root s1) bp1) (\<lambda>(m3, root).
            ret (s1\<lparr>heap := m3, tree_root := root\<rparr>))))"

definition mm_realloc :: "state \<Rightarrow> ptr \<Rightarrow> 32 word \<Rightarrow> (state \<times> ptr) res" where
  "mm_realloc s ptr sz =
    bnd (mm_malloc s sz) (\<lambda>(s1, newp).
      if newp = NULL then fault (Exit 1)
      else
        let copySize = GET_SIZE (heap s1) (HDRP ptr);
            copySize = (if sz < copySize then sz else copySize);
            m1 = memcpy (heap s1) newp ptr copySize
        in bnd (mm_free (s1\<lparr>heap := m1\<rparr>) ptr) (\<lambda>s2. ret (s2, newp)))"

section \<open>Memory cells and frames\<close>

definition cdisj :: "ptr \<Rightarrow> ptr \<Rightarrow> bool" where
  "cdisj p q \<longleftrightarrow> 4 \<le> unat (q - p) \<and> 4 \<le> unat (p - q)"

lemma GET_PUT_same [simp]: "GET (PUT m p v) p = v"
  unfolding GET_def PUT_def
  apply simp
  apply (rule bit_word_eqI)
  subgoal for n
    by (cases "n < 8"; cases "n < 16"; cases "n < 24") (auto simp add: bit_simps)
  done

lemma PUT_byte_other: "4 \<le> unat (x - p) \<Longrightarrow> PUT m p v x = m x"
proof -
  assume a: "4 \<le> unat (x - p)"
  have "x \<noteq> p" "x \<noteq> p + 1" "x \<noteq> p + 2" "x \<noteq> p + 3"
    using a by unat_arith+
  then show ?thesis by (simp add: PUT_def)
qed

lemma GET_cong_bytes:
  "m' q = m q \<Longrightarrow> m' (q + 1) = m (q + 1) \<Longrightarrow> m' (q + 2) = m (q + 2) \<Longrightarrow> m' (q + 3) = m (q + 3)
   \<Longrightarrow> GET m' q = GET m q"
  by (simp add: GET_def)

lemma cdisj_byte0: "cdisj p q \<Longrightarrow> 4 \<le> unat (q - p)"
  by (simp add: cdisj_def)

lemma cdisj_byte1: "cdisj p q \<Longrightarrow> 4 \<le> unat (q + 1 - p)"
  unfolding cdisj_def by unat_arith

lemma cdisj_byte2: "cdisj p q \<Longrightarrow> 4 \<le> unat (q + 2 - p)"
  unfolding cdisj_def by unat_arith

lemma cdisj_byte3: "cdisj p q \<Longrightarrow> 4 \<le> unat (q + 3 - p)"
  unfolding cdisj_def by unat_arith

lemmas cdisj_bytes = cdisj_byte0 cdisj_byte1 cdisj_byte2 cdisj_byte3

lemma GET_PUT_disj: "cdisj p q \<Longrightarrow> GET (PUT m p v) q = GET m q"
  by (rule GET_cong_bytes) (simp_all add: PUT_byte_other cdisj_bytes)

definition frame :: "ptr set \<Rightarrow> mem \<Rightarrow> mem \<Rightarrow> bool" where
  "frame C m m' \<longleftrightarrow> (\<forall>x. (\<forall>c\<in>C. 4 \<le> unat (x - c)) \<longrightarrow> m' x = m x)"

lemma frame_refl [simp]: "frame C m m"
  by (simp add: frame_def)

lemma frame_trans: "frame C m m1 \<Longrightarrow> frame D m1 m2 \<Longrightarrow> frame (C \<union> D) m m2"
  by (simp add: frame_def)

lemma frame_mono: "frame C m m' \<Longrightarrow> C \<subseteq> D \<Longrightarrow> frame D m m'"
  by (auto simp add: frame_def)

lemma frame_PUT: "frame {p} m (PUT m p v)"
  by (simp add: frame_def PUT_byte_other)

lemma frame_GET: "frame C m m' \<Longrightarrow> \<forall>c\<in>C. cdisj c q \<Longrightarrow> GET m' q = GET m q"
  apply (rule GET_cong_bytes)
  apply (auto simp add: frame_def cdisj_bytes)
  done


section \<open>The index as a tree in memory\<close>

fun Tree :: "mem \<Rightarrow> ptr \<Rightarrow> ptr tree \<Rightarrow> bool" where
  "Tree m p Leaf = (p = NULL)"
| "Tree m p (Node l a r) = (p = a \<and> a \<noteq> NULL \<and> Tree m (LEFT m a) l \<and> Tree m (RIGHT m a) r)"

definition key :: "mem \<Rightarrow> ptr \<Rightarrow> int" where
  "key m a = sint (GETSIZE m a)"

fun ordered :: "mem \<Rightarrow> ptr tree \<Rightarrow> bool" where
  "ordered m Leaf = True"
| "ordered m (Node l a r) =
     ((\<forall>x\<in>set_tree l. key m x \<le> key m a) \<and> (\<forall>x\<in>set_tree r. key m a < key m x)
      \<and> ordered m l \<and> ordered m r)"

definition node_ok :: "ptr \<Rightarrow> bool" where
  "node_ok a \<longleftrightarrow> 4 \<le> unat a \<and> unat a + 8 \<le> 2 ^ 32"

definition far :: "ptr \<Rightarrow> ptr \<Rightarrow> bool" where
  "far a b \<longleftrightarrow> unat a + 12 \<le> unat b \<or> unat b + 12 \<le> unat a"

definition sep :: "ptr set \<Rightarrow> bool" where
  "sep S \<longleftrightarrow> (\<forall>a\<in>S. node_ok a) \<and> (\<forall>a\<in>S. \<forall>b\<in>S. a \<noteq> b \<longrightarrow> far a b)"

definition lcells :: "ptr set \<Rightarrow> ptr set" where
  "lcells S = S \<union> (\<lambda>a. a + 4) ` S"

fun ins :: "mem \<Rightarrow> ptr \<Rightarrow> ptr tree \<Rightarrow> ptr tree" where
  "ins m bp Leaf = Node Leaf bp Leaf"
| "ins m bp (Node l a r) =
     (if key m bp \<le> key m a then Node (ins m bp l) a r else Node l a (ins m bp r))"

lemma cdisj_nat:
  "unat p + 4 \<le> unat q \<or> unat q + 4 \<le> unat p \<Longrightarrow> unat p + 4 \<le> 2 ^ 32 \<Longrightarrow> unat q + 4 \<le> 2 ^ 32
   \<Longrightarrow> cdisj p (q :: 32 word)"
  unfolding cdisj_def by (auto simp add: unat_sub_if_size word_size)

lemma unat_plus4: "unat a + 8 \<le> 2 ^ 32 \<Longrightarrow> unat (a + 4 :: 32 word) = unat a + 4"
  by (simp add: unat_plus_if_size word_size)

lemma unat_minus4: "4 \<le> unat a \<Longrightarrow> unat (a - 4 :: 32 word) = unat a - 4"
  by (simp add: unat_sub_if_size word_size)

lemma far_sym: "far a b \<Longrightarrow> far b a"
  by (auto simp: far_def)

lemma node_cdisj:
  assumes "node_ok a"
  shows "cdisj a (a + 4)" "cdisj (a + 4) a" "cdisj a (a - 4)" "cdisj (a + 4) (a - 4)"
  using assms unfolding node_ok_def
  by (auto intro!: cdisj_nat simp add: unat_plus4 unat_minus4)

lemma far_cdisj:
  assumes "node_ok a" "node_ok b" "far a b"
  shows "cdisj a b" "cdisj a (b + 4)" "cdisj (a + 4) b" "cdisj (a + 4) (b + 4)"
    "cdisj a (b - 4)" "cdisj (a + 4) (b - 4)"
  using assms unfolding node_ok_def far_def
  by (auto intro!: cdisj_nat simp add: unat_plus4 unat_minus4)


lemma Tree_cong:
  "Tree m p t \<Longrightarrow> (\<And>a. a \<in> set_tree t \<Longrightarrow> LEFT m' a = LEFT m a \<and> RIGHT m' a = RIGHT m a)
   \<Longrightarrow> Tree m' p t"
  by (induction t arbitrary: p) auto

lemma key_cong: "GET m' (a - 4) = GET m (a - 4) \<Longrightarrow> key m' a = key m a"
  by (simp add: key_def GETSIZE_def WSIZE_def)

lemma Tree_NULL [simp]: "Tree m NULL t \<longleftrightarrow> t = Leaf"
  by (cases t) auto

lemma Tree_fun: "Tree m p t \<Longrightarrow> Tree m p t' \<Longrightarrow> t = t'"
proof (induction t arbitrary: p t')
  case Leaf
  then show ?case by simp
next
  case (Node l a r)
  then show ?case by (cases t') auto
qed

lemma sep_mono: "sep S \<Longrightarrow> T \<subseteq> S \<Longrightarrow> sep T"
  by (auto simp add: sep_def)

lemma sep_node_ok: "sep S \<Longrightarrow> a \<in> S \<Longrightarrow> node_ok a"
  by (simp add: sep_def)

lemma sep_far: "sep S \<Longrightarrow> a \<in> S \<Longrightarrow> b \<in> S \<Longrightarrow> a \<noteq> b \<Longrightarrow> far a b"
  by (simp add: sep_def)

lemma node_ok_nonnull: "node_ok a \<Longrightarrow> a \<noteq> NULL"
  by (auto simp add: node_ok_def)

lemma frame_links:
  assumes "frame (lcells C) m m'" "sep (insert b C)" "b \<notin> C"
  shows "LEFT m' b = LEFT m b" "RIGHT m' b = RIGHT m b"
proof -
  have c: "\<forall>c\<in>lcells C. cdisj c b \<and> cdisj c (b + 4)"
  proof
    fix c assume "c \<in> lcells C"
    then obtain a where a: "a \<in> C" "c = a \<or> c = a + 4" by (auto simp add: lcells_def)
    with assms have "node_ok a" "node_ok b" "far a b"
      by (auto simp add: sep_def)
    with a show "cdisj c b \<and> cdisj c (b + 4)" by (auto simp add: far_cdisj)
  qed
  show "LEFT m' b = LEFT m b" unfolding LEFT_def
    using assms(1) c by (auto intro: frame_GET)
  show "RIGHT m' b = RIGHT m b" unfolding RIGHT_def WSIZE_def
    using assms(1) c by (auto intro: frame_GET)
qed

lemma frame_hdr:
  assumes "frame (lcells C) m m'" "sep (insert b C)"
  shows "GET m' (b - 4) = GET m (b - 4)"
proof -
  have c: "\<forall>c\<in>lcells C. cdisj c (b - 4)"
  proof
    fix c assume "c \<in> lcells C"
    then obtain a where a: "a \<in> C" "c = a \<or> c = a + 4" by (auto simp add: lcells_def)
    with assms have ok: "node_ok a" "node_ok b" and f: "a \<noteq> b \<longrightarrow> far a b"
      by (auto simp add: sep_def)
    show "cdisj c (b - 4)"
    proof (cases "a = b")
      case True with a ok show ?thesis by (auto simp add: node_cdisj)
    next
      case False with a ok f show ?thesis by (auto simp add: far_cdisj)
    qed
  qed
  show ?thesis using assms(1) c by (auto intro: frame_GET)
qed

lemma frame_key:
  "frame (lcells C) m m' \<Longrightarrow> sep (insert b C) \<Longrightarrow> key m' b = key m b"
  by (rule key_cong) (rule frame_hdr)

lemma frame_Tree:
  assumes "Tree m p t" "frame (lcells C) m m'" "sep (C \<union> set_tree t)" "C \<inter> set_tree t = {}"
  shows "Tree m' p t"
proof (rule Tree_cong [OF assms(1)])
  fix a assume a: "a \<in> set_tree t"
  have "sep (insert a C)" using assms(3) a by (auto elim: sep_mono)
  moreover have "a \<notin> C" using assms(4) a by auto
  ultimately show "LEFT m' a = LEFT m a \<and> RIGHT m' a = RIGHT m a"
    using assms(2) by (simp add: frame_links)
qed


lemma bnd_ret [simp]: "bnd (ret x) f = f x"
  by (simp add: bnd_def ret_def)

lemma bnd_fault [simp]: "bnd (fault e) f = fault e"
  by (simp add: bnd_def fault_def)

lemma set_tree_ins [simp]: "set_tree (ins m bp t) = insert bp (set_tree t)"
  by (induction t) auto

lemma frame_SETLEFT: "frame (lcells {a}) m (SETLEFT m a v)"
  unfolding SETLEFT_def by (rule frame_mono [OF frame_PUT]) (simp add: lcells_def)

lemma frame_SETRIGHT: "frame (lcells {a}) m (SETRIGHT m a v)"
  unfolding SETRIGHT_def WSIZE_def by (rule frame_mono [OF frame_PUT]) (simp add: lcells_def)

lemma lcells_Un: "lcells (A \<union> B) = lcells A \<union> lcells B"
  by (auto simp add: lcells_def)

lemma lcells_mono: "A \<subseteq> B \<Longrightarrow> lcells A \<subseteq> lcells B"
  by (auto simp add: lcells_def)

lemma frame_lcells_trans:
  "frame (lcells A) m m1 \<Longrightarrow> frame (lcells B) m1 m2 \<Longrightarrow> A \<union> B \<subseteq> C \<Longrightarrow> frame (lcells C) m m2"
  by (rule frame_mono [OF frame_trans]) (auto simp add: lcells_def)

lemma LEFT_SETLEFT [simp]: "LEFT (SETLEFT m a v) a = v"
  by (simp add: LEFT_def SETLEFT_def)

lemma RIGHT_SETRIGHT [simp]: "RIGHT (SETRIGHT m a v) a = v"
  by (simp add: RIGHT_def SETRIGHT_def)

lemma RIGHT_SETLEFT [simp]: "node_ok a \<Longrightarrow> RIGHT (SETLEFT m a v) a = RIGHT m a"
  by (simp add: RIGHT_def SETLEFT_def WSIZE_def GET_PUT_disj node_cdisj)

lemma LEFT_SETRIGHT [simp]: "node_ok a \<Longrightarrow> LEFT (SETRIGHT m a v) a = LEFT m a"
  by (simp add: LEFT_def SETRIGHT_def WSIZE_def GET_PUT_disj node_cdisj)

lemma mm_insert_correct:
  assumes "Tree m root t" "sep (insert bp (set_tree t))" "bp \<notin> set_tree t" "distinct (inorder t)"
  shows "\<exists>m'. mm_insert m root bp = ret (m', if root = NULL then bp else root)
            \<and> Tree m' (if root = NULL then bp else root) (ins m bp t)
            \<and> frame (lcells (insert bp (set_tree t))) m m'"
  using assms
proof (induction t arbitrary: root)
  case Leaf
  then have ok: "node_ok bp" and r: "root = NULL" by (auto simp add: sep_def)
  let ?m' = "SETRIGHT (SETLEFT m bp NULL) bp NULL"
  have "mm_insert m root bp = ret (?m', bp)"
    using ok r by (subst mm_insert.simps) (simp add: node_ok_nonnull)
  moreover have "Tree ?m' bp (Node Leaf bp Leaf)"
    using ok by (simp add: node_ok_nonnull)
  moreover have "frame (lcells {bp}) m ?m'"
    by (rule frame_lcells_trans [OF frame_SETLEFT frame_SETRIGHT]) simp
  ultimately show ?case using r by auto
next
  case (Node l a r)
  then have root: "root = a" "a \<noteq> NULL" and tl: "Tree m (LEFT m a) l" and tr: "Tree m (RIGHT m a) r"
    by auto
  from Node.prems have ok: "node_ok bp" "node_ok a" and bpa: "bp \<noteq> a"
    by (auto simp add: sep_def)
  have bpn: "bp \<noteq> NULL" using ok by (simp add: node_ok_nonnull)
  from Node.prems have dl: "distinct (inorder l)" and dr: "distinct (inorder r)"
    and al: "a \<notin> set_tree l" and ar: "a \<notin> set_tree r" and lr: "set_tree l \<inter> set_tree r = {}"
    by auto
  let ?S = "insert bp (set_tree (Node l a r))"
  have sepS: "sep ?S" using Node.prems by simp
  show ?case
  proof (cases "key m bp \<le> key m a")
    case True
    have "sep (insert bp (set_tree l))" by (rule sep_mono [OF sepS]) auto
    moreover have "bp \<notin> set_tree l" using Node.prems by auto
    ultimately obtain m1 where
      m1: "mm_insert m (LEFT m a) bp = ret (m1, if LEFT m a = NULL then bp else LEFT m a)"
      and t1: "Tree m1 (if LEFT m a = NULL then bp else LEFT m a) (ins m bp l)"
      and f1: "frame (lcells (insert bp (set_tree l))) m m1"
      using Node.IH(1) [OF tl _ _ dl] by blast
    let ?q = "if LEFT m a = NULL then bp else LEFT m a"
    let ?m' = "SETLEFT m1 a ?q"
    have call: "mm_insert m root bp = ret (?m', a)"
      using True root bpn m1
      by (subst mm_insert.simps) (simp add: key_def word_sle_eq)
    have f2: "frame (lcells {a}) m1 ?m'" by (rule frame_SETLEFT)
    have fr': "frame (lcells (insert a (insert bp (set_tree l)))) m ?m'"
      by (rule frame_lcells_trans [OF f1 f2]) auto
    have fr: "frame (lcells ?S) m ?m'"
      by (rule frame_mono [OF fr']) (auto intro!: lcells_mono)
    have "Tree ?m' ?q (ins m bp l)"
      by (rule frame_Tree [OF t1 f2]) (use al bpa in \<open>auto intro: sep_mono [OF sepS]\<close>)
    moreover have "RIGHT ?m' a = RIGHT m a"
    proof -
      have "RIGHT m1 a = RIGHT m a"
        by (rule frame_links [OF f1]) (use al bpa in \<open>auto intro: sep_mono [OF sepS]\<close>)
      then show ?thesis using ok by simp
    qed
    moreover have "Tree ?m' (RIGHT m a) r"
      by (rule frame_Tree [OF tr fr']) (use al bpa ar lr Node.prems in \<open>auto intro: sep_mono [OF sepS]\<close>)
    ultimately have "Tree ?m' a (ins m bp (Node l a r))"
      using True root by simp
    then show ?thesis using call fr root by auto
  next
    case False
    have "sep (insert bp (set_tree r))" by (rule sep_mono [OF sepS]) auto
    moreover have "bp \<notin> set_tree r" using Node.prems by auto
    ultimately obtain m1 where
      m1: "mm_insert m (RIGHT m a) bp = ret (m1, if RIGHT m a = NULL then bp else RIGHT m a)"
      and t1: "Tree m1 (if RIGHT m a = NULL then bp else RIGHT m a) (ins m bp r)"
      and f1: "frame (lcells (insert bp (set_tree r))) m m1"
      using Node.IH(2) [OF tr _ _ dr] by blast
    let ?q = "if RIGHT m a = NULL then bp else RIGHT m a"
    let ?m' = "SETRIGHT m1 a ?q"
    have call: "mm_insert m root bp = ret (?m', a)"
      using False root bpn m1
      by (subst mm_insert.simps) (simp add: key_def word_sle_eq)
    have f2: "frame (lcells {a}) m1 ?m'" by (rule frame_SETRIGHT)
    have fr': "frame (lcells (insert a (insert bp (set_tree r)))) m ?m'"
      by (rule frame_lcells_trans [OF f1 f2]) auto
    have fr: "frame (lcells ?S) m ?m'"
      by (rule frame_mono [OF fr']) (auto intro!: lcells_mono)
    have "Tree ?m' ?q (ins m bp r)"
      by (rule frame_Tree [OF t1 f2]) (use ar bpa in \<open>auto intro: sep_mono [OF sepS]\<close>)
    moreover have "LEFT ?m' a = LEFT m a"
    proof -
      have "LEFT m1 a = LEFT m a"
        by (rule frame_links [OF f1]) (use ar bpa in \<open>auto intro: sep_mono [OF sepS]\<close>)
      then show ?thesis using ok by simp
    qed
    moreover have "Tree ?m' (LEFT m a) l"
      by (rule frame_Tree [OF tl fr']) (use al bpa ar lr Node.prems in \<open>auto intro: sep_mono [OF sepS]\<close>)
    ultimately have "Tree ?m' a (ins m bp (Node l a r))"
      using False root by simp
    then show ?thesis using call fr root by auto
  qed
qed


subsection \<open>Ordering is kept by insertion\<close>

lemma ordered_cong: "(\<And>a. a \<in> set_tree t \<Longrightarrow> key m' a = key m a) \<Longrightarrow> ordered m' t = ordered m t"
  by (induction t) auto

lemma ordered_ins: "ordered m t \<Longrightarrow> ordered m (ins m bp t)"
  by (induction t) auto

lemma distinct_ins: "distinct (inorder t) \<Longrightarrow> bp \<notin> set_tree t \<Longrightarrow> distinct (inorder (ins m bp t))"
  by (induction t) auto

subsection \<open>Searching\<close>

lemma mm_fitter_correct:
  assumes "Tree m root t" "ordered m t"
  shows "\<exists>r. mm_fitter m root sz = ret r
           \<and> (r = NULL \<longleftrightarrow> (\<forall>a\<in>set_tree t. key m a < sint sz))
           \<and> (r \<noteq> NULL \<longrightarrow> r \<in> set_tree t \<and> sint sz \<le> key m r)"
  using assms
proof (induction t arbitrary: root)
  case Leaf
  then show ?case by (subst mm_fitter.simps) simp
next
  case (Node l a r)
  then have root: "root = a" "a \<noteq> NULL" and tr: "Tree m (RIGHT m a) r" by auto
  show ?case
  proof (cases "sint sz \<le> key m a")
    case True
    then have "mm_fitter m root sz = ret a"
      using root by (subst mm_fitter.simps) (simp add: key_def word_sle_eq)
    then show ?thesis using True root by auto
  next
    case False
    from Node.prems have "ordered m r" by simp
    from Node.IH(2) [OF tr this] obtain q where
      q: "mm_fitter m (RIGHT m a) sz = ret q"
        "q = NULL \<longleftrightarrow> (\<forall>a\<in>set_tree r. key m a < sint sz)"
        "q \<noteq> NULL \<longrightarrow> q \<in> set_tree r \<and> sint sz \<le> key m q" by blast
    have "mm_fitter m root sz = ret q"
      using False root q(1)
      by (subst mm_fitter.simps) (simp add: key_def word_sle_eq word_sless_alt)
    moreover have "\<forall>x\<in>set_tree l. key m x < sint sz" using Node.prems(2) False by fastforce
    ultimately show ?thesis using q False by auto
  qed
qed

subsection \<open>Abstract removal\<close>

fun root_of :: "ptr tree \<Rightarrow> ptr" where
  "root_of Leaf = NULL"
| "root_of (Node l a r) = a"

fun parent :: "ptr tree \<Rightarrow> ptr \<Rightarrow> ptr" where
  "parent Leaf x = NULL"
| "parent (Node l a r) x =
     (if x = a then NULL
      else if x \<in> set_tree l then (if root_of l = x then a else parent l x)
      else (if root_of r = x then a else parent r x))"

fun sub :: "ptr tree \<Rightarrow> ptr \<Rightarrow> ptr tree" where
  "sub Leaf x = Leaf"
| "sub (Node l a r) x =
     (if x = a then Node l a r else if x \<in> set_tree l then sub l x else sub r x)"

fun repl :: "ptr tree \<Rightarrow> ptr \<Rightarrow> ptr tree \<Rightarrow> ptr tree" where
  "repl Leaf x s = Leaf"
| "repl (Node l a r) x s =
     (if x = a then s else if x \<in> set_tree l then Node (repl l x s) a r else Node l a (repl r x s))"

fun rightmost :: "ptr tree \<Rightarrow> ptr" where
  "rightmost Leaf = NULL"
| "rightmost (Node l a r) = (if r = Leaf then a else rightmost r)"

definition del_root :: "ptr tree \<Rightarrow> ptr tree" where
  "del_root t = (case t of Leaf \<Rightarrow> Leaf | Node l a r \<Rightarrow>
     if l = Leaf then r else if r = Leaf then l
     else Node (repl l (rightmost l) (left (sub l (rightmost l)))) (rightmost l) r)"

definition del :: "ptr tree \<Rightarrow> ptr \<Rightarrow> ptr tree" where
  "del t x = repl t x (del_root (sub t x))"

lemma Tree_root_of: "Tree m p t \<Longrightarrow> p = root_of t"
  by (cases t) auto

lemma Tree_nonnull: "Tree m p t \<Longrightarrow> a \<in> set_tree t \<Longrightarrow> a \<noteq> NULL"
  by (induction t arbitrary: p) auto

lemma root_of_in: "t \<noteq> Leaf \<Longrightarrow> root_of t \<in> set_tree t"
  by (cases t) auto

lemma sub_subset: "set_tree (sub t x) \<subseteq> set_tree t"
  by (induction t) auto

lemma sub_root: "x \<in> set_tree t \<Longrightarrow> \<exists>l r. sub t x = Node l x r"
  by (induction t) auto

lemma sub_distinct: "distinct (inorder t) \<Longrightarrow> distinct (inorder (sub t x))"
  by (induction t) auto

lemma sub_ordered: "ordered m t \<Longrightarrow> ordered m (sub t x)"
  by (induction t) auto

lemma Tree_sub: "Tree m p t \<Longrightarrow> x \<in> set_tree t \<Longrightarrow> Tree m x (sub t x)"
  by (induction t arbitrary: p) auto

lemma parent_in:
  "x \<in> set_tree t \<Longrightarrow> x \<noteq> root_of t \<Longrightarrow> distinct (inorder t)
   \<Longrightarrow> parent t x \<in> set_tree t - set_tree (sub t x)"
proof (induction t)
  case Leaf
  then show ?case by simp
next
  case (Node l a r)
  have sl: "set_tree (sub l x) \<subseteq> set_tree l" and sr: "set_tree (sub r x) \<subseteq> set_tree r"
    by (rule sub_subset)+
  show ?case
  proof (cases "x \<in> set_tree l")
    case True
    then show ?thesis using Node sl by (cases "root_of l = x") auto
  next
    case False
    then show ?thesis using Node sr by (cases "root_of r = x") auto
  qed
qed

lemma parent_root: "parent t (root_of t) = NULL"
  by (cases t) auto

lemma set_repl:
  "x \<in> set_tree t \<Longrightarrow> distinct (inorder t)
   \<Longrightarrow> set_tree (repl t x s) = (set_tree t - set_tree (sub t x)) \<union> set_tree s"
proof (induction t)
  case Leaf
  then show ?case by simp
next
  case (Node l a r)
  have sl: "set_tree (sub l x) \<subseteq> set_tree l" and sr: "set_tree (sub r x) \<subseteq> set_tree r"
    by (rule sub_subset)+
  show ?case
  proof (cases "x = a")
    case True
    then show ?thesis by auto
  next
    case xa: False
    show ?thesis
    proof (cases "x \<in> set_tree l")
      case True
      with Node xa have "set_tree (repl l x s) = (set_tree l - set_tree (sub l x)) \<union> set_tree s" by simp
      with True xa Node.prems sl show ?thesis by auto
    next
      case False
      with Node xa have "set_tree (repl r x s) = (set_tree r - set_tree (sub r x)) \<union> set_tree s" by simp
      with False xa Node.prems sr show ?thesis by auto
    qed
  qed
qed

lemma distinct_repl:
  "x \<in> set_tree t \<Longrightarrow> distinct (inorder t) \<Longrightarrow> distinct (inorder s)
   \<Longrightarrow> set_tree s \<subseteq> set_tree (sub t x) \<Longrightarrow> distinct (inorder (repl t x s))"
proof (induction t)
  case Leaf
  then show ?case by simp
next
  case (Node l a r)
  have sl: "set_tree (sub l x) \<subseteq> set_tree l" and sr: "set_tree (sub r x) \<subseteq> set_tree r"
    by (rule sub_subset)+
  show ?case
  proof (cases "x = a")
    case True
    then show ?thesis using Node.prems by simp
  next
    case xa: False
    show ?thesis
    proof (cases "x \<in> set_tree l")
      case True
      with Node xa have "distinct (inorder (repl l x s))" by simp
      moreover have "set_tree (repl l x s) \<subseteq> set_tree l"
        using set_repl [of x l s] True Node.prems xa sl by auto
      ultimately show ?thesis using True xa Node.prems by auto
    next
      case False
      with Node xa have "distinct (inorder (repl r x s))" by simp
      moreover have "set_tree (repl r x s) \<subseteq> set_tree r"
        using set_repl [of x r s] False Node.prems xa sr by auto
      ultimately show ?thesis using False xa Node.prems by auto
    qed
  qed
qed

lemma ordered_repl:
  "x \<in> set_tree t \<Longrightarrow> distinct (inorder t) \<Longrightarrow> ordered m t \<Longrightarrow> ordered m s
   \<Longrightarrow> set_tree s \<subseteq> set_tree (sub t x) \<Longrightarrow> ordered m (repl t x s)"
proof (induction t)
  case Leaf
  then show ?case by simp
next
  case (Node l a r)
  have sl: "set_tree (sub l x) \<subseteq> set_tree l" and sr: "set_tree (sub r x) \<subseteq> set_tree r"
    by (rule sub_subset)+
  show ?case
  proof (cases "x = a")
    case True
    then show ?thesis using Node.prems by simp
  next
    case xa: False
    show ?thesis
    proof (cases "x \<in> set_tree l")
      case True
      with Node xa have "ordered m (repl l x s)" by simp
      moreover have "set_tree (repl l x s) \<subseteq> set_tree l"
        using set_repl [of x l s] True Node.prems xa sl by auto
      ultimately show ?thesis using True xa Node.prems by auto
    next
      case False
      with Node xa have "ordered m (repl r x s)" by simp
      moreover have "set_tree (repl r x s) \<subseteq> set_tree r"
        using set_repl [of x r s] False Node.prems xa sr by auto
      ultimately show ?thesis using False xa Node.prems by auto
    qed
  qed
qed


subsection \<open>The helpers of removal\<close>

lemma mm_parent_correct:
  assumes "Tree m root t" "ordered m t" "distinct (inorder t)" "x \<in> set_tree t"
  shows "mm_parent m root x = ret (parent t x)"
  using assms
proof (induction t arbitrary: root)
  case Leaf
  then show ?case by simp
next
  case (Node l a r)
  then have root: "root = a" "a \<noteq> NULL" and tl: "Tree m (LEFT m a) l" and tr: "Tree m (RIGHT m a) r"
    by auto
  have xn: "x \<noteq> NULL" using Node.prems by (auto dest: Tree_nonnull)
  have la: "LEFT m a = root_of l" and ra: "RIGHT m a = root_of r"
    using tl tr by (auto dest: Tree_root_of)
  show ?case
  proof (cases "x = a")
    case True
    then show ?thesis using root by (subst mm_parent.simps) simp
  next
    case xa: False
    show ?thesis
    proof (cases "x \<in> set_tree l")
      case True
      then have k: "key m x \<le> key m a" using Node.prems by simp
      show ?thesis
      proof (cases "root_of l = x")
        case True
        then show ?thesis using xa xn root k la \<open>x \<in> set_tree l\<close>
          by (subst mm_parent.simps) (simp add: key_def word_sle_eq)
      next
        case False
        have "mm_parent m (LEFT m a) x = ret (parent l x)"
          using Node.IH(1) [OF tl] Node.prems True by simp
        then show ?thesis using xa xn root k la False True
          by (subst mm_parent.simps) (simp add: key_def word_sle_eq)
      qed
    next
      case False
      then have xr: "x \<in> set_tree r" using Node.prems xa by simp
      then have k: "\<not> key m x \<le> key m a" using Node.prems by fastforce
      show ?thesis
      proof (cases "root_of r = x")
        case True
        then show ?thesis using xa xn root k ra False
          by (subst mm_parent.simps) (simp add: key_def word_sle_eq)
      next
        case nr: False
        have "mm_parent m (RIGHT m a) x = ret (parent r x)"
          using Node.IH(2) [OF tr] Node.prems xr by simp
        then show ?thesis using xa xn root k ra False nr
          by (subst mm_parent.simps) (simp add: key_def word_sle_eq)
      qed
    qed
  qed
qed

lemma mm_replace_correct:
  "Tree m p t \<Longrightarrow> t \<noteq> Leaf \<Longrightarrow> mm_replace m p = ret (rightmost t)"
proof (induction t arbitrary: p)
  case Leaf
  then show ?case by simp
next
  case (Node l a r)
  then have p: "p = a" "a \<noteq> NULL" and tr: "Tree m (RIGHT m a) r" by auto
  show ?case
  proof (cases "r = Leaf")
    case True
    then show ?thesis using p tr by (subst mm_replace.simps) simp
  next
    case False
    then have "RIGHT m a \<noteq> NULL" using tr by auto
    moreover have "mm_replace m (RIGHT m a) = ret (rightmost r)"
      using Node.IH(2) [OF tr False] .
    ultimately show ?thesis using p False by (subst mm_replace.simps) simp
  qed
qed

lemma mm_children_correct:
  "Tree m p (Node l a r) \<Longrightarrow>
   mm_children m p = ret ((if l \<noteq> Leaf then 1 else 0) + (if r \<noteq> Leaf then 1 else 0))"
  by (auto simp add: mm_children_def)

lemma rightmost_in: "t \<noteq> Leaf \<Longrightarrow> rightmost t \<in> set_tree t"
  by (induction t) auto

lemma rightmost_sub:
  "t \<noteq> Leaf \<Longrightarrow> distinct (inorder t) \<Longrightarrow> \<exists>pl. sub t (rightmost t) = Node pl (rightmost t) Leaf"
proof (induction t)
  case Leaf
  then show ?case by simp
next
  case (Node l a r)
  show ?case
  proof (cases "r = Leaf")
    case True
    then show ?thesis by simp
  next
    case False
    then have "rightmost r \<in> set_tree r" by (rule rightmost_in)
    then have "rightmost r \<noteq> a" "rightmost r \<notin> set_tree l" using Node.prems by auto
    then show ?thesis using Node False by simp
  qed
qed

lemma rightmost_max:
  "t \<noteq> Leaf \<Longrightarrow> ordered m t \<Longrightarrow> y \<in> set_tree t \<Longrightarrow> key m y \<le> key m (rightmost t)"
proof (induction t)
  case Leaf
  then show ?case by simp
next
  case (Node l a r)
  show ?case
  proof (cases "r = Leaf")
    case True
    then show ?thesis using Node.prems by auto
  next
    case False
    then have rin: "rightmost r \<in> set_tree r" by (rule rightmost_in)
    then have ka: "key m a < key m (rightmost r)" using Node.prems by simp
    have "key m y \<le> key m (rightmost r)"
    proof (cases "y \<in> set_tree r")
      case True
      then show ?thesis using Node.IH(2) [OF False] Node.prems by simp
    next
      case False
      then have "key m y \<le> key m a" using Node.prems by auto
      then show ?thesis using ka by simp
    qed
    then show ?thesis using False by simp
  qed
qed


subsection \<open>Relinking a subtree\<close>

definition relink_mem :: "mem \<Rightarrow> ptr \<Rightarrow> ptr \<Rightarrow> ptr \<Rightarrow> mem" where
  "relink_mem m p x c =
     (if p = NULL then m else if LEFT m p = x then SETLEFT m p c else SETRIGHT m p c)"

definition agree :: "mem \<Rightarrow> mem \<Rightarrow> ptr set \<Rightarrow> bool" where
  "agree m m0 S \<longleftrightarrow> (\<forall>a\<in>S. LEFT m a = LEFT m0 a \<and> RIGHT m a = RIGHT m0 a)"

lemma relink_eq:
  "relink m root p x c ar = ret (relink_mem m p x c, if p = NULL then ar else root)"
  by (simp add: relink_def relink_mem_def)

lemma frame_relink_mem: "frame (lcells (if p = NULL then {} else {p})) m (relink_mem m p x c)"
  by (simp add: relink_mem_def frame_SETLEFT frame_SETRIGHT)

lemma agree_Tree: "Tree m0 p t \<Longrightarrow> agree m m0 (set_tree t) \<Longrightarrow> Tree m p t"
  by (rule Tree_cong) (auto simp add: agree_def)

lemma agree_mono: "agree m m0 S \<Longrightarrow> T \<subseteq> S \<Longrightarrow> agree m m0 T"
  by (auto simp add: agree_def)

lemma agree_frame:
  assumes "agree m m0 S" "frame (lcells C) m m'" "sep (C \<union> S)" "C \<inter> S = {}"
  shows "agree m' m0 S"
  unfolding agree_def
proof
  fix a assume a: "a \<in> S"
  have "sep (insert a C)" using assms(3) a by (auto elim: sep_mono)
  moreover have "a \<notin> C" using assms(4) a by auto
  ultimately have "LEFT m' a = LEFT m a \<and> RIGHT m' a = RIGHT m a"
    using assms(2) by (simp add: frame_links)
  then show "LEFT m' a = LEFT m0 a \<and> RIGHT m' a = RIGHT m0 a"
    using assms(1) a by (simp add: agree_def)
qed

lemma relink_Tree:
  assumes "Tree m0 root t" "distinct (inorder t)" "sep (set_tree t)" "x \<in> set_tree t"
    and "agree m m0 (set_tree t - set_tree (sub t x))"
    and "Tree m c s" "set_tree s \<subseteq> set_tree (sub t x)"
  shows "Tree (relink_mem m (parent t x) x c) (if x = root then c else root) (repl t x s)"
  using assms
proof (induction t arbitrary: root)
  case Leaf
  then show ?case by simp
next
  case (Node l a r)
  then have root: "root = a" "a \<noteq> NULL" and tl: "Tree m0 (LEFT m0 a) l" and tr: "Tree m0 (RIGHT m0 a) r"
    by auto
  have la: "LEFT m0 a = root_of l" and ra: "RIGHT m0 a = root_of r"
    using tl tr by (auto dest: Tree_root_of)
  have sl: "set_tree (sub l x) \<subseteq> set_tree l" and sr: "set_tree (sub r x) \<subseteq> set_tree r"
    by (rule sub_subset)+
  from Node.prems have dl: "distinct (inorder l)" and dr: "distinct (inorder r)"
    and al: "a \<notin> set_tree l" and ar: "a \<notin> set_tree r" and lr: "set_tree l \<inter> set_tree r = {}"
    by auto
  let ?T = "set_tree (Node l a r)"
  have sepT: "sep ?T" using Node.prems by simp
  have oka: "node_ok a" using sepT by (auto simp add: sep_def)
  show ?case
  proof (cases "x = a")
    case True
    then show ?thesis using root Node.prems by (simp add: relink_mem_def)
  next
    case xa: False
    define pp where "pp = parent (Node l a r) x"
    let ?m' = "relink_mem m pp x c"
    have pin: "pp \<in> ?T - set_tree (sub (Node l a r) x)"
      unfolding pp_def by (rule parent_in) (use Node.prems xa in auto)
    then have pn: "pp \<noteq> NULL" using Node.prems(1) Tree_nonnull by blast
    have fr: "frame (lcells {pp}) m ?m'"
      using frame_relink_mem [of pp m x c] pn by simp
    have "Tree ?m' a (repl (Node l a r) x s)"
    proof (cases "x \<in> set_tree l")
      case True
      then have subx: "sub (Node l a r) x = sub l x" using xa by simp
      have ag: "agree m m0 (insert a (set_tree r) \<union> (set_tree l - set_tree (sub l x)))"
        by (rule agree_mono [OF Node.prems(5)]) (use subx sl al lr in auto)
      have ss: "set_tree s \<subseteq> set_tree (sub l x)" using Node.prems(7) subx by simp
      have agr: "agree ?m' m0 (set_tree r)"
      proof (rule agree_frame [OF _ fr])
        show "agree m m0 (set_tree r)" by (rule agree_mono [OF ag]) auto
        show "sep ({pp} \<union> set_tree r)" by (rule sep_mono [OF sepT]) (use pin in auto)
        have "parent l x \<in> set_tree l" if "root_of l \<noteq> x"
          using parent_in [OF True _ dl] that by auto
        then have "pp = a \<or> pp \<in> set_tree l"
          using xa True by (cases "root_of l = x") (simp_all add: pp_def)
        then show "{pp} \<inter> set_tree r = {}" using ar lr by auto
      qed
      have Tr: "Tree ?m' (RIGHT m0 a) r" by (rule agree_Tree [OF tr agr])
      show ?thesis
      proof (cases "root_of l = x")
        case rl: True
        then have p: "pp = a" using xa True by (simp add: pp_def)
        have "LEFT m a = x" using ag la rl by (simp add: agree_def)
        then have m': "?m' = SETLEFT m a c" using p root by (simp add: relink_mem_def)
        have "l \<noteq> Leaf" using True by auto
        then obtain l1 l2 where l: "l = Node l1 x l2" using rl by (cases l) auto
        then have rp: "repl (Node l a r) x s = Node s a r" using xa by simp
        have "sep ({pp} \<union> set_tree s)"
          by (rule sep_mono [OF sepT]) (use p ss sl in auto)
        moreover have "{pp} \<inter> set_tree s = {}" using p ss sl al by auto
        ultimately have "Tree ?m' c s"
          by (rule frame_Tree [OF Node.prems(6) fr])
        moreover have "LEFT ?m' a = c" using m' by simp
        moreover have "RIGHT ?m' a = RIGHT m0 a"
          using m' oka ag by (simp add: agree_def)
        ultimately show ?thesis using rp Tr root xa by simp
      next
        case nrl: False
        then have p: "pp = parent l x" using xa True by (simp add: pp_def)
        have "Tree (relink_mem m (parent l x) x c) (if x = LEFT m0 a then c else LEFT m0 a) (repl l x s)"
        proof (rule Node.IH(1) [OF tl dl _ True _ Node.prems(6) ss])
          show "sep (set_tree l)" by (rule sep_mono [OF sepT]) auto
          show "agree m m0 (set_tree l - set_tree (sub l x))" by (rule agree_mono [OF ag]) auto
        qed
        then have Tl: "Tree ?m' (LEFT m0 a) (repl l x s)" using p la nrl by simp
        have pl: "pp \<in> set_tree l" unfolding p using parent_in [OF True _ dl] nrl by auto
        have "agree ?m' m0 {a}"
        proof (rule agree_frame [OF _ fr])
          show "agree m m0 {a}" by (rule agree_mono [OF ag]) auto
          show "sep ({pp} \<union> {a})" by (rule sep_mono [OF sepT]) (use pl in auto)
          show "{pp} \<inter> {a} = {}" using pl al by auto
        qed
        then have "LEFT ?m' a = LEFT m0 a" "RIGHT ?m' a = RIGHT m0 a" by (auto simp add: agree_def)
        then show ?thesis using Tl Tr root xa True by simp
      qed
    next
      case False
      then have xr: "x \<in> set_tree r" using Node.prems xa by simp
      have subx: "sub (Node l a r) x = sub r x" using xa False by simp
      have ag: "agree m m0 (insert a (set_tree l) \<union> (set_tree r - set_tree (sub r x)))"
        by (rule agree_mono [OF Node.prems(5)]) (use subx sr ar lr in auto)
      have ss: "set_tree s \<subseteq> set_tree (sub r x)" using Node.prems(7) subx by simp
      have agl: "agree ?m' m0 (set_tree l)"
      proof (rule agree_frame [OF _ fr])
        show "agree m m0 (set_tree l)" by (rule agree_mono [OF ag]) auto
        show "sep ({pp} \<union> set_tree l)" by (rule sep_mono [OF sepT]) (use pin in auto)
        have "parent r x \<in> set_tree r" if "root_of r \<noteq> x"
          using parent_in [OF xr _ dr] that by auto
        then have "pp = a \<or> pp \<in> set_tree r"
          using xa False by (cases "root_of r = x") (simp_all add: pp_def)
        then show "{pp} \<inter> set_tree l = {}" using al lr by auto
      qed
      have Tl: "Tree ?m' (LEFT m0 a) l" by (rule agree_Tree [OF tl agl])
      show ?thesis
      proof (cases "root_of r = x")
        case rr: True
        then have p: "pp = a" using xa False by (simp add: pp_def)
        have "RIGHT m a = x" using ag ra rr by (simp add: agree_def)
        moreover have "LEFT m a \<noteq> x"
        proof -
          have "LEFT m a = root_of l" using ag la by (simp add: agree_def)
          moreover have "x \<noteq> NULL" using Node.prems(1,4) Tree_nonnull by blast
          then have "root_of l \<noteq> x" using False by (cases l) auto
          ultimately show ?thesis by simp
        qed
        ultimately have m': "?m' = SETRIGHT m a c" using p root by (simp add: relink_mem_def)
        have "r \<noteq> Leaf" using xr by auto
        then obtain r1 r2 where r: "r = Node r1 x r2" using rr by (cases r) auto
        then have rp: "repl (Node l a r) x s = Node l a s" using xa False by simp
        have "sep ({pp} \<union> set_tree s)"
          by (rule sep_mono [OF sepT]) (use p ss sr in auto)
        moreover have "{pp} \<inter> set_tree s = {}" using p ss sr ar by auto
        ultimately have "Tree ?m' c s"
          by (rule frame_Tree [OF Node.prems(6) fr])
        moreover have "RIGHT ?m' a = c" using m' by simp
        moreover have "LEFT ?m' a = LEFT m0 a"
          using m' oka ag by (simp add: agree_def)
        ultimately show ?thesis using rp Tl root xa by simp
      next
        case nrr: False
        then have p: "pp = parent r x" using xa \<open>x \<notin> set_tree l\<close> by (simp add: pp_def)
        have "Tree (relink_mem m (parent r x) x c) (if x = RIGHT m0 a then c else RIGHT m0 a) (repl r x s)"
        proof (rule Node.IH(2) [OF tr dr _ xr _ Node.prems(6) ss])
          show "sep (set_tree r)" by (rule sep_mono [OF sepT]) auto
          show "agree m m0 (set_tree r - set_tree (sub r x))" by (rule agree_mono [OF ag]) auto
        qed
        then have Tr: "Tree ?m' (RIGHT m0 a) (repl r x s)" using p ra nrr by simp
        have pr: "pp \<in> set_tree r" unfolding p using parent_in [OF xr _ dr] nrr by auto
        have "agree ?m' m0 {a}"
        proof (rule agree_frame [OF _ fr])
          show "agree m m0 {a}" by (rule agree_mono [OF ag]) auto
          show "sep ({pp} \<union> {a})" by (rule sep_mono [OF sepT]) (use pr in auto)
          show "{pp} \<inter> {a} = {}" using pr ar by auto
        qed
        then have "LEFT ?m' a = LEFT m0 a" "RIGHT ?m' a = RIGHT m0 a" by (auto simp add: agree_def)
        then show ?thesis using Tl Tr root xa False by simp
      qed
    qed
    then show ?thesis using root xa by (simp add: pp_def)
  qed
qed


subsection \<open>Properties of abstract removal\<close>

lemma root_of_repl:
  "x \<in> set_tree t \<Longrightarrow> root_of (repl t x s) = (if x = root_of t then root_of s else root_of t)"
  by (cases t) auto

lemma parent_NULL_iff:
  assumes "Tree m root t" "distinct (inorder t)" "x \<in> set_tree t"
  shows "parent t x = NULL \<longleftrightarrow> x = root"
proof
  assume "parent t x = NULL"
  show "x = root"
  proof (rule ccontr)
    assume "x \<noteq> root"
    then have "x \<noteq> root_of t" using assms(1) Tree_root_of by blast
    then have "parent t x \<in> set_tree t" using parent_in assms by blast
    then show False using \<open>parent t x = NULL\<close> assms(1) Tree_nonnull by metis
  qed
next
  assume "x = root"
  then show "parent t x = NULL" using assms(1) Tree_root_of parent_root by metis
qed

lemma set_repl_rightmost:
  assumes "l \<noteq> Leaf" "distinct (inorder l)"
  shows "set_tree (repl l (rightmost l) (left (sub l (rightmost l)))) = set_tree l - {rightmost l}"
proof -
  let ?p = "rightmost l"
  obtain pl where pl: "sub l ?p = Node pl ?p Leaf" using rightmost_sub [OF assms] by blast
  have pin: "?p \<in> set_tree l" using assms(1) by (rule rightmost_in)
  have "distinct (inorder (sub l ?p))" using assms(2) by (rule sub_distinct)
  then have "?p \<notin> set_tree pl" using pl by simp
  moreover have "set_tree (sub l ?p) \<subseteq> set_tree l" by (rule sub_subset)
  ultimately show ?thesis using set_repl [OF pin assms(2), of "left (sub l ?p)"] pl by auto
qed

lemma set_del_root:
  "distinct (inorder (Node l x r)) \<Longrightarrow> set_tree (del_root (Node l x r)) = set_tree l \<union> set_tree r"
  using set_repl_rightmost [of l] rightmost_in [of l]
  by (auto simp add: del_root_def)

lemma distinct_repl_rightmost:
  assumes "l \<noteq> Leaf" "distinct (inorder l)"
  shows "distinct (inorder (repl l (rightmost l) (left (sub l (rightmost l)))))"
proof -
  let ?p = "rightmost l"
  obtain pl where pl: "sub l ?p = Node pl ?p Leaf" using rightmost_sub [OF assms] by blast
  have pin: "?p \<in> set_tree l" using assms(1) by (rule rightmost_in)
  have "distinct (inorder (sub l ?p))" using assms(2) by (rule sub_distinct)
  then have "distinct (inorder pl)" using pl by simp
  then show ?thesis using distinct_repl [OF pin assms(2), of pl] pl by auto
qed

lemma distinct_del_root:
  assumes "distinct (inorder (Node l x r))"
  shows "distinct (inorder (del_root (Node l x r)))"
proof (cases "l = Leaf \<or> r = Leaf")
  case True
  then show ?thesis using assms by (auto simp add: del_root_def)
next
  case False
  then have l: "l \<noteq> Leaf" and dl: "distinct (inorder l)" using assms by auto
  show ?thesis
    using False assms distinct_repl_rightmost [OF l dl] set_repl_rightmost [OF l dl]
      rightmost_in [OF l]
    by (auto simp add: del_root_def)
qed

lemma ordered_repl_rightmost:
  assumes "l \<noteq> Leaf" "distinct (inorder l)" "ordered m l"
  shows "ordered m (repl l (rightmost l) (left (sub l (rightmost l))))"
proof -
  let ?p = "rightmost l"
  obtain pl where pl: "sub l ?p = Node pl ?p Leaf" using rightmost_sub [OF assms(1,2)] by blast
  have pin: "?p \<in> set_tree l" using assms(1) by (rule rightmost_in)
  have "ordered m (sub l ?p)" using assms(3) by (rule sub_ordered)
  then have "ordered m pl" using pl by simp
  then show ?thesis using ordered_repl [OF pin assms(2,3), of pl] pl by auto
qed

lemma ordered_del_root:
  assumes "distinct (inorder (Node l x r))" "ordered m (Node l x r)"
  shows "ordered m (del_root (Node l x r))"
proof (cases "l = Leaf \<or> r = Leaf")
  case True
  then show ?thesis using assms by (auto simp add: del_root_def)
next
  case False
  then have l: "l \<noteq> Leaf" and dl: "distinct (inorder l)" and ol: "ordered m l"
    using assms by auto
  let ?p = "rightmost l"
  have pin: "?p \<in> set_tree l" using l by (rule rightmost_in)
  have "\<forall>y\<in>set_tree l. key m y \<le> key m ?p" using rightmost_max [OF l ol] by blast
  moreover have "\<forall>z\<in>set_tree r. key m ?p < key m z" using assms(2) pin by fastforce
  ultimately show ?thesis
    using False assms ordered_repl_rightmost [OF l dl ol] set_repl_rightmost [OF l dl]
    by (auto simp add: del_root_def)
qed

lemma set_del:
  assumes "x \<in> set_tree t" "distinct (inorder t)"
  shows "set_tree (del t x) = set_tree t - {x}"
proof -
  obtain l r where s: "sub t x = Node l x r" using sub_root [OF assms(1)] by blast
  have d: "distinct (inorder (Node l x r))" using sub_distinct [OF assms(2), of x] s by simp
  have "set_tree (sub t x) \<subseteq> set_tree t" by (rule sub_subset)
  then show ?thesis
    unfolding del_def using set_repl [OF assms] set_del_root [OF d] s d by auto
qed

lemma distinct_del:
  assumes "x \<in> set_tree t" "distinct (inorder t)"
  shows "distinct (inorder (del t x))"
proof -
  obtain l r where s: "sub t x = Node l x r" using sub_root [OF assms(1)] by blast
  have d: "distinct (inorder (Node l x r))" using sub_distinct [OF assms(2), of x] s by simp
  show ?thesis
    unfolding del_def using distinct_repl [OF assms] distinct_del_root [OF d] set_del_root [OF d] s
    by auto
qed

lemma ordered_del:
  assumes "x \<in> set_tree t" "distinct (inorder t)" "ordered m t"
  shows "ordered m (del t x)"
proof -
  obtain l r where s: "sub t x = Node l x r" using sub_root [OF assms(1)] by blast
  have d: "distinct (inorder (Node l x r))" using sub_distinct [OF assms(2), of x] s by simp
  have "ordered m (Node l x r)" using sub_ordered [OF assms(3), of x] s by simp
  then show ?thesis
    unfolding del_def using ordered_repl [OF assms] ordered_del_root [OF d] set_del_root [OF d] s
    by auto
qed


subsection \<open>Removal\<close>

lemma agree_refl [simp]: "agree m m S"
  by (simp add: agree_def)

lemma mm_remove_le1:
  assumes T: "Tree m root t" "ordered m t" "distinct (inorder t)" "sep (set_tree t)"
    and x: "x \<in> set_tree t" and s: "sub t x = Node l x r" "l = Leaf \<or> r = Leaf"
  shows "\<exists>m'. mm_remove m root x = ret (m', root_of (del t x))
          \<and> Tree m' (root_of (del t x)) (del t x)
          \<and> frame (lcells (set_tree t - {x})) m m'"
proof -
  let ?p = "parent t x"
  let ?s = "del_root (sub t x)"
  let ?c = "root_of ?s"
  let ?m' = "relink_mem m ?p x ?c"
  have tx: "Tree m x (Node l x r)" using Tree_sub [OF T(1) x] s by simp
  then have tl: "Tree m (LEFT m x) l" and tr: "Tree m (RIGHT m x) r" and xn: "x \<noteq> NULL" by auto
  have ds: "?s = (if l = Leaf then r else l)" using s by (auto simp add: del_root_def)
  have c: "?c = (if LEFT m x \<noteq> NULL then LEFT m x else RIGHT m x)"
    using ds tl tr s(2) by (auto dest: Tree_root_of)
  have Tc: "Tree m ?c ?s" using ds tl tr c by (auto split: if_splits)
  have ss: "set_tree ?s \<subseteq> set_tree (sub t x)" using ds s by auto
  have par: "mm_parent m root x = ret ?p" by (rule mm_parent_correct [OF T(1,2,3) x])
  have pnull: "?p = NULL \<longleftrightarrow> x = root" by (rule parent_NULL_iff [OF T(1,3) x])
  have rt: "root = root_of t" using T(1) by (rule Tree_root_of)
  have res: "root_of (del t x) = (if ?p = NULL then ?c else root)"
    unfolding del_def using root_of_repl [OF x, of ?s] pnull rt by simp
  have ch: "mm_children m x = ret ((if l \<noteq> Leaf then 1 else 0) + (if r \<noteq> Leaf then 1 else 0))"
    by (rule mm_children_correct [OF tx])
  have call: "mm_remove m root x = ret (?m', root_of (del t x))"
  proof (cases "l = Leaf \<and> r = Leaf")
    case True
    then have "?c = NULL" using ds by simp
    then show ?thesis using True ch par res
      by (subst mm_remove.simps) (simp add: relink_eq)
  next
    case False
    then have "(if l \<noteq> Leaf then 1 else 0) + (if r \<noteq> Leaf then 1 else 0) = (1::int)"
      using s(2) by auto
    then show ?thesis using ch par res c
      by (subst mm_remove.simps) (simp add: relink_eq Let_def)
  qed
  have "Tree ?m' (if x = root then ?c else root) (repl t x ?s)"
    by (rule relink_Tree [OF T(1,3,4) x _ Tc ss]) simp
  then have tree: "Tree ?m' (root_of (del t x)) (del t x)"
    using res pnull by (simp add: del_def)
  have "frame (lcells (if ?p = NULL then {} else {?p})) m ?m'" by (rule frame_relink_mem)
  moreover have "(if ?p = NULL then {} else {?p}) \<subseteq> set_tree t - {x}"
  proof (cases "x = root")
    case True
    then show ?thesis using pnull by simp
  next
    case False
    then have "x \<noteq> root_of t" using rt by simp
    then have "?p \<in> set_tree t - set_tree (sub t x)" using parent_in [OF x _ T(3)] by simp
    then show ?thesis using s by auto
  qed
  ultimately have "frame (lcells (set_tree t - {x})) m ?m'"
    using frame_mono lcells_mono by blast
  then show ?thesis using call tree by blast
qed


lemma del_rightmost:
  assumes "l \<noteq> Leaf" "distinct (inorder l)"
  shows "del l (rightmost l) = repl l (rightmost l) (left (sub l (rightmost l)))"
proof -
  obtain pl where pl: "sub l (rightmost l) = Node pl (rightmost l) Leaf"
    using rightmost_sub [OF assms] by blast
  then show ?thesis by (auto simp add: del_def del_root_def)
qed

lemma mm_remove_correct:
  assumes T: "Tree m root t" "ordered m t" "distinct (inorder t)" "sep (set_tree t)"
    and x: "x \<in> set_tree t"
  shows "\<exists>m'. mm_remove m root x = ret (m', root_of (del t x))
          \<and> Tree m' (root_of (del t x)) (del t x)
          \<and> frame (lcells (set_tree t - {x})) m m'"
proof -
  obtain l r where s: "sub t x = Node l x r" using sub_root [OF x] by blast
  show ?thesis
  proof (cases "l = Leaf \<or> r = Leaf")
    case True
    then show ?thesis by (rule mm_remove_le1 [OF T x s])
  next
    case False
    then have l: "l \<noteq> Leaf" and r: "r \<noteq> Leaf" by auto
    let ?T = "set_tree t"
    have subT: "set_tree (Node l x r) \<subseteq> ?T" using sub_subset [of t x] s by simp
    have tx: "Tree m x (Node l x r)" using Tree_sub [OF T(1) x] s by simp
    then have tl: "Tree m (LEFT m x) l" and tr: "Tree m (RIGHT m x) r" and xn: "x \<noteq> NULL" by auto
    have dx: "distinct (inorder (Node l x r))" using sub_distinct [OF T(3), of x] s by simp
    then have dl: "distinct (inorder l)" and xl: "x \<notin> set_tree l" and xr: "x \<notin> set_tree r"
      and lr: "set_tree l \<inter> set_tree r = {}" by auto
    have ox: "ordered m (Node l x r)" using sub_ordered [OF T(2), of x] s by simp
    then have ol: "ordered m l" by simp
    have sepl: "sep (set_tree l)" by (rule sep_mono [OF T(4)]) (use subT in auto)
    define p where "p = rightmost l"
    have pin: "p \<in> set_tree l" unfolding p_def using l by (rule rightmost_in)
    obtain pl where pl: "sub l p = Node pl p Leaf"
      unfolding p_def using rightmost_sub [OF l dl] by blast
    have okp: "node_ok p" using sepl pin by (simp add: sep_def)
    have okx: "node_ok x" using T(4) x by (simp add: sep_def)
    have pn: "p \<noteq> NULL" using okp by (rule node_ok_nonnull)
    have px: "p \<noteq> x" using pin xl by auto
    \<comment> \<open>the inner removal of the predecessor\<close>
    obtain m1 where m1: "mm_remove m (LEFT m x) p = ret (m1, root_of (del l p))"
      and t1: "Tree m1 (root_of (del l p)) (del l p)"
      and f1: "frame (lcells (set_tree l - {p})) m m1"
      using mm_remove_le1 [OF tl ol dl sepl pin pl] by blast
    let ?nb = "root_of (del l p)"
    let ?m2 = "SETLEFT m1 p ?nb"
    let ?m3 = "SETRIGHT ?m2 p (RIGHT ?m2 x)"
    have sdl: "set_tree (del l p) = set_tree l - {p}" by (rule set_del [OF pin dl])
    have f12: "frame (lcells (set_tree l)) m ?m2"
      by (rule frame_lcells_trans [OF f1 frame_SETLEFT]) (use pin in auto)
    have f13: "frame (lcells (set_tree l)) m ?m3"
      by (rule frame_lcells_trans [OF f12 frame_SETRIGHT]) (use pin in auto)
    have f1_3: "frame (lcells {p}) m1 ?m3"
      by (rule frame_lcells_trans [OF frame_SETLEFT frame_SETRIGHT]) simp
    have rx: "RIGHT ?m2 x = RIGHT m x"
      by (rule frame_links [OF f12]) (use xl subT in \<open>auto intro: sep_mono [OF T(4)]\<close>)
    have s3: "Tree ?m3 p (Node (del l p) p r)"
    proof -
      have "LEFT ?m3 p = ?nb" using okp by simp
      moreover have "RIGHT ?m3 p = RIGHT m x" using rx by simp
      moreover have "Tree ?m3 ?nb (del l p)"
      proof (rule frame_Tree [OF t1 f1_3])
        show "sep ({p} \<union> set_tree (del l p))" by (rule sep_mono [OF sepl]) (use sdl pin in auto)
        show "{p} \<inter> set_tree (del l p) = {}" using sdl by auto
      qed
      moreover have "Tree ?m3 (RIGHT m x) r"
      proof (rule frame_Tree [OF tr f13])
        show "sep (set_tree l \<union> set_tree r)" by (rule sep_mono [OF T(4)]) (use subT in auto)
        show "set_tree l \<inter> set_tree r = {}" by (rule lr)
      qed
      ultimately show ?thesis using pn by simp
    qed
    have dr: "del_root (sub t x) = Node (del l p) p r"
      using s l r del_rightmost [OF l dl] by (simp add: del_root_def p_def)
    have dt: "del t x = repl t x (Node (del l p) p r)"
      by (subst del_def) (simp only: dr)
    have ss: "set_tree (Node (del l p) p r) \<subseteq> set_tree (sub t x)"
      using s sdl pin by auto
    let ?pp = "parent t x"
    let ?m4 = "relink_mem ?m3 ?pp x p"
    have ag: "agree ?m3 m (?T - set_tree (sub t x))"
    proof (rule agree_frame [OF _ f13])
      show "agree m m (?T - set_tree (sub t x))" by simp
      show "sep (set_tree l \<union> (?T - set_tree (sub t x)))"
        by (rule sep_mono [OF T(4)]) (use subT in auto)
      show "set_tree l \<inter> (?T - set_tree (sub t x)) = {}" using s by auto
    qed
    have "Tree ?m4 (if x = root then p else root) (repl t x (Node (del l p) p r))"
      by (rule relink_Tree [OF T(1,3,4) x ag s3 ss])
    moreover have pnull: "?pp = NULL \<longleftrightarrow> x = root" by (rule parent_NULL_iff [OF T(1,3) x])
    moreover have rt: "root = root_of t" using T(1) by (rule Tree_root_of)
    moreover have res: "root_of (del t x) = (if ?pp = NULL then p else root)"
      unfolding dt using root_of_repl [OF x, of "Node (del l p) p r"] pnull rt by simp
    ultimately have tree: "Tree ?m4 (root_of (del t x)) (del t x)"
      by (simp add: dt)
    have par: "mm_parent m root x = ret ?pp" by (rule mm_parent_correct [OF T(1,2,3) x])
    have ch: "mm_children m x = ret 2"
      using mm_children_correct [OF tx] l r by simp
    have rep: "mm_replace m (LEFT m x) = ret p"
      unfolding p_def by (rule mm_replace_correct [OF tl l])
    have call: "mm_remove m root x = ret (?m4, root_of (del t x))"
      using ch par rep m1 pn res
      by (subst mm_remove.simps) (simp add: relink_eq Let_def)
    have "frame (lcells (if ?pp = NULL then {} else {?pp})) ?m3 ?m4" by (rule frame_relink_mem)
    moreover have "(if ?pp = NULL then {} else {?pp}) \<subseteq> ?T - {x}"
    proof (cases "x = root")
      case True
      then show ?thesis using pnull by simp
    next
      case False
      then have "x \<noteq> root_of t" using rt by simp
      then have "?pp \<in> ?T - set_tree (sub t x)" using parent_in [OF x _ T(3)] by simp
      then show ?thesis using s by auto
    qed
    moreover have "set_tree l \<subseteq> ?T - {x}" using subT xl by auto
    ultimately have "frame (lcells (?T - {x})) m ?m4"
      using frame_lcells_trans [OF f13] by blast
    then show ?thesis using call tree by blast
  qed
qed

section \<open>Claims about the index\<close>

subsection \<open>An ordered tree has every node once\<close>

lemma size_sub: "size (sub t x) \<le> size t"
  by (induction t) auto

lemma Tree_not_below:
  assumes "Tree m a (Node l a r)"
  shows "a \<notin> set_tree l" "a \<notin> set_tree r"
proof -
  have tl: "Tree m (LEFT m a) l" and tr: "Tree m (RIGHT m a) r" using assms by auto
  show "a \<notin> set_tree l"
  proof
    assume "a \<in> set_tree l"
    then have "Tree m a (sub l a)" using tl by (rule Tree_sub [rotated])
    then have "sub l a = Node l a r" using assms by (rule Tree_fun)
    then have "size (sub l a) = size l + size r + 1" by simp
    then show False using size_sub [of l a] by simp
  qed
  show "a \<notin> set_tree r"
  proof
    assume "a \<in> set_tree r"
    then have "Tree m a (sub r a)" using tr by (rule Tree_sub [rotated])
    then have "sub r a = Node l a r" using assms by (rule Tree_fun)
    then have "size (sub r a) = size l + size r + 1" by simp
    then show False using size_sub [of r a] by simp
  qed
qed

lemma ordered_distinct: "Tree m p t \<Longrightarrow> ordered m t \<Longrightarrow> distinct (inorder t)"
proof (induction t arbitrary: p)
  case Leaf
  then show ?case by simp
next
  case (Node l a r)
  then have t: "Tree m a (Node l a r)" and tl: "Tree m (LEFT m a) l" and tr: "Tree m (RIGHT m a) r"
    by auto
  have "distinct (inorder l)" "distinct (inorder r)"
    using Node.IH(1) [OF tl] Node.IH(2) [OF tr] Node.prems(2) by auto
  moreover have "a \<notin> set_tree l" "a \<notin> set_tree r" using Tree_not_below [OF t] by auto
  moreover have "set_tree l \<inter> set_tree r = {}" using Node.prems(2) by fastforce
  ultimately show ?case by auto
qed

subsection \<open>The fit query\<close>

fun rspine :: "ptr tree \<Rightarrow> ptr list" where
  "rspine Leaf = []"
| "rspine (Node l a r) = a # rspine r"

lemma mm_fitter_spine:
  "Tree m root t \<Longrightarrow>
   mm_fitter m root sz = ret (case find (\<lambda>a. sint sz \<le> key m a) (rspine t) of None \<Rightarrow> NULL | Some a \<Rightarrow> a)"
proof (induction t arbitrary: root)
  case Leaf
  then show ?case by (subst mm_fitter.simps) simp
next
  case (Node l a r)
  then have root: "root = a" "a \<noteq> NULL" and tr: "Tree m (RIGHT m a) r" by auto
  show ?case
  proof (cases "sint sz \<le> key m a")
    case True
    then show ?thesis using root by (subst mm_fitter.simps) (simp add: key_def word_sle_eq)
  next
    case False
    then show ?thesis using root Node.IH(2) [OF tr]
      by (subst mm_fitter.simps) (simp add: key_def word_sle_eq word_sless_alt)
  qed
qed

text \<open>
  C3. On a tree that satisfies the size ordering, \<^verbatim>\<open>mm_fitter(root, size)\<close> returns;
  it returns null exactly when no block of the tree has a size of at least \<open>size\<close>;
  a non-null result is a node of the tree of size at least \<open>size\<close>, and it is the
  first such node met when descending along the right links from the root.
\<close>

theorem mm_fitter_spec:
  assumes "Tree m root t" "ordered m t"
  shows "\<exists>r. mm_fitter m root sz = ret r
           \<and> (r = NULL \<longleftrightarrow> \<not> (\<exists>a\<in>set_tree t. sint sz \<le> key m a))
           \<and> (r \<noteq> NULL \<longrightarrow> r \<in> set_tree t \<and> sint sz \<le> key m r
                 \<and> find (\<lambda>a. sint sz \<le> key m a) (rspine t) = Some r)"
proof -
  obtain r where r: "mm_fitter m root sz = ret r"
    "r = NULL \<longleftrightarrow> (\<forall>a\<in>set_tree t. key m a < sint sz)"
    "r \<noteq> NULL \<longrightarrow> r \<in> set_tree t \<and> sint sz \<le> key m r"
    using mm_fitter_correct [OF assms] by blast
  have "r = (case find (\<lambda>a. sint sz \<le> key m a) (rspine t) of None \<Rightarrow> NULL | Some a \<Rightarrow> a)"
    using r(1) mm_fitter_spine [OF assms(1), of sz] by (simp add: ret_def)
  then have "r \<noteq> NULL \<longrightarrow> find (\<lambda>a. sint sz \<le> key m a) (rspine t) = Some r"
    by (auto split: option.splits)
  then show ?thesis using r by (auto simp add: not_le)
qed

theorem mm_fitter_spec_witness:
  "Tree (PUT (PUT (PUT (\<lambda>_. 0) 12 16) 20 48) 44 32) 16 (Node Leaf 16 (Node Leaf 48 Leaf))
   \<and> ordered (PUT (PUT (PUT (\<lambda>_. 0) 12 16) 20 48) 44 32) (Node Leaf 16 (Node Leaf 48 Leaf))
   \<and> mm_fitter (PUT (PUT (PUT (\<lambda>_. 0) 12 16) 20 48) 44 32) 16 24 = ret 48
   \<and> mm_fitter (PUT (PUT (PUT (\<lambda>_. 0) 12 16) 20 48) 44 32) 16 40 = ret NULL"
proof -
  let ?m = "PUT (PUT (PUT (\<lambda>_. 0) 12 16) 20 48) 44 32"
  let ?t = "Node Leaf 16 (Node Leaf (48 :: ptr) Leaf)"
  have g: "GET ?m 12 = 16" "GET ?m 44 = 32" "GET ?m 16 = 0" "GET ?m 20 = 48" "GET ?m 48 = 0" "GET ?m 52 = 0"
    by (simp_all add: GET_def PUT_def)
  have k: "key ?m 16 = 16" "key ?m 48 = 32"
    using g by (simp_all add: key_def GETSIZE_def WSIZE_def)
  have t: "Tree ?m 16 ?t" using g by (simp add: LEFT_def RIGHT_def WSIZE_def)
  have o: "ordered ?m ?t" using k by simp
  have a: "mm_fitter ?m 16 24 = ret 48"
    using mm_fitter_spec [OF t o, of 24] k by (auto simp add: ret_def)
  have b: "mm_fitter ?m 16 40 = ret NULL"
    using mm_fitter_spec [OF t o, of 40] k by (auto simp add: ret_def)
  show ?thesis using t o a b by blast
qed

subsection \<open>Safety of removal\<close>

lemma parent_link:
  "Tree m root t \<Longrightarrow> distinct (inorder t) \<Longrightarrow> x \<in> set_tree t \<Longrightarrow> x \<noteq> root
   \<Longrightarrow> LEFT m (parent t x) = x \<or> RIGHT m (parent t x) = x"
proof (induction t arbitrary: root)
  case Leaf
  then show ?case by simp
next
  case (Node l a r)
  then have root: "root = a" and tl: "Tree m (LEFT m a) l" and tr: "Tree m (RIGHT m a) r"
    by auto
  have la: "LEFT m a = root_of l" and ra: "RIGHT m a = root_of r"
    using tl tr by (auto dest: Tree_root_of)
  show ?case
  proof (cases "x \<in> set_tree l")
    case True
    show ?thesis
    proof (cases "root_of l = x")
      case True
      then show ?thesis using Node.prems root la \<open>x \<in> set_tree l\<close> by simp
    next
      case False
      then show ?thesis using Node.IH(1) [OF tl] Node.prems root la True by simp
    qed
  next
    case False
    then have xr: "x \<in> set_tree r" using Node.prems root by simp
    show ?thesis
    proof (cases "root_of r = x")
      case True
      then show ?thesis using Node.prems root ra False by simp
    next
      case nr: False
      then show ?thesis using Node.IH(2) [OF tr] Node.prems root ra False xr by simp
    qed
  qed
qed

lemma ret_inject [simp]: "ret x = ret y \<longleftrightarrow> x = y"
  by (simp add: ret_def)

lemma ret_not_fault [simp]: "ret x \<noteq> fault e" "fault e \<noteq> ret x"
  by (simp_all add: ret_def fault_def)

lemma mm_remove_le1_call:
  assumes T: "Tree m root t" "ordered m t" "distinct (inorder t)"
    and x: "x \<in> set_tree t" and s: "sub t x = Node l x r" "l = Leaf \<or> r = Leaf"
  shows "\<exists>m' q. mm_remove m root x = ret (m', q)"
proof -
  have tx: "Tree m x (Node l x r)" using Tree_sub [OF T(1) x] s by simp
  have par: "mm_parent m root x = ret (parent t x)" by (rule mm_parent_correct [OF T x])
  have ch: "mm_children m x = ret ((if l \<noteq> Leaf then 1 else 0) + (if r \<noteq> Leaf then 1 else 0))"
    by (rule mm_children_correct [OF tx])
  show ?thesis
  proof (cases "l = Leaf \<and> r = Leaf")
    case True
    then show ?thesis using ch par by (subst mm_remove.simps) (auto simp add: relink_eq)
  next
    case False
    then have "(if l \<noteq> Leaf then 1 else 0) + (if r \<noteq> Leaf then 1 else 0) = (1::int)"
      using s(2) by auto
    then show ?thesis using ch par by (subst mm_remove.simps) (auto simp add: relink_eq Let_def)
  qed
qed

lemma mm_remove_returns:
  assumes T: "Tree m root t" "ordered m t" and x: "x \<in> set_tree t"
  shows "\<exists>m' q. mm_remove m root x = ret (m', q)"
proof -
  have d: "distinct (inorder t)" by (rule ordered_distinct [OF T])
  obtain l r where s: "sub t x = Node l x r" using sub_root [OF x] by blast
  show ?thesis
  proof (cases "l = Leaf \<or> r = Leaf")
    case True
    then show ?thesis by (rule mm_remove_le1_call [OF T d x s])
  next
    case False
    then have l: "l \<noteq> Leaf" and r: "r \<noteq> Leaf" by auto
    have tx: "Tree m x (Node l x r)" using Tree_sub [OF T(1) x] s by simp
    then have tl: "Tree m (LEFT m x) l" by simp
    have ol: "ordered m l" using sub_ordered [OF T(2), of x] s by simp
    have dl: "distinct (inorder l)" using sub_distinct [OF d, of x] s by simp
    define p where "p = rightmost l"
    have pin: "p \<in> set_tree l" unfolding p_def using l by (rule rightmost_in)
    obtain pl where pl: "sub l p = Node pl p Leaf"
      unfolding p_def using rightmost_sub [OF l dl] by blast
    have pn: "p \<noteq> NULL" using tl pin by (rule Tree_nonnull)
    obtain m1 nb where m1: "mm_remove m (LEFT m x) p = ret (m1, nb)"
      using mm_remove_le1_call [OF tl ol dl pin pl] by blast
    have par: "mm_parent m root x = ret (parent t x)" by (rule mm_parent_correct [OF T d x])
    have ch: "mm_children m x = ret 2" using mm_children_correct [OF tx] l r by simp
    have rep: "mm_replace m (LEFT m x) = ret p"
      unfolding p_def by (rule mm_replace_correct [OF tl l])
    show ?thesis using ch par rep m1 pn
      by (subst mm_remove.simps) (auto simp add: relink_eq Let_def)
  qed
qed

text \<open>
  C10. When \<open>bp\<close> is a node of the tree rooted at \<open>root\<close> and the size ordering
  holds, \<^verbatim>\<open>mm_remove(root, bp)\<close> returns a value without applying a macro to the null
  pointer. The descent of \<^verbatim>\<open>mm_parent\<close> reaches \<open>bp\<close>: it returns null only when
  \<open>bp\<close> is the root, and otherwise a node one of whose links is \<open>bp\<close>.
  \<^verbatim>\<open>mm_children(bp)\<close> returns, and when \<open>bp\<close> has two children the left subtree is not
  empty, \<^verbatim>\<open>mm_replace\<close> returns a non-null node of it, and the recursive removal of
  that node from the left subtree returns.
\<close>

theorem mm_remove_safe:
  assumes "Tree m root t" "ordered m t" "bp \<in> set_tree t"
  shows "(\<exists>m' r. mm_remove m root bp = ret (m', r))
    \<and> (\<exists>p. mm_parent m root bp = ret p \<and> (p = NULL \<longleftrightarrow> bp = root)
          \<and> (p \<noteq> NULL \<longrightarrow> p \<in> set_tree t \<and> (LEFT m p = bp \<or> RIGHT m p = bp)))
    \<and> (\<exists>n. mm_children m bp = ret n
          \<and> (n = 2 \<longrightarrow> LEFT m bp \<noteq> NULL
                \<and> (\<exists>q. mm_replace m (LEFT m bp) = ret q \<and> q \<noteq> NULL
                      \<and> (\<exists>m1 nb. mm_remove m (LEFT m bp) q = ret (m1, nb)))))"
proof -
  have d: "distinct (inorder t)" by (rule ordered_distinct [OF assms(1,2)])
  obtain l r where s: "sub t bp = Node l bp r" using sub_root [OF assms(3)] by blast
  have tx: "Tree m bp (Node l bp r)" using Tree_sub [OF assms(1,3)] s by simp
  then have tl: "Tree m (LEFT m bp) l" by simp
  have one: "\<exists>m' r. mm_remove m root bp = ret (m', r)" by (rule mm_remove_returns [OF assms])
  have par: "mm_parent m root bp = ret (parent t bp)" by (rule mm_parent_correct [OF assms(1,2) d assms(3)])
  have pnull: "parent t bp = NULL \<longleftrightarrow> bp = root" by (rule parent_NULL_iff [OF assms(1) d assms(3)])
  have "parent t bp \<noteq> NULL \<longrightarrow> parent t bp \<in> set_tree t
      \<and> (LEFT m (parent t bp) = bp \<or> RIGHT m (parent t bp) = bp)"
  proof
    assume "parent t bp \<noteq> NULL"
    then have ne: "bp \<noteq> root" using pnull by simp
    then have "bp \<noteq> root_of t" using assms(1) Tree_root_of by blast
    then have "parent t bp \<in> set_tree t" using parent_in [OF assms(3) _ d] by simp
    then show "parent t bp \<in> set_tree t
      \<and> (LEFT m (parent t bp) = bp \<or> RIGHT m (parent t bp) = bp)"
      using parent_link [OF assms(1) d assms(3) ne] by simp
  qed
  then have two: "\<exists>p. mm_parent m root bp = ret p \<and> (p = NULL \<longleftrightarrow> bp = root)
          \<and> (p \<noteq> NULL \<longrightarrow> p \<in> set_tree t \<and> (LEFT m p = bp \<or> RIGHT m p = bp))"
    using par pnull by blast
  let ?n = "(if l \<noteq> Leaf then 1 else 0) + (if r \<noteq> Leaf then 1 else 0) :: int"
  have ch: "mm_children m bp = ret ?n" by (rule mm_children_correct [OF tx])
  have "?n = 2 \<longrightarrow> LEFT m bp \<noteq> NULL
                \<and> (\<exists>q. mm_replace m (LEFT m bp) = ret q \<and> q \<noteq> NULL
                      \<and> (\<exists>m1 nb. mm_remove m (LEFT m bp) q = ret (m1, nb)))"
  proof
    assume "?n = 2"
    then have l: "l \<noteq> Leaf" by (auto split: if_splits)
    then have "LEFT m bp \<noteq> NULL" using tl by auto
    moreover have "mm_replace m (LEFT m bp) = ret (rightmost l)" by (rule mm_replace_correct [OF tl l])
    moreover have pin: "rightmost l \<in> set_tree l" using l by (rule rightmost_in)
    then have "rightmost l \<noteq> NULL" using tl Tree_nonnull by blast
    moreover have "ordered m l" using sub_ordered [OF assms(2), of bp] s by simp
    then have "\<exists>m1 nb. mm_remove m (LEFT m bp) (rightmost l) = ret (m1, nb)"
      using mm_remove_returns [OF tl _ pin] by simp
    ultimately show "LEFT m bp \<noteq> NULL
                \<and> (\<exists>q. mm_replace m (LEFT m bp) = ret q \<and> q \<noteq> NULL
                      \<and> (\<exists>m1 nb. mm_remove m (LEFT m bp) q = ret (m1, nb)))" by blast
  qed
  then have three: "\<exists>n. mm_children m bp = ret n
          \<and> (n = 2 \<longrightarrow> LEFT m bp \<noteq> NULL
                \<and> (\<exists>q. mm_replace m (LEFT m bp) = ret q \<and> q \<noteq> NULL
                      \<and> (\<exists>m1 nb. mm_remove m (LEFT m bp) q = ret (m1, nb))))"
    using ch by blast
  show ?thesis using one two three by blast
qed

theorem mm_remove_safe_witness:
  "Tree (PUT (PUT (PUT (PUT (PUT (\<lambda>_. 0) 12 32) 44 16) 76 48) 16 48) 20 80) 16
     (Node (Node Leaf 48 Leaf) 16 (Node Leaf 80 Leaf))
   \<and> ordered (PUT (PUT (PUT (PUT (PUT (\<lambda>_. 0) 12 32) 44 16) 76 48) 16 48) 20 80)
     (Node (Node Leaf 48 Leaf) 16 (Node Leaf 80 Leaf))
   \<and> (16 :: ptr) \<in> set_tree (Node (Node Leaf 48 Leaf) 16 (Node Leaf 80 Leaf))
   \<and> (\<exists>m' r. mm_remove (PUT (PUT (PUT (PUT (PUT (\<lambda>_. 0) 12 32) 44 16) 76 48) 16 48) 20 80) 16 16
          = ret (m', r))"
proof -
  let ?m = "PUT (PUT (PUT (PUT (PUT (\<lambda>_. 0) 12 32) 44 16) 76 48) 16 48) 20 80"
  let ?t = "Node (Node Leaf 48 Leaf) 16 (Node Leaf (80 :: ptr) Leaf)"
  have g: "GET ?m 12 = 32" "GET ?m 44 = 16" "GET ?m 76 = 48" "GET ?m 16 = 48" "GET ?m 20 = 80"
    "GET ?m 48 = 0" "GET ?m 52 = 0" "GET ?m 80 = 0" "GET ?m 84 = 0"
    by (simp_all add: GET_def PUT_def)
  have k: "key ?m 16 = 32" "key ?m 48 = 16" "key ?m 80 = 48"
    using g by (simp_all add: key_def GETSIZE_def WSIZE_def)
  have t: "Tree ?m 16 ?t" using g by (simp add: LEFT_def RIGHT_def WSIZE_def)
  have o: "ordered ?m ?t" using k by simp
  have i: "(16 :: ptr) \<in> set_tree ?t" by simp
  have "\<exists>m' r. mm_remove ?m 16 16 = ret (m', r)"
    using mm_remove_safe [OF t o i] by blast
  then show ?thesis using t o i by blast
qed

subsection \<open>Sequences of insertions and removals\<close>

datatype tree_op = Insert ptr | Remove ptr

fun run_ops :: "tree_op list \<Rightarrow> mem \<Rightarrow> ptr \<Rightarrow> (mem \<times> ptr) res" where
  "run_ops [] m root = ret (m, root)"
| "run_ops (Insert bp # ops) m root = bnd (mm_insert m root bp) (\<lambda>(m', r). run_ops ops m' r)"
| "run_ops (Remove bp # ops) m root = bnd (mm_remove m root bp) (\<lambda>(m', r). run_ops ops m' r)"

text \<open>
  A sequence is legal from the set \<open>S\<close> of indexed blocks when every inserted block is
  not yet indexed and lies apart from the indexed ones (blocks do not overlap), and
  every removed block is indexed.
\<close>

fun legal :: "ptr set \<Rightarrow> tree_op list \<Rightarrow> bool" where
  "legal S [] = True"
| "legal S (Insert bp # ops) = (bp \<notin> S \<and> sep (insert bp S) \<and> legal (insert bp S) ops)"
| "legal S (Remove bp # ops) = (bp \<in> S \<and> legal (S - {bp}) ops)"

fun nodes_after :: "ptr set \<Rightarrow> tree_op list \<Rightarrow> ptr set" where
  "nodes_after S [] = S"
| "nodes_after S (Insert bp # ops) = nodes_after (insert bp S) ops"
| "nodes_after S (Remove bp # ops) = nodes_after (S - {bp}) ops"

lemma run_ops_inv:
  assumes "Tree m root t" "ordered m t" "sep (set_tree t)" "legal (set_tree t) ops"
  shows "\<exists>m' r t'. run_ops ops m root = ret (m', r) \<and> Tree m' r t' \<and> ordered m' t'
           \<and> set_tree t' = nodes_after (set_tree t) ops"
  using assms
proof (induction ops arbitrary: m root t)
  case Nil
  then show ?case by auto
next
  case (Cons op ops)
  have d: "distinct (inorder t)" by (rule ordered_distinct [OF Cons.prems(1,2)])
  show ?case
  proof (cases op)
    case (Insert bp)
    with Cons.prems have bp: "bp \<notin> set_tree t" and sp: "sep (insert bp (set_tree t))"
      and lg: "legal (insert bp (set_tree t)) ops" by auto
    let ?r = "if root = NULL then bp else root"
    obtain m1 where m1: "mm_insert m root bp = ret (m1, ?r)"
      and t1: "Tree m1 ?r (ins m bp t)"
      and f1: "frame (lcells (insert bp (set_tree t))) m m1"
      using mm_insert_correct [OF Cons.prems(1) sp bp d] by blast
    have "ordered m (ins m bp t)" using Cons.prems(2) by (rule ordered_ins)
    moreover have "key m1 a = key m a" if "a \<in> set_tree (ins m bp t)" for a
      by (rule frame_key [OF f1]) (use that sp in \<open>simp add: insert_absorb\<close>)
    ultimately have o1: "ordered m1 (ins m bp t)" using ordered_cong by blast
    have "\<exists>m' r t'. run_ops ops m1 ?r = ret (m', r) \<and> Tree m' r t' \<and> ordered m' t'
           \<and> set_tree t' = nodes_after (set_tree (ins m bp t)) ops"
      by (rule Cons.IH [OF t1 o1]) (use sp lg in simp_all)
    then show ?thesis using Insert m1 by simp
  next
    case (Remove bp)
    with Cons.prems have bp: "bp \<in> set_tree t" and lg: "legal (set_tree t - {bp}) ops" by auto
    obtain m1 where m1: "mm_remove m root bp = ret (m1, root_of (del t bp))"
      and t1: "Tree m1 (root_of (del t bp)) (del t bp)"
      and f1: "frame (lcells (set_tree t - {bp})) m m1"
      using mm_remove_correct [OF Cons.prems(1,2) d Cons.prems(3) bp] by blast
    have sd: "set_tree (del t bp) = set_tree t - {bp}" by (rule set_del [OF bp d])
    have sp: "sep (set_tree t - {bp})" by (rule sep_mono [OF Cons.prems(3)]) auto
    have "ordered m (del t bp)" by (rule ordered_del [OF bp d Cons.prems(2)])
    moreover have "key m1 a = key m a" if "a \<in> set_tree (del t bp)" for a
      by (rule frame_key [OF f1]) (use that sd sp in \<open>simp add: insert_absorb\<close>)
    ultimately have o1: "ordered m1 (del t bp)" using ordered_cong by blast
    have "\<exists>m' r t'. run_ops ops m1 (root_of (del t bp)) = ret (m', r) \<and> Tree m' r t' \<and> ordered m' t'
           \<and> set_tree t' = nodes_after (set_tree (del t bp)) ops"
      by (rule Cons.IH [OF t1 o1]) (use sd sp lg in simp_all)
    then show ?thesis using Remove m1 sd by simp
  qed
qed

text \<open>
  C4. Starting from the empty (null) tree, every legal sequence of \<^verbatim>\<open>mm_insert\<close> and
  \<^verbatim>\<open>mm_remove\<close> calls returns and leaves in memory a tree that satisfies the ordering:
  at every node, the nodes reached through the left link have a size at most the
  node's (equal sizes go left) and the nodes reached through the right link a greater
  size. The tree holds exactly the blocks inserted and not removed.
\<close>

theorem index_ordering_preserved:
  assumes "legal {} ops"
  shows "\<exists>m' r t. run_ops ops m NULL = ret (m', r) \<and> Tree m' r t \<and> ordered m' t
           \<and> set_tree t = nodes_after {} ops"
  using run_ops_inv [of m NULL Leaf ops] assms by (simp add: sep_def)

theorem index_ordering_preserved_witness:
  "legal {} [Insert 16, Insert 48, Insert 80, Remove 16]
   \<and> (\<exists>m' r t. run_ops [Insert 16, Insert 48, Insert 80, Remove 16] (\<lambda>_. 0) NULL = ret (m', r)
         \<and> Tree m' r t \<and> ordered m' t \<and> set_tree t = {48, 80})"
proof -
  have l: "legal {} [Insert 16, Insert 48, Insert 80, Remove 16]"
    by (simp add: sep_def node_ok_def far_def)
  have "nodes_after {} [Insert 16, Insert 48, Insert 80, Remove 16] = {48, 80}"
    by auto
  then show ?thesis using index_ordering_preserved [OF l, of "\<lambda>_. 0"] l by simp
qed

section \<open>The heap as a sequence of blocks\<close>

definition W :: "mem \<Rightarrow> nat \<Rightarrow> 32 word" where
  "W m a = GET m (of_nat a)"

definition tag :: "nat \<times> bool \<Rightarrow> 32 word" where
  "tag b = PACK (of_nat (fst b)) (if snd b then 1 else 0)"

lemma unat_of_nat32: "x < 2 ^ 32 \<Longrightarrow> unat (of_nat x :: 32 word) = x"
  by (simp add: unat_of_nat)

lemma seven_mask: "(7 :: 32 word) = mask 3"
  by (simp add: mask_eq_exp_minus_1)

lemma of_nat_and7: "8 dvd n \<Longrightarrow> (of_nat n :: 32 word) AND 7 = 0"
proof -
  assume "8 dvd n"
  then obtain k where "n = 8 * k" by (auto simp: dvd_def)
  then have "(of_nat n :: 32 word) = push_bit 3 (of_nat k)"
    by (simp add: push_bit_eq_mult)
  then show ?thesis
    unfolding seven_mask by (simp add: bit_eq_iff bit_simps)
qed

lemma low_bits_0: "x AND 7 = 0 \<Longrightarrow> n < 3 \<Longrightarrow> \<not> bit (x :: 32 word) n"
proof
  assume a: "x AND 7 = 0" "n < 3" "bit x n"
  then have "bit (x AND mask 3) n" by (simp add: bit_simps)
  then show False using a(1) by (simp add: seven_mask)
qed

lemma and_not7_1: "x AND 7 = 0 \<Longrightarrow> (x OR 1) AND NOT 7 = (x :: 32 word)"
  apply (rule bit_word_eqI)
  subgoal for n
    using low_bits_0 [of x n]
    by (cases "n < 3") (auto simp add: bit_simps seven_mask)
  done

lemma and_not7_0: "x AND 7 = 0 \<Longrightarrow> x AND NOT 7 = (x :: 32 word)"
  apply (rule bit_word_eqI)
  subgoal for n
    using low_bits_0 [of x n]
    by (cases "n < 3") (auto simp add: bit_simps seven_mask)
  done

lemma and_1_1: "x AND 7 = 0 \<Longrightarrow> (x OR 1) AND 1 = (1 :: 32 word)"
  apply (rule bit_word_eqI)
  subgoal for n
    using low_bits_0 [of x n]
    by (cases "n < 3") (auto simp add: bit_simps)
  done

lemma and_1_0: "x AND 7 = 0 \<Longrightarrow> x AND 1 = (0 :: 32 word)"
  apply (rule bit_word_eqI)
  subgoal for n
    using low_bits_0 [of x n]
    by (cases "n < 3") (auto simp add: bit_simps)
  done

lemma tag_size: "8 dvd fst b \<Longrightarrow> tag b AND NOT 7 = of_nat (fst b)"
  using and_not7_1 [OF of_nat_and7, of "fst b"] and_not7_0 [OF of_nat_and7, of "fst b"]
  by (simp add: tag_def PACK_def)

lemma tag_alloc: "8 dvd fst b \<Longrightarrow> tag b AND 1 = (if snd b then 1 else 0)"
  using and_1_1 [OF of_nat_and7, of "fst b"] and_1_0 [OF of_nat_and7, of "fst b"]
  by (simp add: tag_def PACK_def)

lemma cdisj_of_nat:
  "a + 4 \<le> b \<or> b + 4 \<le> a \<Longrightarrow> a + 4 \<le> 2 ^ 32 \<Longrightarrow> b + 4 \<le> 2 ^ 32 \<Longrightarrow> cdisj (of_nat a) (of_nat b)"
  by (rule cdisj_nat) (simp_all add: unat_of_nat32)

lemma W_PUT_same [simp]: "W (PUT m (of_nat a) v) a = v"
  by (simp add: W_def)

lemma W_PUT_other:
  "a + 4 \<le> b \<or> b + 4 \<le> a \<Longrightarrow> a + 4 \<le> 2 ^ 32 \<Longrightarrow> b + 4 \<le> 2 ^ 32 \<Longrightarrow> W (PUT m (of_nat a) v) b = W m b"
  by (simp add: W_def GET_PUT_disj cdisj_of_nat)

lemma of_nat_sub4: "4 \<le> x \<Longrightarrow> (of_nat x :: 32 word) - 4 = of_nat (x - 4)"
  by (simp add: of_nat_diff)

subsection \<open>The index over block addresses\<close>

definition wsep :: "nat set \<Rightarrow> bool" where
  "wsep Y \<longleftrightarrow> (\<forall>y\<in>Y. 4 \<le> y \<and> y + 8 \<le> 2 ^ 32)
     \<and> (\<forall>y\<in>Y. \<forall>z\<in>Y. y \<noteq> z \<longrightarrow> y + 12 \<le> z \<or> z + 12 \<le> y)"

definition tree_ok :: "mem \<Rightarrow> ptr \<Rightarrow> nat set \<Rightarrow> bool" where
  "tree_ok m root Y \<longleftrightarrow> (\<exists>t. Tree m root t \<and> ordered m t \<and> set_tree t = of_nat ` Y)"

lemma wsepD1: "wsep Y \<Longrightarrow> y \<in> Y \<Longrightarrow> 4 \<le> y \<and> y + 8 \<le> 2 ^ 32"
  unfolding wsep_def by (elim conjE) (drule (1) bspec, assumption)

lemma wsepD2: "wsep Y \<Longrightarrow> y \<in> Y \<Longrightarrow> z \<in> Y \<Longrightarrow> y \<noteq> z \<Longrightarrow> y + 12 \<le> z \<or> z + 12 \<le> y"
  unfolding wsep_def by (elim conjE) (drule (1) bspec, drule (1) bspec, simp)

lemma wsepI:
  assumes "\<And>y. y \<in> Y \<Longrightarrow> 4 \<le> y \<and> y + 8 \<le> 2 ^ 32"
    and "\<And>y z. y \<in> Y \<Longrightarrow> z \<in> Y \<Longrightarrow> y \<noteq> z \<Longrightarrow> y + 12 \<le> z \<or> z + 12 \<le> y"
  shows "wsep Y"
  unfolding wsep_def
proof (intro conjI ballI impI)
  fix y assume "y \<in> Y"
  then show "4 \<le> y" "y + 8 \<le> 2 ^ 32" using assms(1) [of y] by simp_all
next
  fix y z assume "y \<in> Y" "z \<in> Y" "y \<noteq> z"
  then show "y + 12 \<le> z \<or> z + 12 \<le> y" by (rule assms(2))
qed

lemma wsep_mono:
  assumes "wsep Y" "Z \<subseteq> Y"
  shows "wsep Z"
proof (rule wsepI)
  fix y assume "y \<in> Z"
  then have "y \<in> Y" using assms(2) by auto
  then show "4 \<le> y \<and> y + 8 \<le> 2 ^ 32" by (rule wsepD1 [OF assms(1)])
next
  fix y z assume "y \<in> Z" "z \<in> Z" "y \<noteq> z"
  then have "y \<in> Y" "z \<in> Y" using assms(2) by auto
  then show "y + 12 \<le> z \<or> z + 12 \<le> y" using \<open>y \<noteq> z\<close> by (rule wsepD2 [OF assms(1)])
qed

lemma wsep_unat: "wsep Y \<Longrightarrow> y \<in> Y \<Longrightarrow> unat (of_nat y :: ptr) = y"
proof -
  assume a: "wsep Y" "y \<in> Y"
  have "y < 2 ^ 32" using wsepD1 [OF a] by simp
  then show ?thesis by (rule unat_of_nat32)
qed

lemma wsep_inj: "wsep Y \<Longrightarrow> inj_on (of_nat :: nat \<Rightarrow> ptr) Y"
proof (rule inj_onI)
  fix y z assume w: "wsep Y" and y: "y \<in> Y" and z: "z \<in> Y" and e: "(of_nat y :: ptr) = of_nat z"
  have "unat (of_nat y :: ptr) = unat (of_nat z :: ptr)" using e by (rule arg_cong)
  then show "y = z" by (simp only: wsep_unat [OF w y] wsep_unat [OF w z])
qed

lemma wsep_sep:
  assumes "wsep Y"
  shows "sep (of_nat ` Y)"
  unfolding sep_def
proof (intro conjI ballI impI)
  fix a :: ptr assume "a \<in> of_nat ` Y"
  then obtain y where y: "y \<in> Y" "a = of_nat y" by auto
  then have "unat a = y" using wsep_unat [OF assms y(1)] by simp
  then show "node_ok a" using wsepD1 [OF assms y(1)] by (simp add: node_ok_def)
next
  fix a b :: ptr assume "a \<in> of_nat ` Y" "b \<in> of_nat ` Y" "a \<noteq> b"
  then obtain y z where y: "y \<in> Y" "a = of_nat y" and z: "z \<in> Y" "b = of_nat z" and ne: "y \<noteq> z"
    by auto
  then have "unat a = y" "unat b = z"
    using wsep_unat [OF assms y(1)] wsep_unat [OF assms z(1)] by simp_all
  moreover have "y + 12 \<le> z \<or> z + 12 \<le> y" using wsepD2 [OF assms y(1) z(1) ne] .
  ultimately show "far a b" by (simp add: far_def)
qed

lemma tree_ok_empty [simp]: "tree_ok m NULL {}"
  unfolding tree_ok_def by (rule exI [of _ Leaf]) simp

lemma tree_ok_insert:
  assumes "tree_ok m root Y" "y \<notin> Y" "wsep (insert y Y)"
  shows "\<exists>m' r. mm_insert m root (of_nat y) = ret (m', r) \<and> tree_ok m' r (insert y Y)
           \<and> frame (lcells (of_nat ` insert y Y)) m m' \<and> r = (if root = NULL then of_nat y else root)"
proof -
  obtain t where t: "Tree m root t" "ordered m t" "set_tree t = of_nat ` Y"
    using assms(1) by (auto simp add: tree_ok_def)
  let ?bp = "of_nat y :: ptr"
  have d: "distinct (inorder t)" by (rule ordered_distinct [OF t(1,2)])
  have inj: "inj_on (of_nat :: nat \<Rightarrow> ptr) (insert y Y)" by (rule wsep_inj [OF assms(3)])
  have bp: "?bp \<notin> set_tree t" using inj assms(2) t(3) by (auto simp add: inj_on_def)
  have sp: "sep (insert ?bp (set_tree t))" using wsep_sep [OF assms(3)] t(3) by simp
  let ?r = "if root = NULL then ?bp else root"
  obtain m1 where m1: "mm_insert m root ?bp = ret (m1, ?r)"
    and t1: "Tree m1 ?r (ins m ?bp t)"
    and f1: "frame (lcells (insert ?bp (set_tree t))) m m1"
    using mm_insert_correct [OF t(1) sp bp d] by blast
  have "ordered m (ins m ?bp t)" using t(2) by (rule ordered_ins)
  moreover have "key m1 a = key m a" if "a \<in> set_tree (ins m ?bp t)" for a
    by (rule frame_key [OF f1]) (use that sp in \<open>simp add: insert_absorb\<close>)
  ultimately have o1: "ordered m1 (ins m ?bp t)" using ordered_cong by blast
  have "tree_ok m1 ?r (insert y Y)"
    unfolding tree_ok_def using t1 o1 t(3) by (intro exI [of _ "ins m ?bp t"]) simp
  then show ?thesis using m1 f1 t(3) by auto
qed

lemma tree_ok_remove:
  assumes "tree_ok m root Y" "y \<in> Y" "wsep Y"
  shows "\<exists>m' r. mm_remove m root (of_nat y) = ret (m', r) \<and> tree_ok m' r (Y - {y})
           \<and> frame (lcells (of_nat ` (Y - {y}))) m m'"
proof -
  obtain t where t: "Tree m root t" "ordered m t" "set_tree t = of_nat ` Y"
    using assms(1) by (auto simp add: tree_ok_def)
  let ?bp = "of_nat y :: ptr"
  have d: "distinct (inorder t)" by (rule ordered_distinct [OF t(1,2)])
  have inj: "inj_on (of_nat :: nat \<Rightarrow> ptr) Y" by (rule wsep_inj [OF assms(3)])
  have bp: "?bp \<in> set_tree t" using assms(2) t(3) by simp
  have sp: "sep (set_tree t)" using wsep_sep [OF assms(3)] t(3) by simp
  have im: "of_nat ` (Y - {y}) = set_tree t - {?bp}"
    using inj assms(2) t(3) by (auto simp add: inj_on_def)
  obtain m1 where m1: "mm_remove m root ?bp = ret (m1, root_of (del t ?bp))"
    and t1: "Tree m1 (root_of (del t ?bp)) (del t ?bp)"
    and f1: "frame (lcells (set_tree t - {?bp})) m m1"
    using mm_remove_correct [OF t(1,2) d sp bp] by blast
  have sd: "set_tree (del t ?bp) = set_tree t - {?bp}" by (rule set_del [OF bp d])
  have sp1: "sep (set_tree t - {?bp})" by (rule sep_mono [OF sp]) auto
  have "ordered m (del t ?bp)" by (rule ordered_del [OF bp d t(2)])
  moreover have "key m1 a = key m a" if "a \<in> set_tree (del t ?bp)" for a
    by (rule frame_key [OF f1]) (use that sd sp1 in \<open>simp add: insert_absorb\<close>)
  ultimately have o1: "ordered m1 (del t ?bp)" using ordered_cong by blast
  have "tree_ok m1 (root_of (del t ?bp)) (Y - {y})"
    unfolding tree_ok_def using t1 o1 sd im by (intro exI [of _ "del t ?bp"]) simp
  then show ?thesis using m1 f1 im by auto
qed

lemma tree_ok_fitter:
  assumes "tree_ok m root Y"
  shows "\<exists>r. mm_fitter m root sz = ret r
           \<and> (r = NULL \<longleftrightarrow> (\<forall>y\<in>Y. key m (of_nat y) < sint sz))
           \<and> (r \<noteq> NULL \<longrightarrow> (\<exists>y\<in>Y. r = of_nat y \<and> sint sz \<le> key m (of_nat y)))"
proof -
  obtain t where t: "Tree m root t" "ordered m t" "set_tree t = of_nat ` Y"
    using assms(1) by (auto simp add: tree_ok_def)
  obtain r where r: "mm_fitter m root sz = ret r"
    "r = NULL \<longleftrightarrow> (\<forall>a\<in>set_tree t. key m a < sint sz)"
    "r \<noteq> NULL \<longrightarrow> r \<in> set_tree t \<and> sint sz \<le> key m r"
    using mm_fitter_correct [OF t(1,2)] by blast
  show ?thesis using r t(3) by auto
qed

lemma tree_ok_cong:
  assumes "tree_ok m root Y"
    and "\<And>y. y \<in> Y \<Longrightarrow> GET m' (of_nat y) = GET m (of_nat y) \<and> GET m' (of_nat y + 4) = GET m (of_nat y + 4)
            \<and> GET m' (of_nat y - 4) = GET m (of_nat y - 4)"
  shows "tree_ok m' root Y"
proof -
  obtain t where t: "Tree m root t" "ordered m t" "set_tree t = of_nat ` Y"
    using assms(1) by (auto simp add: tree_ok_def)
  have "Tree m' root t"
    by (rule Tree_cong [OF t(1)]) (use t(3) assms(2) in \<open>auto simp add: LEFT_def RIGHT_def WSIZE_def\<close>)
  moreover have "ordered m' t"
  proof -
    have "key m' a = key m a" if "a \<in> set_tree t" for a
      by (rule key_cong) (use that t(3) assms(2) in auto)
    then show ?thesis using t(2) ordered_cong by blast
  qed
  ultimately show ?thesis using t(3) by (auto simp add: tree_ok_def)
qed

lemma of_nat_add4: "(of_nat y :: ptr) + 4 = of_nat (y + 4)"
  by simp

lemma tree_ok_PUT:
  assumes "tree_ok m root Y" "\<forall>y\<in>Y. 4 \<le> y \<and> y + 8 \<le> 2 ^ 32 \<and> (c + 8 \<le> y \<or> y + 8 \<le> c)" "c + 4 \<le> 2 ^ 32"
  shows "tree_ok (PUT m (of_nat c) v) root Y"
proof (rule tree_ok_cong [OF assms(1)])
  fix y assume "y \<in> Y"
  then have y: "4 \<le> y" "y + 8 \<le> 2 ^ 32" "c + 8 \<le> y \<or> y + 8 \<le> c" using assms(2) by auto
  have "W (PUT m (of_nat c) v) y = W m y" "W (PUT m (of_nat c) v) (y + 4) = W m (y + 4)"
    "W (PUT m (of_nat c) v) (y - 4) = W m (y - 4)"
    using y assms(3) by (auto intro!: W_PUT_other)
  then show "GET (PUT m (of_nat c) v) (of_nat y) = GET m (of_nat y)
      \<and> GET (PUT m (of_nat c) v) (of_nat y + 4) = GET m (of_nat y + 4)
      \<and> GET (PUT m (of_nat c) v) (of_nat y - 4) = GET m (of_nat y - 4)"
    using y by (simp add: W_def of_nat_diff)
qed

subsection \<open>Blocks and block sequences\<close>

definition blk :: "mem \<Rightarrow> nat \<Rightarrow> nat \<times> bool \<Rightarrow> bool" where
  "blk m x b \<longleftrightarrow> 8 \<le> fst b \<and> 8 dvd fst b \<and> (\<not> snd b \<longrightarrow> 16 \<le> fst b)
     \<and> W m (x - 4) = tag b \<and> W m (x + fst b - 8) = tag b"

fun cseg :: "mem \<Rightarrow> nat \<Rightarrow> (nat \<times> bool) list \<Rightarrow> nat \<Rightarrow> bool" where
  "cseg m x [] e = (x = e)"
| "cseg m x (b # bs) e = (blk m x b \<and> cseg m (x + fst b) bs e)"

definition tot :: "(nat \<times> bool) list \<Rightarrow> nat" where
  "tot bs = sum_list (map fst bs)"

fun frees :: "nat \<Rightarrow> (nat \<times> bool) list \<Rightarrow> nat list" where
  "frees x [] = []"
| "frees x (b # bs) = (if snd b then [] else [x]) @ frees (x + fst b) bs"

fun noadj :: "(nat \<times> bool) list \<Rightarrow> bool" where
  "noadj [] = True"
| "noadj [b] = True"
| "noadj (b # c # bs) = ((snd b \<or> snd c) \<and> noadj (c # bs))"

lemma tot_simps [simp]: "tot [] = 0" "tot (b # bs) = fst b + tot bs"
  "tot (as @ bs) = tot as + tot bs"
  by (simp_all add: tot_def)

lemma cseg_end: "cseg m x bs e \<Longrightarrow> e = x + tot bs"
proof (induction bs arbitrary: x)
  case Nil
  then show ?case by simp
next
  case (Cons b bs)
  then have "e = (x + fst b) + tot bs" by simp
  then show ?case by simp
qed

lemma cseg_append:
  "cseg m x (as @ bs) e \<longleftrightarrow> cseg m x as (x + tot as) \<and> cseg m (x + tot as) bs e"
  by (induction as arbitrary: x) (auto simp add: add.assoc)

lemma frees_append: "frees x (as @ bs) = frees x as @ frees (x + tot as) bs"
  by (induction as arbitrary: x) (auto simp add: add.assoc)

lemma frees_bounds:
  "cseg m x bs e \<Longrightarrow> y \<in> set (frees x bs) \<Longrightarrow> x \<le> y \<and> y + 16 \<le> e"
proof (induction bs arbitrary: x)
  case Nil
  then show ?case by simp
next
  case (Cons b bs)
  then have c: "cseg m (x + fst b) bs e" and b: "blk m x b" by auto
  have e: "e = x + fst b + tot bs" using cseg_end [OF c] .
  show ?case
  proof (cases "y \<in> set (frees (x + fst b) bs)")
    case True
    then show ?thesis using Cons.IH [OF c] by auto
  next
    case False
    then have "y = x" "\<not> snd b" using Cons.prems(2) by (auto split: if_splits)
    then show ?thesis using b e by (auto simp add: blk_def)
  qed
qed

lemma frees_blk:
  "cseg m x bs e \<Longrightarrow> y \<in> set (frees x bs) \<Longrightarrow> \<exists>sz. 16 \<le> sz \<and> blk m y (sz, False) \<and> y + sz \<le> e
     \<and> (sz, False) \<in> set bs"
proof (induction bs arbitrary: x)
  case Nil
  then show ?case by simp
next
  case (Cons b bs)
  then have c: "cseg m (x + fst b) bs e" and b: "blk m x b" by auto
  have e: "e = x + fst b + tot bs" using cseg_end [OF c] .
  show ?case
  proof (cases "y \<in> set (frees (x + fst b) bs)")
    case True
    then show ?thesis using Cons.IH [OF c] by auto
  next
    case False
    then have "y = x" "\<not> snd b" using Cons.prems(2) by (auto split: if_splits)
    then have "16 \<le> fst b \<and> blk m y (fst b, False) \<and> y + fst b \<le> e \<and> (fst b, False) \<in> set (b # bs)"
      using b e by (cases b) (auto simp add: blk_def)
    then show ?thesis by blast
  qed
qed

lemma frees_distinct: "cseg m x bs e \<Longrightarrow> distinct (frees x bs)"
proof (induction bs arbitrary: x)
  case Nil
  then show ?case by simp
next
  case (Cons b bs)
  then have c: "cseg m (x + fst b) bs e" and b: "blk m x b" by auto
  have "x \<notin> set (frees (x + fst b) bs)"
    using frees_bounds [OF c, of x] b by (auto simp add: blk_def)
  then show ?case using Cons.IH [OF c] by simp
qed

lemma frees_far:
  "cseg m x bs e \<Longrightarrow> y \<in> set (frees x bs) \<Longrightarrow> z \<in> set (frees x bs) \<Longrightarrow> y \<noteq> z
   \<Longrightarrow> y + 16 \<le> z \<or> z + 16 \<le> y"
proof (induction bs arbitrary: x)
  case Nil
  then show ?case by simp
next
  case (Cons b bs)
  then have c: "cseg m (x + fst b) bs e" and b: "blk m x b" by auto
  have sz: "\<not> snd b \<longrightarrow> 16 \<le> fst b" using b by (simp add: blk_def)
  have lo: "\<And>w. w \<in> set (frees (x + fst b) bs) \<Longrightarrow> x + fst b \<le> w"
    using frees_bounds [OF c] by auto
  show ?case
  proof (cases "y \<in> set (frees (x + fst b) bs)")
    case yt: True
    show ?thesis
    proof (cases "z \<in> set (frees (x + fst b) bs)")
      case True
      then show ?thesis using Cons.IH [OF c yt] Cons.prems(4) by simp
    next
      case False
      then have "z = x" "\<not> snd b" using Cons.prems(3) by (auto split: if_splits)
      then show ?thesis using lo [of y] yt sz by auto
    qed
  next
    case False
    then have y: "y = x" "\<not> snd b" using Cons.prems(2) by (auto split: if_splits)
    then have "z \<in> set (frees (x + fst b) bs)" using Cons.prems(3,4) by (auto split: if_splits)
    then show ?thesis using lo [of z] y sz by auto
  qed
qed

lemma frees_wsep:
  assumes "cseg m x bs e" "4 \<le> x" "e \<le> 2 ^ 32"
  shows "wsep (set (frees x bs))"
proof (rule wsepI)
  fix y assume "y \<in> set (frees x bs)"
  then have "x \<le> y \<and> y + 16 \<le> e" by (rule frees_bounds [OF assms(1)])
  then show "4 \<le> y \<and> y + 8 \<le> 2 ^ 32" using assms(2,3) by simp
next
  fix y z assume "y \<in> set (frees x bs)" "z \<in> set (frees x bs)" "y \<noteq> z"
  then have "y + 16 \<le> z \<or> z + 16 \<le> y" by (rule frees_far [OF assms(1)])
  then show "y + 12 \<le> z \<or> z + 12 \<le> y" by auto
qed


subsection \<open>Reading the tags of a block\<close>

lemma blk_size: "blk m x b \<Longrightarrow> 8 \<le> fst b \<and> 8 dvd fst b"
  by (simp add: blk_def)

lemma blk_hdr:
  assumes "blk m x b" "4 \<le> x"
  shows "GET m (of_nat x - 4) = tag b"
  using assms by (simp add: blk_def W_def of_nat_diff)

lemma GET_SIZE_tag: "GET m p = tag b \<Longrightarrow> 8 dvd fst b \<Longrightarrow> GET_SIZE m p = of_nat (fst b)"
  unfolding GET_SIZE_def by (simp only: tag_size)

lemma GET_ALLOC_tag: "GET m p = tag b \<Longrightarrow> 8 dvd fst b \<Longrightarrow> GET_ALLOC m p = (if snd b then 1 else 0)"
  unfolding GET_ALLOC_def by (simp only: tag_alloc)

lemma GETSIZE_tag: "GET m (p - 4) = tag b \<Longrightarrow> 8 dvd fst b \<Longrightarrow> GETSIZE m p = of_nat (fst b)"
  unfolding GETSIZE_def WSIZE_def by (simp only: tag_size)

lemma blk_GET_SIZE:
  assumes "blk m x b" "4 \<le> x"
  shows "GET_SIZE m (HDRP (of_nat x)) = of_nat (fst b)"
  unfolding HDRP_def WSIZE_def
  by (rule GET_SIZE_tag [OF blk_hdr [OF assms]]) (use assms(1) in \<open>simp add: blk_def\<close>)

lemma blk_GET_ALLOC:
  assumes "blk m x b" "4 \<le> x"
  shows "GET_ALLOC m (HDRP (of_nat x)) = (if snd b then 1 else 0)"
  unfolding HDRP_def WSIZE_def
  by (rule GET_ALLOC_tag [OF blk_hdr [OF assms]]) (use assms(1) in \<open>simp add: blk_def\<close>)

lemma blk_GETSIZE:
  assumes "blk m x b" "4 \<le> x"
  shows "GETSIZE m (of_nat x) = of_nat (fst b)"
  by (rule GETSIZE_tag [OF blk_hdr [OF assms]]) (use assms(1) in \<open>simp add: blk_def\<close>)

lemma blk_FTRP:
  assumes "blk m x b" "4 \<le> x"
  shows "FTRP m (of_nat x) = of_nat (x + fst b - 8)"
proof -
  have "8 \<le> x + fst b" using assms by (simp add: blk_def)
  then show ?thesis using blk_GET_SIZE [OF assms] by (simp add: FTRP_def DSIZE_def of_nat_diff)
qed

lemma blk_NEXT:
  assumes "blk m x b" "4 \<le> x"
  shows "NEXT_BLKP m (of_nat x) = of_nat (x + fst b)"
  using blk_GET_SIZE [OF assms] by (simp add: NEXT_BLKP_def HDRP_def)

lemma blk_ftr:
  assumes "blk m x b"
  shows "GET m (of_nat (x + fst b) - 8) = tag b"
proof -
  have "8 \<le> x + fst b" using assms by (simp add: blk_def)
  then show ?thesis using assms by (simp add: blk_def W_def of_nat_diff)
qed

lemma blk_PREV:
  assumes "blk m xp b"
  shows "PREV_BLKP m (of_nat (xp + fst b)) = of_nat xp"
proof -
  have "GET_SIZE m (of_nat (xp + fst b) - 8) = of_nat (fst b)"
    by (rule GET_SIZE_tag [OF blk_ftr [OF assms]]) (use assms in \<open>simp add: blk_def\<close>)
  then show ?thesis by (simp add: PREV_BLKP_def DSIZE_def)
qed

lemma blk_prev_alloc:
  assumes "blk m xp b"
  shows "GET_ALLOC m (of_nat (xp + fst b) - 8) = (if snd b then 1 else 0)"
  by (rule GET_ALLOC_tag [OF blk_ftr [OF assms]]) (use assms in \<open>simp add: blk_def\<close>)

lemma sint_of_nat31: "n < 2 ^ 31 \<Longrightarrow> sint (of_nat n :: 32 word) = int n"
  by (simp add: signed_of_nat signed_take_bit_int_eq_self)

lemma blk_key:
  assumes "blk m x b" "4 \<le> x" "fst b < 2 ^ 31"
  shows "key m (of_nat x) = int (fst b)"
  using blk_GETSIZE [OF assms(1,2)] assms(3) by (simp add: key_def sint_of_nat31)

subsection \<open>Writes that leave a block sequence alone\<close>

lemma blk_cong:
  "blk m x b \<Longrightarrow> W m' (x - 4) = W m (x - 4) \<Longrightarrow> W m' (x + fst b - 8) = W m (x + fst b - 8)
   \<Longrightarrow> blk m' x b"
  by (simp add: blk_def)

lemma cseg_PUT_outside:
  assumes "cseg m x bs e" "4 \<le> x" "e \<le> 2 ^ 32" "c + 4 \<le> 2 ^ 32" "c + 8 \<le> x \<or> e \<le> c + 4"
  shows "cseg (PUT m (of_nat c) v) x bs e"
  using assms
proof (induction bs arbitrary: x)
  case Nil
  then show ?case by simp
next
  case (Cons b bs)
  then have cs: "cseg m (x + fst b) bs e" and b: "blk m x b" by auto
  have e: "e = x + fst b + tot bs" using cseg_end [OF cs] .
  have sz: "8 \<le> fst b" using b by (simp add: blk_def)
  have "cseg (PUT m (of_nat c) v) (x + fst b) bs e"
    by (rule Cons.IH [OF cs]) (use Cons.prems sz in auto)
  moreover have "blk (PUT m (of_nat c) v) x b"
  proof (rule blk_cong [OF b])
    show "W (PUT m (of_nat c) v) (x - 4) = W m (x - 4)"
      by (rule W_PUT_other) (use Cons.prems e sz in auto)
    show "W (PUT m (of_nat c) v) (x + fst b - 8) = W m (x + fst b - 8)"
      by (rule W_PUT_other) (use Cons.prems e sz in auto)
  qed
  ultimately show ?case by simp
qed

lemma frame_W:
  assumes "frame (lcells (of_nat ` Y)) m m'" "\<And>y. y \<in> Y \<Longrightarrow> y + 8 \<le> 2 ^ 32 \<and> (t + 4 \<le> y \<or> y + 8 \<le> t)"
    "t + 4 \<le> 2 ^ 32"
  shows "W m' t = W m t"
  unfolding W_def
proof (rule frame_GET [OF assms(1)], rule ballI)
  fix c :: ptr assume "c \<in> lcells (of_nat ` Y)"
  then obtain y where y: "y \<in> Y" "c = of_nat y \<or> c = of_nat (y + 4)"
    by (auto simp add: lcells_def)
  have b: "y + 8 \<le> 2 ^ 32" "t + 4 \<le> y \<or> y + 8 \<le> t" using assms(2) [OF y(1)] by auto
  show "cdisj c (of_nat t)"
  proof (cases "c = of_nat y")
    case True
    show ?thesis unfolding True by (rule cdisj_of_nat) (use b assms(3) in auto)
  next
    case False
    then have c: "c = of_nat (y + 4)" using y(2) by simp
    show ?thesis unfolding c by (rule cdisj_of_nat) (use b assms(3) in auto)
  qed
qed

lemma cseg_frame_links:
  assumes "cseg m x bs e" "frame (lcells (of_nat ` Y)) m m'" "4 \<le> x" "e \<le> 2 ^ 32"
    "\<And>y. y \<in> Y \<Longrightarrow> y \<in> set (frees x bs) \<or> y + 12 \<le> x \<or> (e \<le> y \<and> y + 8 \<le> 2 ^ 32)"
  shows "cseg m' x bs e"
  using assms(1,3,5)
proof (induction bs arbitrary: x)
  case Nil
  then show ?case by simp
next
  case (Cons b bs)
  then have cs: "cseg m (x + fst b) bs e" and b: "blk m x b" by auto
  have e: "e = x + fst b + tot bs" using cseg_end [OF cs] .
  have sz: "8 \<le> fst b" "\<not> snd b \<longrightarrow> 16 \<le> fst b" using b by (simp_all add: blk_def)
  have tl: "\<And>y. y \<in> set (frees (x + fst b) bs) \<Longrightarrow> x + fst b \<le> y \<and> y + 16 \<le> e"
    using frees_bounds [OF cs] by simp
  have cases: "y = x \<and> \<not> snd b \<or> x + fst b \<le> y \<and> y + 16 \<le> e \<or> y + 12 \<le> x \<or> (e \<le> y \<and> y + 8 \<le> 2 ^ 32)"
    if "y \<in> Y" for y
    using Cons.prems(3) [OF that] tl [of y] by (auto split: if_splits)
  have "cseg m' (x + fst b) bs e"
  proof (rule Cons.IH [OF cs])
    show "4 \<le> x + fst b" using Cons.prems(2) by simp
    fix y assume "y \<in> Y"
    then show "y \<in> set (frees (x + fst b) bs) \<or> y + 12 \<le> x + fst b \<or> (e \<le> y \<and> y + 8 \<le> 2 ^ 32)"
      using Cons.prems(3) [of y] sz by (auto split: if_splits)
  qed
  moreover have "blk m' x b"
  proof (rule blk_cong [OF b])
    show "W m' (x - 4) = W m (x - 4)"
    proof (rule frame_W [OF assms(2)])
      show "x - 4 + 4 \<le> 2 ^ 32" using Cons.prems(2) e assms(4) by simp
      fix y assume "y \<in> Y"
      then show "y + 8 \<le> 2 ^ 32 \<and> (x - 4 + 4 \<le> y \<or> y + 8 \<le> x - 4)"
        using cases [of y] Cons.prems(2) e assms(4) sz by auto
    qed
    show "W m' (x + fst b - 8) = W m (x + fst b - 8)"
    proof (rule frame_W [OF assms(2)])
      show "x + fst b - 8 + 4 \<le> 2 ^ 32" using Cons.prems(2) e assms(4) sz by simp
      fix y assume "y \<in> Y"
      then show "y + 8 \<le> 2 ^ 32 \<and> (x + fst b - 8 + 4 \<le> y \<or> y + 8 \<le> x + fst b - 8)"
        using cases [of y] Cons.prems(2) e assms(4) sz by auto
    qed
  qed
  ultimately show ?case by simp
qed

subsection \<open>Bytes changed by a step\<close>

definition chg :: "mem \<Rightarrow> mem \<Rightarrow> nat set \<Rightarrow> bool" where
  "chg m m' S \<longleftrightarrow> (\<forall>i. i < 2 ^ 32 \<longrightarrow> i \<notin> S \<longrightarrow> m' (of_nat i) = m (of_nat i))"

lemma chg_refl [simp]: "chg m m S"
  by (simp add: chg_def)

lemma chg_trans: "chg m m1 S \<Longrightarrow> chg m1 m2 T \<Longrightarrow> chg m m2 (S \<union> T)"
  by (simp add: chg_def)

lemma chg_mono: "chg m m' S \<Longrightarrow> S \<subseteq> T \<Longrightarrow> chg m m' T"
  unfolding chg_def by (meson subsetD)

lemma unat_of_nat_diff:
  assumes "i < 2 ^ 32" "c < 2 ^ 32"
  shows "unat (of_nat i - of_nat c :: ptr) = (if c \<le> i then i - c else 2 ^ 32 + i - c)"
  using assms by (simp add: unat_sub_if_size unat_of_nat32 word_size; arith)

lemma chg_PUT:
  assumes "c + 4 \<le> 2 ^ 32"
  shows "chg m (PUT m (of_nat c) v) {c..<c + 4}"
  unfolding chg_def
proof (intro allI impI)
  fix i :: nat assume i: "i < 2 ^ 32" "i \<notin> {c..<c + 4}"
  have "c < 2 ^ 32" using assms by simp
  then have "4 \<le> unat (of_nat i - of_nat c :: ptr)"
    using i assms by (simp add: unat_of_nat_diff; arith)
  then show "PUT m (of_nat c) v (of_nat i) = m (of_nat i)" by (rule PUT_byte_other)
qed

lemma chg_frame_links:
  assumes "frame (lcells (of_nat ` Y)) m m'" "\<And>y. y \<in> Y \<Longrightarrow> y + 8 \<le> 2 ^ 32"
  shows "chg m m' (\<Union>y\<in>Y. {y..<y + 8})"
  unfolding chg_def
proof (intro allI impI)
  fix i :: nat assume i: "i < 2 ^ 32" "i \<notin> (\<Union>y\<in>Y. {y..<y + 8})"
  have "\<forall>c\<in>lcells (of_nat ` Y). 4 \<le> unat (of_nat i - c :: ptr)"
  proof
    fix c :: ptr assume "c \<in> lcells (of_nat ` Y)"
    then obtain y where y: "y \<in> Y" "c = of_nat y \<or> c = of_nat (y + 4)"
      by (auto simp add: lcells_def)
    have b: "y + 8 \<le> 2 ^ 32" using assms(2) [OF y(1)] .
    have n: "i < y \<or> y + 8 \<le> i" using i(2) y(1) by auto
    show "4 \<le> unat (of_nat i - c :: ptr)"
    proof (cases "c = of_nat y")
      case True
      have "y < 2 ^ 32" using b by simp
      then show ?thesis unfolding True using i(1) n b by (simp add: unat_of_nat_diff; arith)
    next
      case False
      then have c: "c = of_nat (y + 4)" using y(2) by simp
      have "y + 4 < 2 ^ 32" using b by simp
      then have "unat (of_nat i - of_nat (y + 4) :: ptr)
          = (if y + 4 \<le> i then i - (y + 4) else 2 ^ 32 + i - (y + 4))"
        using i(1) by (rule unat_of_nat_diff [rotated])
      then show ?thesis unfolding c using n b by (simp del: of_nat_add; arith)
    qed
  qed
  then show "m' (of_nat i) = m (of_nat i)" using assms(1) by (simp add: frame_def)
qed

subsection \<open>The heap invariant\<close>

text \<open>
  \<open>heap_ok s lo bs H\<close>: the heap of \<open>s\<close> starts at \<open>lo\<close> with the pad word and is the
  block sequence \<open>bs\<close>, whose first block is the prologue; it ends at the break with the
  epilogue header; the index holds exactly the free blocks, except those in \<open>H\<close>
  (blocks taken out of the index by an operation in progress).
\<close>

definition heap_ok :: "state \<Rightarrow> nat \<Rightarrow> (nat \<times> bool) list \<Rightarrow> nat set \<Rightarrow> bool" where
  "heap_ok s lo bs H \<longleftrightarrow>
     8 \<le> lo \<and> 8 dvd lo
   \<and> heap_listp s = of_nat (lo + 8)
   \<and> bs \<noteq> [] \<and> hd bs = (8, True) \<and> (\<forall>b\<in>set (tl bs). 16 \<le> fst b)
   \<and> cseg (heap s) (lo + 8) bs (unat (mem_brk s))
   \<and> W (heap s) (unat (mem_brk s) - 4) = 1
   \<and> unat (mem_brk s) \<le> unat (mem_max_addr s) \<and> unat (mem_max_addr s) < lo + 2 ^ 31
   \<and> mem_fail s = - 1
   \<and> tree_ok (heap s) (tree_root s) (set (frees (lo + 8) bs) - H)"

lemma heap_ok_split:
  assumes "heap_ok s lo (pre @ b # post) H"
  defines "x \<equiv> lo + 8 + tot pre" and "E \<equiv> unat (mem_brk s)"
  shows "cseg (heap s) (lo + 8) pre x" "blk (heap s) x b" "cseg (heap s) (x + fst b) post E"
    "E = x + fst b + tot post" "E < 2 ^ 32" "W (heap s) (E - 4) = 1" "E < lo + 2 ^ 31" "mem_brk s = of_nat E"
proof -
  have c: "cseg (heap s) (lo + 8) (pre @ b # post) E" using assms(1) by (simp add: heap_ok_def E_def)
  then show "cseg (heap s) (lo + 8) pre x" "blk (heap s) x b" "cseg (heap s) (x + fst b) post E"
    by (simp_all add: cseg_append x_def)
  then show "E = x + fst b + tot post" using cseg_end by blast
  show "E < 2 ^ 32" unfolding E_def using unsigned_less [of "mem_brk s", where 'a = nat] by simp
  show "W (heap s) (E - 4) = 1" using assms(1) by (simp add: heap_ok_def E_def)
  show "E < lo + 2 ^ 31" using assms(1) by (simp add: heap_ok_def E_def)
  show "mem_brk s = of_nat E" by (simp add: E_def)
qed


lemma heap_ok_pre:
  assumes "heap_ok s lo (pre @ b # post) H" "\<not> snd b \<or> 16 \<le> fst b \<or> pre \<noteq> []"
  shows "8 \<le> lo" "8 dvd lo" "lo + 8 + tot pre < 2 ^ 32"
  using assms(1) heap_ok_split(4,5) [OF assms(1)] by (simp_all add: heap_ok_def)

definition outside :: "mem \<Rightarrow> mem \<Rightarrow> nat \<Rightarrow> nat \<Rightarrow> bool" where
  "outside m m' a b \<longleftrightarrow> (\<forall>t. t + 4 \<le> 2 ^ 32 \<longrightarrow> t + 4 \<le> a \<or> b \<le> t \<longrightarrow> W m' t = W m t)"

lemma outside_refl [simp]: "outside m m a b"
  by (simp add: outside_def)

lemma outside_trans: "outside m m1 a b \<Longrightarrow> outside m1 m2 a b \<Longrightarrow> outside m m2 a b"
  by (simp add: outside_def)

lemma outside_PUT:
  assumes "a \<le> c" "c + 4 \<le> b" "b \<le> 2 ^ 32"
  shows "outside m (PUT m (of_nat c) v) a b"
  unfolding outside_def
proof (intro allI impI)
  fix t :: nat assume t: "t + 4 \<le> 2 ^ 32" "t + 4 \<le> a \<or> b \<le> t"
  show "W (PUT m (of_nat c) v) t = W m t"
    by (rule W_PUT_other) (use assms t in auto)
qed

lemma outsideD: "outside m m' a b \<Longrightarrow> t + 4 \<le> 2 ^ 32 \<Longrightarrow> t + 4 \<le> a \<or> b \<le> t \<Longrightarrow> W m' t = W m t"
  unfolding outside_def by (drule spec [of _ t]) (erule impE, assumption, erule impE, assumption, assumption)

lemma cseg_outside:
  assumes "cseg m x bs e" "outside m m' a b" "4 \<le> x" "e \<le> 2 ^ 32" "e \<le> a + 4 \<or> b + 4 \<le> x"
  shows "cseg m' x bs e"
  using assms(1,3,5)
proof (induction bs arbitrary: x)
  case Nil
  then show ?case by simp
next
  case (Cons c bs)
  then have cs: "cseg m (x + fst c) bs e" and b: "blk m x c" by auto
  have e: "e = x + fst c + tot bs" using cseg_end [OF cs] .
  have sz: "8 \<le> fst c" using b by (simp add: blk_def)
  have "cseg m' (x + fst c) bs e"
    by (rule Cons.IH [OF cs]) (use Cons.prems sz in auto)
  moreover have "blk m' x c"
  proof (rule blk_cong [OF b])
    show "W m' (x - 4) = W m (x - 4)"
      by (rule outsideD [OF assms(2)]) (use Cons.prems e sz assms(4) in auto)
    show "W m' (x + fst c - 8) = W m (x + fst c - 8)"
      by (rule outsideD [OF assms(2)]) (use Cons.prems e sz assms(4) in auto)
  qed
  ultimately show ?case by simp
qed

lemma tree_ok_outside:
  assumes "tree_ok m root Y" "outside m m' a b"
    "\<And>y. y \<in> Y \<Longrightarrow> 4 \<le> y \<and> y + 8 \<le> 2 ^ 32 \<and> (y + 8 \<le> a \<or> b + 4 \<le> y)"
  shows "tree_ok m' root Y"
proof (rule tree_ok_cong [OF assms(1)])
  fix y assume "y \<in> Y"
  then have y: "4 \<le> y" "y + 8 \<le> 2 ^ 32" "y + 8 \<le> a \<or> b + 4 \<le> y" using assms(3) by auto
  have "W m' y = W m y" "W m' (y + 4) = W m (y + 4)" "W m' (y - 4) = W m (y - 4)"
    using y by (auto intro!: outsideD [OF assms(2)])
  then show "GET m' (of_nat y) = GET m (of_nat y)
      \<and> GET m' (of_nat y + 4) = GET m (of_nat y + 4)
      \<and> GET m' (of_nat y - 4) = GET m (of_nat y - 4)"
    using y by (simp add: W_def of_nat_diff)
qed

lemma heap_ok_tree_step:
  assumes ok: "heap_ok s lo bs H"
    and fr: "frame (lcells (of_nat ` Y)) (heap s) m1" and Y: "Y \<subseteq> set (frees (lo + 8) bs)"
    and tr: "tree_ok m1 r1 (set (frees (lo + 8) bs) - H')"
  shows "heap_ok (s\<lparr>heap := m1, tree_root := r1\<rparr>) lo bs H'"
proof -
  let ?E = "unat (mem_brk s)"
  have c: "cseg (heap s) (lo + 8) bs ?E" and ep: "W (heap s) (?E - 4) = 1"
    using ok by (simp_all add: heap_ok_def)
  have E: "?E \<le> 2 ^ 32" using unsigned_less [of "mem_brk s", where 'a = nat] by simp
  have fb: "\<And>y. y \<in> Y \<Longrightarrow> lo + 8 \<le> y \<and> y + 16 \<le> ?E"
    using frees_bounds [OF c] Y by blast
  have "cseg m1 (lo + 8) bs ?E"
    by (rule cseg_frame_links [OF c fr _ E]) (use Y in auto)
  moreover have "W m1 (?E - 4) = W (heap s) (?E - 4)"
  proof (rule frame_W [OF fr])
    fix y assume "y \<in> Y"
    then show "y + 8 \<le> 2 ^ 32 \<and> (?E - 4 + 4 \<le> y \<or> y + 8 \<le> ?E - 4)"
      using fb [of y] E by auto
  next
    show "?E - 4 + 4 \<le> 2 ^ 32" using E c cseg_end [OF c] by auto
  qed
  ultimately show ?thesis using ok tr ep by (simp add: heap_ok_def)
qed

lemma frees_mid:
  "set (frees x0 (pre @ mid @ post))
     = set (frees x0 pre) \<union> set (frees (x0 + tot pre) mid) \<union> set (frees (x0 + tot pre + tot mid) post)"
  by (simp add: frees_append Un_assoc)

lemma heap_ok_retag:
  assumes ok: "heap_ok s lo (pre @ old @ post) H" and pre: "pre \<noteq> []"
    and x: "x1 = lo + 8 + tot pre" "x2 = x1 + tot old"
    and out: "outside (heap s) m' (x1 - 4) (x2 - 4)"
    and new: "cseg m' x1 new x2" "\<forall>b\<in>set new. 16 \<le> fst b"
    and nodes: "set (frees (lo + 8) (pre @ new @ post)) - H' = set (frees (lo + 8) (pre @ old @ post)) - H"
    and away: "\<And>y. y \<in> set (frees x1 old) \<Longrightarrow> y \<in> H"
  shows "heap_ok (s\<lparr>heap := m'\<rparr>) lo (pre @ new @ post) H'"
proof -
  let ?E = "unat (mem_brk s)"
  let ?m = "heap s"
  have c: "cseg ?m (lo + 8) (pre @ old @ post) ?E" and ep: "W ?m (?E - 4) = 1"
    and lo: "8 \<le> lo"
    using ok by (simp_all add: heap_ok_def)
  have E: "?E \<le> 2 ^ 32" using unsigned_less [of "mem_brk s", where 'a = nat] by simp
  have c1: "cseg ?m (lo + 8) pre x1" and c2: "cseg ?m x1 old x2" and c3: "cseg ?m x2 post ?E"
    using c x by (simp_all add: cseg_append)
  have e3: "?E = x2 + tot post" using cseg_end [OF c3] .
  have x12: "x1 \<le> x2" using x by simp
  have x1: "12 \<le> x1" using x lo by simp
  have n1: "cseg m' (lo + 8) pre x1"
    by (rule cseg_outside [OF c1 out]) (use lo x1 x12 e3 E in auto)
  have n3: "cseg m' x2 post ?E"
    by (rule cseg_outside [OF c3 out]) (use lo x1 x12 e3 E in auto)
  have tn: "tot new = tot old" using cseg_end [OF new(1)] x by simp
  have cs': "cseg m' (lo + 8) (pre @ new @ post) ?E"
    using n1 new(1) n3 x tn by (simp add: cseg_append)
  have ep': "W m' (?E - 4) = 1"
  proof -
    have "W m' (?E - 4) = W ?m (?E - 4)"
      by (rule outsideD [OF out]) (use x1 x12 e3 E in auto)
    then show ?thesis using ep by simp
  qed
  have tr: "tree_ok ?m (tree_root s) (set (frees (lo + 8) (pre @ old @ post)) - H)"
    using ok by (simp add: heap_ok_def)
  have tr': "tree_ok m' (tree_root s) (set (frees (lo + 8) (pre @ old @ post)) - H)"
  proof (rule tree_ok_outside [OF tr out])
    fix y assume y: "y \<in> set (frees (lo + 8) (pre @ old @ post)) - H"
    then have "y \<in> set (frees (lo + 8) pre) \<or> y \<in> set (frees x2 post)"
      using away [of y] x by (auto simp add: frees_mid)
    then show "4 \<le> y \<and> y + 8 \<le> 2 ^ 32 \<and> (y + 8 \<le> x1 - 4 \<or> x2 - 4 + 4 \<le> y)"
    proof
      assume "y \<in> set (frees (lo + 8) pre)"
      then show ?thesis using frees_bounds [OF c1, of y] lo x1 x12 e3 E by auto
    next
      assume "y \<in> set (frees x2 post)"
      then show ?thesis using frees_bounds [OF c3, of y] lo x1 x12 e3 E by auto
    qed
  qed
  obtain p0 pre1 where p: "pre = p0 # pre1" using pre by (cases pre) auto
  have hd: "p0 = (8, True)" and tl: "\<forall>b\<in>set (pre1 @ old @ post). 16 \<le> fst b"
    using ok p by (simp_all add: heap_ok_def)
  show ?thesis
    using ok cs' ep' tr' hd tl new(2) p nodes by (auto simp add: heap_ok_def)
qed


subsection \<open>What the code reads around a block\<close>

definition ntag :: "(nat \<times> bool) list \<Rightarrow> nat \<times> bool" where
  "ntag post = (if post = [] then (0, True) else hd post)"

lemma tag_epilogue: "tag (0, True) = 1"
  by (simp add: tag_def PACK_def)

lemma next_hdr:
  assumes "cseg m x2 post E" "W m (E - 4) = 1" "4 \<le> x2"
  shows "GET m (of_nat x2 - 4) = tag (ntag post)" "8 dvd fst (ntag post)"
proof -
  show "GET m (of_nat x2 - 4) = tag (ntag post)"
  proof (cases post)
    case Nil
    then show ?thesis using assms by (simp add: ntag_def tag_epilogue W_def of_nat_diff)
  next
    case (Cons b bs)
    then have "blk m x2 b" using assms(1) by simp
    then show ?thesis using Cons assms(3) by (simp add: ntag_def blk_hdr)
  qed
  show "8 dvd fst (ntag post)"
  proof (cases post)
    case Nil
    then show ?thesis by (simp add: ntag_def)
  next
    case (Cons b bs)
    then have "blk m x2 b" using assms(1) by simp
    then show ?thesis using Cons by (simp add: ntag_def blk_def)
  qed
qed

lemma heap_reads:
  assumes ok: "heap_ok s lo (pre @ b # post) H" and pre: "pre \<noteq> []"
  defines "x \<equiv> lo + 8 + tot pre" and "m \<equiv> heap s"
  shows "GET_SIZE m (HDRP (of_nat x)) = of_nat (fst b)"
    and "GET_ALLOC m (HDRP (of_nat x)) = (if snd b then 1 else 0)"
    and "NEXT_BLKP m (of_nat x) = of_nat (x + fst b)"
    and "FTRP m (of_nat x) = of_nat (x + fst b - 8)"
    and "GETSIZE m (of_nat x) = of_nat (fst b)"
    and "PREV_BLKP m (of_nat x) = of_nat (x - fst (last pre))"
    and "GET_ALLOC m (FTRP m (of_nat (x - fst (last pre)))) = (if snd (last pre) then 1 else 0)"
    and "GET_SIZE m (HDRP (of_nat (x - fst (last pre)))) = of_nat (fst (last pre))"
    and "GETSIZE m (of_nat (x - fst (last pre))) = of_nat (fst (last pre))"
    and "GET_ALLOC m (HDRP (of_nat (x + fst b))) = (if snd (ntag post) then 1 else 0)"
    and "GET_SIZE m (HDRP (of_nat (x + fst b))) = of_nat (fst (ntag post))"
    and "GETSIZE m (of_nat (x + fst b)) = of_nat (fst (ntag post))"
    and "fst (last pre) \<le> x - 12" and "12 \<le> x"
proof -
  let ?E = "unat (mem_brk s)"
  have b: "blk m x b" and c3: "cseg m (x + fst b) post ?E" and ep: "W m (?E - 4) = 1"
    using heap_ok_split [OF ok] by (simp_all add: x_def m_def)
  have lo: "8 \<le> lo" using ok by (simp add: heap_ok_def)
  then have x4: "4 \<le> x" by (simp add: x_def)
  obtain pre0 pb where p: "pre = pre0 @ [pb]" using pre by (cases pre rule: rev_cases) auto
  have ok': "heap_ok s lo (pre0 @ pb # (b # post)) H" using ok p by simp
  let ?xp = "lo + 8 + tot pre0"
  have pb: "blk m ?xp pb" using heap_ok_split(2) [OF ok'] by (simp add: m_def)
  have xp: "x = ?xp + fst pb" by (simp add: x_def p)
  have xp4: "4 \<le> ?xp" using lo by simp
  have lp: "last pre = pb" "x - fst pb = ?xp" using p xp by simp_all
  show "GET_SIZE m (HDRP (of_nat x)) = of_nat (fst b)" by (rule blk_GET_SIZE [OF b x4])
  show "GET_ALLOC m (HDRP (of_nat x)) = (if snd b then 1 else 0)" by (rule blk_GET_ALLOC [OF b x4])
  show "NEXT_BLKP m (of_nat x) = of_nat (x + fst b)" by (rule blk_NEXT [OF b x4])
  show "FTRP m (of_nat x) = of_nat (x + fst b - 8)" by (rule blk_FTRP [OF b x4])
  show "GETSIZE m (of_nat x) = of_nat (fst b)" by (rule blk_GETSIZE [OF b x4])
  show "PREV_BLKP m (of_nat x) = of_nat (x - fst (last pre))"
    unfolding lp unfolding xp by (rule blk_PREV [OF pb])
  have fp: "FTRP m (of_nat ?xp) = of_nat (?xp + fst pb) - 8"
    using blk_FTRP [OF pb xp4] pb by (simp add: of_nat_diff blk_def)
  show "GET_ALLOC m (FTRP m (of_nat (x - fst (last pre)))) = (if snd (last pre) then 1 else 0)"
    unfolding lp fp by (rule blk_prev_alloc [OF pb])
  show "GET_SIZE m (HDRP (of_nat (x - fst (last pre)))) = of_nat (fst (last pre))"
    unfolding lp by (rule blk_GET_SIZE [OF pb xp4])
  show "GETSIZE m (of_nat (x - fst (last pre))) = of_nat (fst (last pre))"
    unfolding lp by (rule blk_GETSIZE [OF pb xp4])
  have x4': "4 \<le> x + fst b" using x4 by simp
  have nh: "GET m (of_nat (x + fst b) - 4) = tag (ntag post)" and nd: "8 dvd fst (ntag post)"
    using next_hdr [OF c3 ep x4'] by auto
  show "GET_ALLOC m (HDRP (of_nat (x + fst b))) = (if snd (ntag post) then 1 else 0)"
    unfolding HDRP_def WSIZE_def by (rule GET_ALLOC_tag [OF nh nd])
  show "GET_SIZE m (HDRP (of_nat (x + fst b))) = of_nat (fst (ntag post))"
    unfolding HDRP_def WSIZE_def by (rule GET_SIZE_tag [OF nh nd])
  show "GETSIZE m (of_nat (x + fst b)) = of_nat (fst (ntag post))"
    by (rule GETSIZE_tag [OF nh nd])
  show "fst (last pre) \<le> x - 12" using lp xp lo by simp
  show "12 \<le> x" using xp lo pb by (simp add: blk_def)
qed


subsection \<open>Writing the tags of a block\<close>

definition retag :: "mem \<Rightarrow> nat \<Rightarrow> nat \<times> bool \<Rightarrow> mem" where
  "retag m x b = PUT (PUT m (of_nat (x - 4)) (tag b)) (of_nat (x + fst b - 8)) (tag b)"

definition retagr :: "mem \<Rightarrow> nat \<Rightarrow> nat \<times> bool \<Rightarrow> mem" where
  "retagr m x b = PUT (PUT m (of_nat (x + fst b - 8)) (tag b)) (of_nat (x - 4)) (tag b)"

lemma PACK_tag: "PACK (of_nat n) 0 = tag (n, False)" "PACK (of_nat n) 1 = tag (n, True)"
  by (simp_all add: tag_def)

lemma HDRP_of_nat: "4 \<le> x \<Longrightarrow> HDRP (of_nat x) = of_nat (x - 4)"
  by (simp add: HDRP_def WSIZE_def of_nat_diff)

lemma FTRP_PUT_hdr:
  assumes "4 \<le> x" "8 dvd fst b" "8 \<le> fst b"
  shows "FTRP (PUT m (of_nat (x - 4)) (tag b)) (of_nat x) = of_nat (x + fst b - 8)"
proof -
  have "GET (PUT m (of_nat (x - 4)) (tag b)) (of_nat (x - 4)) = tag b" by simp
  then have "GET_SIZE (PUT m (of_nat (x - 4)) (tag b)) (of_nat (x - 4)) = of_nat (fst b)"
    using assms(2) by (rule GET_SIZE_tag)
  then show ?thesis using assms by (simp add: FTRP_def HDRP_of_nat DSIZE_def of_nat_diff)
qed

lemma blk_retag:
  assumes "4 \<le> x" "8 dvd fst b" "8 \<le> fst b" "\<not> snd b \<longrightarrow> 16 \<le> fst b" "x + fst b \<le> 2 ^ 32"
  shows "blk (retag m x b) x b"
proof -
  have "W (retag m x b) (x - 4) = W (PUT m (of_nat (x - 4)) (tag b)) (x - 4)"
    unfolding retag_def by (intro W_PUT_other) (use assms in auto)
  then have "W (retag m x b) (x - 4) = tag b" by simp
  moreover have "W (retag m x b) (x + fst b - 8) = tag b" by (simp add: retag_def)
  ultimately show ?thesis using assms by (simp add: blk_def)
qed

lemma blk_retagr:
  assumes "4 \<le> x" "8 dvd fst b" "8 \<le> fst b" "\<not> snd b \<longrightarrow> 16 \<le> fst b" "x + fst b \<le> 2 ^ 32"
  shows "blk (retagr m x b) x b"
proof -
  have "W (retagr m x b) (x + fst b - 8) = W (PUT m (of_nat (x + fst b - 8)) (tag b)) (x + fst b - 8)"
    unfolding retagr_def by (intro W_PUT_other) (use assms in auto)
  then have "W (retagr m x b) (x + fst b - 8) = tag b" by simp
  moreover have "W (retagr m x b) (x - 4) = tag b" by (simp add: retagr_def)
  ultimately show ?thesis using assms by (simp add: blk_def)
qed

lemma outside_retag:
  assumes "4 \<le> x" "8 \<le> fst b" "x + fst b \<le> 2 ^ 32" "a \<le> x - 4" "x + fst b - 4 \<le> c"
  shows "outside m (retag m x b) a c" "outside m (retagr m x b) a c"
proof -
  have 1: "outside m (PUT m (of_nat (x - 4)) v) a c" for m v
    unfolding outside_def
    by (intro allI impI W_PUT_other) (use assms in auto)
  have 2: "outside m (PUT m (of_nat (x + fst b - 8)) v) a c" for m v
    unfolding outside_def
    by (intro allI impI W_PUT_other) (use assms in auto)
  show "outside m (retag m x b) a c" unfolding retag_def by (rule outside_trans [OF 1 2])
  show "outside m (retagr m x b) a c" unfolding retagr_def by (rule outside_trans [OF 2 1])
qed

lemma chg_retag:
  assumes "4 \<le> x" "8 \<le> fst b" "x + fst b \<le> 2 ^ 32"
  shows "chg m (retag m x b) ({x - 4..<x} \<union> {x + fst b - 8..<x + fst b - 4})"
    "chg m (retagr m x b) ({x - 4..<x} \<union> {x + fst b - 8..<x + fst b - 4})"
proof -
  have 1: "chg m (PUT m (of_nat (x - 4)) v) {x - 4..<x}" for m v
    using chg_PUT [of "x - 4" m v] assms by simp
  have 2: "chg m (PUT m (of_nat (x + fst b - 8)) v) {x + fst b - 8..<x + fst b - 4}" for m v
    using chg_PUT [of "x + fst b - 8" m v] assms by simp
  show "chg m (retag m x b) ({x - 4..<x} \<union> {x + fst b - 8..<x + fst b - 4})"
    unfolding retag_def by (rule chg_trans [OF 1 2])
  show "chg m (retagr m x b) ({x - 4..<x} \<union> {x + fst b - 8..<x + fst b - 4})"
    unfolding retagr_def by (rule chg_mono [OF chg_trans [OF 2 1]]) auto
qed

subsection \<open>Coalescing\<close>

definition links :: "nat set \<Rightarrow> nat set" where
  "links Y = (\<Union>y\<in>Y. {y..<y + 8})"

lemma heap_ok_free_pre:
  assumes "heap_ok s lo (pre @ (cs, False) # post) H"
  shows "pre \<noteq> []"
  using assms by (auto simp add: heap_ok_def)

lemma heap_ok_wsep:
  assumes "heap_ok s lo bs H"
  shows "wsep (set (frees (lo + 8) bs))"
proof -
  have c: "cseg (heap s) (lo + 8) bs (unat (mem_brk s))" using assms by (simp add: heap_ok_def)
  have E: "unat (mem_brk s) \<le> 2 ^ 32" using unsigned_less [of "mem_brk s", where 'a = nat] by simp
  show ?thesis by (rule frees_wsep [OF c _ E]) simp
qed

lemma heap_ok_tree:
  "heap_ok s lo bs H \<Longrightarrow> tree_ok (heap s) (tree_root s) (set (frees (lo + 8) bs) - H)"
  by (simp add: heap_ok_def)

lemma heap_ok_sizes:
  assumes ok: "heap_ok s lo (pre @ old @ post) H" and pre: "pre \<noteq> []"
  shows "\<forall>b\<in>set old. 16 \<le> fst b \<and> 8 dvd fst b" "8 dvd tot old"
    "lo + 8 + tot pre + tot old + tot post = unat (mem_brk s)"
proof -
  obtain p0 pre1 where p: "pre = p0 # pre1" using pre by (cases pre) auto
  have tl: "\<forall>b\<in>set (pre1 @ old @ post). 16 \<le> fst b" using ok p by (simp add: heap_ok_def)
  have c: "cseg (heap s) (lo + 8) (pre @ old @ post) (unat (mem_brk s))"
    using ok by (simp add: heap_ok_def)
  then have c2: "cseg (heap s) (lo + 8 + tot pre) old (lo + 8 + tot pre + tot old)"
    by (simp add: cseg_append)
  have d: "\<forall>b\<in>set bs. 8 dvd fst b" if "cseg m x bs e" for m x bs e
    using that by (induction bs arbitrary: x) (auto simp add: blk_def)
  show "\<forall>b\<in>set old. 16 \<le> fst b \<and> 8 dvd fst b" using tl d [OF c2] by auto
  have "8 dvd tot bs" if "\<forall>b\<in>set bs. 8 dvd fst b" for bs :: "(nat \<times> bool) list"
    using that by (induction bs) auto
  then show "8 dvd tot old" using d [OF c2] by blast
  show "lo + 8 + tot pre + tot old + tot post = unat (mem_brk s)"
    using cseg_end [OF c] by simp
qed

lemma heap_ok_merge:
  assumes ok: "heap_ok s lo (pre @ old @ post) H" and pre: "pre \<noteq> []" and old: "old \<noteq> []"
    and x: "x = lo + 8 + tot pre"
    and H: "H = set (frees x old)"
    and m': "m' = retag (heap s) x (tot old, False) \<or> m' = retagr (heap s) x (tot old, False)"
  shows "heap_ok (s\<lparr>heap := m'\<rparr>) lo (pre @ (tot old, False) # post) {x}"
proof -
  let ?T = "tot old"
  let ?E = "unat (mem_brk s)"
  have sz: "\<forall>b\<in>set old. 16 \<le> fst b \<and> 8 dvd fst b" and d: "8 dvd ?T"
    and e: "lo + 8 + tot pre + tot old + tot post = ?E"
    using heap_ok_sizes [OF ok pre] by auto
  obtain b0 old1 where o: "old = b0 # old1" using old by (cases old) auto
  have T: "16 \<le> ?T" using sz o by simp
  have E: "?E < 2 ^ 32" using unsigned_less [of "mem_brk s", where 'a = nat] by simp
  have lo: "8 \<le> lo" using ok by (simp add: heap_ok_def)
  have x4: "4 \<le> x" using x lo by simp
  have xT: "x + ?T \<le> 2 ^ 32" using e E x by simp
  have c: "cseg (heap s) (lo + 8) (pre @ old @ post) ?E" using ok by (simp add: heap_ok_def)
  have c1: "cseg (heap s) (lo + 8) pre x" and c2: "cseg (heap s) x old (x + ?T)"
    and c3: "cseg (heap s) (x + ?T) post ?E"
    using c x by (simp_all add: cseg_append)
  have ok': "heap_ok s lo (pre @ old @ post) H" by (rule ok)
  have "heap_ok (s\<lparr>heap := m'\<rparr>) lo (pre @ [(?T, False)] @ post) {x}"
  proof (rule heap_ok_retag [OF ok' pre x refl])
    show "outside (heap s) m' (x - 4) (x + ?T - 4)"
      using m' outside_retag [of x "(?T, False)" "x - 4" "x + ?T - 4" "heap s"] x4 T xT by auto
    show "cseg m' x [(?T, False)] (x + ?T)"
      using m' blk_retag [of x "(?T, False)" "heap s"] blk_retagr [of x "(?T, False)" "heap s"]
        x4 T xT d by auto
    show "\<forall>b\<in>set [(?T, False)]. 16 \<le> fst b" using T by simp
    show "set (frees (lo + 8) (pre @ [(?T, False)] @ post)) - {x}
        = set (frees (lo + 8) (pre @ old @ post)) - H"
    proof -
      have a: "y + 16 \<le> x" if "y \<in> set (frees (lo + 8) pre)" for y
        using frees_bounds [OF c1 that] by simp
      have b: "x \<le> y \<and> y + 16 \<le> x + ?T" if "y \<in> set (frees x old)" for y
        using frees_bounds [OF c2 that] by simp
      have c: "x + ?T \<le> y" if "y \<in> set (frees (x + ?T) post)" for y
        using frees_bounds [OF c3 that] by simp
      have d1: "set (frees (lo + 8) pre) \<inter> ({x} \<union> set (frees x old)) = {}"
        using a b by fastforce
      have d2: "set (frees (x + ?T) post) \<inter> ({x} \<union> set (frees x old)) = {}"
        using c b T by fastforce
      have "set (frees (lo + 8) (pre @ [(?T, False)] @ post))
          = set (frees (lo + 8) pre) \<union> {x} \<union> set (frees (x + ?T) post)"
        unfolding frees_mid x [symmetric] by simp
      moreover have "set (frees (lo + 8) (pre @ old @ post))
          = set (frees (lo + 8) pre) \<union> set (frees x old) \<union> set (frees (x + ?T) post)"
        unfolding frees_mid x [symmetric] by simp
      ultimately show ?thesis unfolding H using d1 d2 by blast
    qed
    show "\<And>y. y \<in> set (frees x old) \<Longrightarrow> y \<in> H" using H by simp
  qed
  then show ?thesis by simp
qed

lemma PREV_cong:
  "8 \<le> x \<Longrightarrow> W m' (x - 8) = W m (x - 8) \<Longrightarrow> PREV_BLKP m' (of_nat x) = PREV_BLKP m (of_nat x)"
  by (simp add: PREV_BLKP_def GET_SIZE_def DSIZE_def W_def of_nat_diff)

lemma NEXT_cong:
  "4 \<le> x \<Longrightarrow> W m' (x - 4) = W m (x - 4) \<Longrightarrow> NEXT_BLKP m' (of_nat x) = NEXT_BLKP m (of_nat x)"
  by (simp add: NEXT_BLKP_def GET_SIZE_def HDRP_def WSIZE_def W_def of_nat_diff)

lemma FTRP_cong:
  "4 \<le> x \<Longrightarrow> W m' (x - 4) = W m (x - 4) \<Longrightarrow> FTRP m' (of_nat x) = FTRP m (of_nat x)"
  by (simp add: FTRP_def GET_SIZE_def HDRP_def WSIZE_def W_def of_nat_diff)

lemma coalesce_AA:
  assumes ok: "heap_ok s lo (pre @ (cs, False) # post) H" and x: "x = lo + 8 + tot pre"
    and pa: "snd (last pre)" and na: "snd (ntag post)"
  shows "coalesce s (of_nat x) = ret (s, of_nat x)"
proof -
  have pre: "pre \<noteq> []" by (rule heap_ok_free_pre [OF ok])
  note r = heap_reads [OF ok pre, folded x, simplified fst_conv snd_conv]
  show ?thesis
    using pa na by (simp add: coalesce_def Let_def r del: of_nat_add)
qed

lemma coalesce_AF:
  assumes ok: "heap_ok s lo (pre @ (cs, False) # (ns, False) # post) {x}"
    and x: "x = lo + 8 + tot pre"
    and pa: "snd (last pre)"
  shows "\<exists>m' r'. coalesce s (of_nat x) = ret (s\<lparr>heap := m', tree_root := r'\<rparr>, of_nat x)
           \<and> heap_ok (s\<lparr>heap := m', tree_root := r'\<rparr>) lo (pre @ (cs + ns, False) # post) {x}
           \<and> chg (heap s) m' (links (set (frees (lo + 8) (pre @ (cs, False) # (ns, False) # post)) - {x})
                 \<union> {x - 4..<x} \<union> {x + (cs + ns) - 8..<x + (cs + ns) - 4})"
proof -
  let ?bs = "pre @ (cs, False) # (ns, False) # post"
  let ?F = "set (frees (lo + 8) ?bs)"
  let ?m = "heap s"
  let ?xn = "x + cs"
  have pre: "pre \<noteq> []" by (rule heap_ok_free_pre [OF ok])
  note r = heap_reads [OF ok pre, folded x, simplified fst_conv snd_conv]
  have ws: "wsep ?F" by (rule heap_ok_wsep [OF ok])
  have tr: "tree_ok ?m (tree_root s) (?F - {x})" by (rule heap_ok_tree [OF ok])
  have sz: "\<forall>b\<in>set [(cs, False), (ns, False)]. 16 \<le> fst b \<and> 8 dvd fst b"
    using heap_ok_sizes(1) [of s lo pre "[(cs, False), (ns, False)]" post "{x}"] ok pre by simp
  have xn: "?xn \<in> ?F - {x}" using x sz by (simp add: frees_append)
  have ws': "wsep (?F - {x})" by (rule wsep_mono [OF ws]) auto
  obtain m1 r1 where rm: "mm_remove ?m (tree_root s) (of_nat ?xn) = ret (m1, r1)"
    and t1: "tree_ok m1 r1 (?F - {x} - {?xn})"
    and f1: "frame (lcells (of_nat ` (?F - {x} - {?xn}))) ?m m1"
    using tree_ok_remove [OF tr xn ws'] by blast
  let ?s1 = "s\<lparr>heap := m1, tree_root := r1\<rparr>"
  have t1': "tree_ok m1 r1 (?F - {x, ?xn})"
    using t1 by (simp add: Diff_insert2 [symmetric] insert_commute)
  have ok1: "heap_ok ?s1 lo ?bs {x, ?xn}"
    by (rule heap_ok_tree_step [OF ok f1 _ t1']) auto
  let ?b = "(cs + ns, False)"
  let ?m3 = "retag m1 x ?b"
  have x4: "4 \<le> x" using r by simp
  have ft: "FTRP (PUT m1 (of_nat (x - 4)) (tag ?b)) (of_nat x) = of_nat (x + (cs + ns) - 8)"
    using FTRP_PUT_hdr [of x ?b m1] x4 sz by simp
  have pk: "PACK (of_nat cs + of_nat ns) 0 = tag ?b" using PACK_tag(1) [of "cs + ns"] by simp
  have call: "coalesce s (of_nat x) = ret (s\<lparr>heap := ?m3, tree_root := r1\<rparr>, of_nat x)"
    unfolding coalesce_def Let_def
    apply (simp only: r ntag_def pa rm fst_conv snd_conv
        if_True if_False simp_thms list.sel list.simps bnd_ret split_conv one_neq_zero)
    apply (simp only: HDRP_of_nat [OF x4] pk ft retag_def fst_conv)
    done
  have "heap_ok (?s1\<lparr>heap := ?m3\<rparr>) lo (pre @ (tot [(cs, False), (ns, False)], False) # post) {x}"
    by (rule heap_ok_merge [OF _ pre _ x]) (use ok1 in simp_all)
  moreover have "?s1\<lparr>heap := ?m3\<rparr> = s\<lparr>heap := ?m3, tree_root := r1\<rparr>" by simp
  ultimately have ok3: "heap_ok (s\<lparr>heap := ?m3, tree_root := r1\<rparr>) lo (pre @ (cs + ns, False) # post) {x}"
    by simp
  have E: "unat (mem_brk s) < 2 ^ 32" using unsigned_less [of "mem_brk s", where 'a = nat] by simp
  have e: "lo + 8 + tot pre + tot [(cs, False), (ns, False)] + tot post = unat (mem_brk s)"
    by (rule heap_ok_sizes(3) [of s lo pre _ post "{x}"]) (use ok pre in simp_all)
  have c1: "chg ?m m1 (links (?F - {x} - {?xn}))"
    unfolding links_def
    by (rule chg_frame_links [OF f1]) (use wsepD1 [OF ws] in auto)
  have c2: "chg m1 ?m3 ({x - 4..<x} \<union> {x + fst ?b - 8..<x + fst ?b - 4})"
    by (rule chg_retag) (use x4 sz e E x in auto)
  have "chg ?m ?m3 (links (?F - {x} - {?xn}) \<union> ({x - 4..<x} \<union> {x + fst ?b - 8..<x + fst ?b - 4}))"
    by (rule chg_trans [OF c1 c2])
  then have c: "chg ?m ?m3 (links (?F - {x}) \<union> {x - 4..<x} \<union> {x + (cs + ns) - 8..<x + (cs + ns) - 4})"
    by (rule chg_mono) (auto simp add: links_def)
  show ?thesis using call ok3 c by (intro exI [of _ ?m3] exI [of _ r1]) simp
qed

lemma coalesce_FA:
  assumes ok: "heap_ok s lo (pre @ (ps, False) # (cs, False) # post) {x}"
    and xp: "xp = lo + 8 + tot pre" and x: "x = xp + ps"
    and na: "snd (ntag post)"
  shows "\<exists>m' r'. coalesce s (of_nat x) = ret (s\<lparr>heap := m', tree_root := r'\<rparr>, of_nat xp)
           \<and> heap_ok (s\<lparr>heap := m', tree_root := r'\<rparr>) lo (pre @ (ps + cs, False) # post) {xp}
           \<and> chg (heap s) m' (links (set (frees (lo + 8) (pre @ (ps, False) # (cs, False) # post)) - {x} - {xp})
                 \<union> {xp - 4..<xp} \<union> {xp + (ps + cs) - 8..<xp + (ps + cs) - 4})"
proof -
  let ?bs = "pre @ (ps, False) # (cs, False) # post"
  let ?F = "set (frees (lo + 8) ?bs)"
  let ?m = "heap s"
  let ?pre = "pre @ [(ps, False)]"
  have pre: "pre \<noteq> []" by (rule heap_ok_free_pre [OF ok])
  have pre': "?pre \<noteq> []" by simp
  have ok': "heap_ok s lo (?pre @ (cs, False) # post) {x}" using ok by simp
  have x': "x = lo + 8 + tot ?pre" using x xp by simp
  have xps: "x - ps = xp" using x by simp
  note r = heap_reads [OF ok' pre', folded x', simplified fst_conv snd_conv last_snoc xps]
  have ws: "wsep ?F" by (rule heap_ok_wsep [OF ok])
  have tr: "tree_ok ?m (tree_root s) (?F - {x})" by (rule heap_ok_tree [OF ok])
  have sz: "\<forall>b\<in>set [(ps, False), (cs, False)]. 16 \<le> fst b \<and> 8 dvd fst b"
    using heap_ok_sizes(1) [of s lo pre "[(ps, False), (cs, False)]" post "{x}"] ok pre by simp
  have xpF: "xp \<in> ?F - {x}" using x xp sz by (simp add: frees_append)
  have ws': "wsep (?F - {x})" by (rule wsep_mono [OF ws]) auto
  obtain m1 r1 where rm: "mm_remove ?m (tree_root s) (of_nat xp) = ret (m1, r1)"
    and t1: "tree_ok m1 r1 (?F - {x} - {xp})"
    and f1: "frame (lcells (of_nat ` (?F - {x} - {xp}))) ?m m1"
    using tree_ok_remove [OF tr xpF ws'] by blast
  let ?s1 = "s\<lparr>heap := m1, tree_root := r1\<rparr>"
  have t1': "tree_ok m1 r1 (?F - {xp, x})"
    using t1 by (simp add: Diff_insert2 [symmetric] insert_commute)
  have ok1: "heap_ok ?s1 lo ?bs {xp, x}"
    by (rule heap_ok_tree_step [OF ok f1 _ t1']) auto
  have ok1': "heap_ok ?s1 lo (?pre @ (cs, False) # post) {xp, x}" using ok1 by simp
  have h1: "heap ?s1 = m1" by simp
  note r1 = heap_reads [OF ok1' pre', folded x', simplified fst_conv snd_conv last_snoc xps h1]
  have na': "snd (ntag post) = True" using na by simp
  let ?b = "(ps + cs, False)"
  let ?m3 = "retagr m1 xp ?b"
  have E: "unat (mem_brk s) < 2 ^ 32" using unsigned_less [of "mem_brk s", where 'a = nat] by simp
  have e: "lo + 8 + tot pre + tot [(ps, False), (cs, False)] + tot post = unat (mem_brk s)"
    by (rule heap_ok_sizes(3) [of s lo pre _ post "{x}"]) (use ok pre in simp_all)
  have x4: "4 \<le> xp" "12 \<le> x" "8 \<le> x" using r xp by simp_all
  have pk: "PACK (of_nat cs + of_nat ps) 0 = tag ?b" using PACK_tag(1) [of "ps + cs"] by (simp add: add.commute)
  have a1: "x + cs - 8 = xp + fst ?b - 8" using x by simp
  let ?t = "tag ?b"
  let ?m2 = "PUT m1 (of_nat (xp + fst ?b - 8)) ?t"
  have p2: "PREV_BLKP ?m2 (of_nat x) = of_nat xp"
  proof -
    have "W ?m2 (x - 8) = W m1 (x - 8)"
      by (rule W_PUT_other) (use sz x4 e E x xp in auto)
    then have "PREV_BLKP ?m2 (of_nat x) = PREV_BLKP m1 (of_nat x)" by (rule PREV_cong [OF x4(3)])
    then show ?thesis using r1(6) xps by simp
  qed
  have p3: "PREV_BLKP (PUT ?m2 (of_nat (xp - 4)) ?t) (of_nat x) = of_nat xp"
  proof -
    have "W (PUT ?m2 (of_nat (xp - 4)) ?t) (x - 8) = W ?m2 (x - 8)"
      by (rule W_PUT_other) (use sz x4 e E x xp in auto)
    then have "PREV_BLKP (PUT ?m2 (of_nat (xp - 4)) ?t) (of_nat x) = PREV_BLKP ?m2 (of_nat x)"
      by (rule PREV_cong [OF x4(3)])
    then show ?thesis using p2 by simp
  qed
  have call: "coalesce s (of_nat x) = ret (s\<lparr>heap := ?m3, tree_root := r1\<rparr>, of_nat xp)"
    unfolding coalesce_def Let_def
    apply (simp only: r na' rm fst_conv snd_conv
        if_True if_False simp_thms list.sel list.simps bnd_ret split_conv one_neq_zero)
    apply (simp only: r1 pk p2 p3 HDRP_of_nat [OF x4(1)] retagr_def a1)
    done
  have "heap_ok (?s1\<lparr>heap := ?m3\<rparr>) lo (pre @ (tot [(ps, False), (cs, False)], False) # post) {xp}"
    by (rule heap_ok_merge [OF _ pre _ xp]) (use ok1 x in simp_all)
  moreover have "?s1\<lparr>heap := ?m3\<rparr> = s\<lparr>heap := ?m3, tree_root := r1\<rparr>" by simp
  ultimately have ok3: "heap_ok (s\<lparr>heap := ?m3, tree_root := r1\<rparr>) lo (pre @ (ps + cs, False) # post) {xp}"
    by simp
  have c1: "chg ?m m1 (links (?F - {x} - {xp}))"
    unfolding links_def
    by (rule chg_frame_links [OF f1]) (use wsepD1 [OF ws] in auto)
  have c2: "chg m1 ?m3 ({xp - 4..<xp} \<union> {xp + fst ?b - 8..<xp + fst ?b - 4})"
    by (rule chg_retag) (use x4 sz e E x xp in auto)
  have "chg ?m ?m3 (links (?F - {x} - {xp}) \<union> ({xp - 4..<xp} \<union> {xp + fst ?b - 8..<xp + fst ?b - 4}))"
    by (rule chg_trans [OF c1 c2])
  then have c: "chg ?m ?m3 (links (?F - {x} - {xp}) \<union> {xp - 4..<xp} \<union> {xp + (ps + cs) - 8..<xp + (ps + cs) - 4})"
    by (rule chg_mono) auto
  show ?thesis using call ok3 c by (intro exI [of _ ?m3] exI [of _ r1]) simp
qed

lemma blk_ftr_size:
  assumes "blk m x b"
  shows "GET_SIZE m (of_nat (x + fst b - 8)) = of_nat (fst b)"
proof -
  have "GET m (of_nat (x + fst b - 8)) = tag b" using assms unfolding blk_def W_def by blast
  then show ?thesis by (rule GET_SIZE_tag) (use assms in \<open>simp add: blk_def\<close>)
qed

lemma coalesce_FF:
  assumes ok: "heap_ok s lo (pre @ (ps, False) # (cs, False) # (ns, False) # post) {x}"
    and xp: "xp = lo + 8 + tot pre" and x: "x = xp + ps"
  shows "\<exists>m' r'. coalesce s (of_nat x) = ret (s\<lparr>heap := m', tree_root := r'\<rparr>, of_nat xp)
           \<and> heap_ok (s\<lparr>heap := m', tree_root := r'\<rparr>) lo (pre @ (ps + cs + ns, False) # post) {xp}
           \<and> chg (heap s) m'
                (links (set (frees (lo + 8) (pre @ (ps, False) # (cs, False) # (ns, False) # post)) - {x})
                 \<union> {xp - 4..<xp} \<union> {xp + (ps + cs + ns) - 8..<xp + (ps + cs + ns) - 4})"
proof -
  let ?bs = "pre @ (ps, False) # (cs, False) # (ns, False) # post"
  let ?F = "set (frees (lo + 8) ?bs)"
  let ?m = "heap s"
  let ?pre = "pre @ [(ps, False)]"
  let ?pren = "pre @ [(ps, False), (cs, False)]"
  let ?xn = "x + cs"
  have pre: "pre \<noteq> []" by (rule heap_ok_free_pre [OF ok])
  have pre': "?pre \<noteq> []" and pren: "?pren \<noteq> []" by simp_all
  have x': "x = lo + 8 + tot ?pre" using x xp by simp
  have xn': "?xn = lo + 8 + tot ?pren" using x xp by simp
  have xps: "x - ps = xp" using x by simp
  have ok': "heap_ok s lo (?pre @ (cs, False) # (ns, False) # post) {x}" using ok by simp
  have okn: "heap_ok s lo (?pren @ (ns, False) # post) {x}" using ok by simp
  note r = heap_reads [OF ok' pre', folded x', simplified fst_conv snd_conv last_snoc xps]
  note rn = heap_reads(4) [OF okn pren, folded xn', simplified fst_conv snd_conv]
  have bn: "blk ?m ?xn (ns, False)" using heap_ok_split(2) [OF okn] unfolding xn' by simp
  have fs: "GET_SIZE ?m (of_nat (?xn + ns - 8)) = of_nat ns" using blk_ftr_size [OF bn] by simp
  have ws: "wsep ?F" by (rule heap_ok_wsep [OF ok])
  have tr: "tree_ok ?m (tree_root s) (?F - {x})" by (rule heap_ok_tree [OF ok])
  have sz: "\<forall>b\<in>set [(ps, False), (cs, False), (ns, False)]. 16 \<le> fst b \<and> 8 dvd fst b"
    using heap_ok_sizes(1) [of s lo pre "[(ps, False), (cs, False), (ns, False)]" post "{x}"] ok pre
    by simp
  have xnF: "?xn \<in> ?F - {x}" using x xp sz by (simp add: frees_append)
  have ws': "wsep (?F - {x})" by (rule wsep_mono [OF ws]) auto
  obtain m1 r1 where rm1: "mm_remove ?m (tree_root s) (of_nat ?xn) = ret (m1, r1)"
    and t1: "tree_ok m1 r1 (?F - {x} - {?xn})"
    and f1: "frame (lcells (of_nat ` (?F - {x} - {?xn}))) ?m m1"
    using tree_ok_remove [OF tr xnF ws'] by blast
  let ?s1 = "s\<lparr>heap := m1, tree_root := r1\<rparr>"
  have t1': "tree_ok m1 r1 (?F - {x, ?xn})"
    using t1 by (simp add: Diff_insert2 [symmetric] insert_commute)
  have ok1: "heap_ok ?s1 lo ?bs {x, ?xn}"
    by (rule heap_ok_tree_step [OF ok f1 _ t1']) auto
  have ok1': "heap_ok ?s1 lo (?pre @ (cs, False) # (ns, False) # post) {x, ?xn}" using ok1 by simp
  have h1: "heap ?s1 = m1" by simp
  note r1 = heap_reads [OF ok1' pre', folded x', simplified fst_conv snd_conv last_snoc xps h1]
  have xpF: "xp \<in> ?F - {x, ?xn}" using x xp sz by (simp add: frees_append)
  have ws1: "wsep (?F - {x, ?xn})" by (rule wsep_mono [OF ws]) auto
  obtain m2 r2 where rm2: "mm_remove m1 r1 (of_nat xp) = ret (m2, r2)"
    and t2: "tree_ok m2 r2 (?F - {x, ?xn} - {xp})"
    and f2: "frame (lcells (of_nat ` (?F - {x, ?xn} - {xp}))) m1 m2"
    using tree_ok_remove [OF t1' xpF ws1] by blast
  let ?s2 = "?s1\<lparr>heap := m2, tree_root := r2\<rparr>"
  have "?F - {x, ?xn} - {xp} = ?F - {xp, x, ?xn}" by auto
  then have t2': "tree_ok m2 r2 (?F - {xp, x, ?xn})" using t2 by simp
  have f2': "frame (lcells (of_nat ` (?F - {x, ?xn} - {xp}))) (heap ?s1) m2" using f2 by simp
  have ok2: "heap_ok ?s2 lo ?bs {xp, x, ?xn}"
    by (rule heap_ok_tree_step [OF ok1 f2' _ t2']) auto
  have ok2': "heap_ok ?s2 lo (?pre @ (cs, False) # (ns, False) # post) {xp, x, ?xn}"
    and ok2n: "heap_ok ?s2 lo (?pren @ (ns, False) # post) {xp, x, ?xn}"
    using ok2 by simp_all
  have h2: "heap ?s2 = m2" by simp
  note r2 = heap_reads [OF ok2' pre', folded x', simplified fst_conv snd_conv last_snoc xps h2]
  note r2n = heap_reads(4) [OF ok2n pren, folded xn', simplified fst_conv snd_conv h2]
  let ?b = "(ps + cs + ns, False)"
  let ?t = "tag ?b"
  let ?m4 = "retag m2 xp ?b"
  have E: "unat (mem_brk s) < 2 ^ 32" using unsigned_less [of "mem_brk s", where 'a = nat] by simp
  have e: "lo + 8 + tot pre + tot [(ps, False), (cs, False), (ns, False)] + tot post = unat (mem_brk s)"
    by (rule heap_ok_sizes(3) [of s lo pre _ post "{x}"]) (use ok pre in simp_all)
  have x4: "4 \<le> xp" "12 \<le> x" "8 \<le> x" "4 \<le> x" "4 \<le> ?xn" using r xp by simp_all
  have pk: "PACK (of_nat cs + of_nat ps + of_nat ns) 0 = ?t"
    using PACK_tag(1) [of "ps + cs + ns"] by (simp add: add.commute)
  let ?m3 = "PUT m2 (of_nat (xp - 4)) ?t"
  have n3: "NEXT_BLKP ?m3 (of_nat x) = of_nat ?xn"
  proof -
    have "W ?m3 (x - 4) = W m2 (x - 4)"
      by (rule W_PUT_other) (use sz x4 e E x xp in auto)
    then have "NEXT_BLKP ?m3 (of_nat x) = NEXT_BLKP m2 (of_nat x)" by (rule NEXT_cong [OF x4(4)])
    then show ?thesis using r2(3) by simp
  qed
  have f3: "FTRP ?m3 (of_nat ?xn) = of_nat (xp + fst ?b - 8)"
  proof -
    have "W ?m3 (?xn - 4) = W m2 (?xn - 4)"
      by (rule W_PUT_other) (use sz x4 e E x xp in auto)
    then have "FTRP ?m3 (of_nat ?xn) = FTRP m2 (of_nat ?xn)" by (rule FTRP_cong [OF x4(5)])
    moreover have "?xn + ns - 8 = xp + fst ?b - 8" using x by simp
    ultimately show ?thesis using r2n by simp
  qed
  have p4: "PREV_BLKP (PUT ?m3 (of_nat (xp + fst ?b - 8)) ?t) (of_nat x) = of_nat xp"
  proof -
    have "W (PUT ?m3 (of_nat (xp + fst ?b - 8)) ?t) (x - 8) = W ?m3 (x - 8)"
      by (rule W_PUT_other) (use sz x4 e E x xp in auto)
    moreover have "W ?m3 (x - 8) = W m2 (x - 8)"
      by (rule W_PUT_other) (use sz x4 e E x xp in auto)
    ultimately have "W (PUT ?m3 (of_nat (xp + fst ?b - 8)) ?t) (x - 8) = W m2 (x - 8)" by simp
    then have "PREV_BLKP (PUT ?m3 (of_nat (xp + fst ?b - 8)) ?t) (of_nat x) = PREV_BLKP m2 (of_nat x)"
      by (rule PREV_cong [OF x4(3)])
    then show ?thesis using r2(6) by simp
  qed
  have call: "coalesce s (of_nat x) = ret (s\<lparr>heap := ?m4, tree_root := r2\<rparr>, of_nat xp)"
    unfolding coalesce_def Let_def
    apply (simp only: r ntag_def rn fs rm1 fst_conv snd_conv
        if_True if_False simp_thms list.sel list.simps bnd_ret split_conv one_neq_zero)
    apply (simp only: r1 rm2 bnd_ret split_conv)
    apply (simp only: r2 pk HDRP_of_nat [OF x4(1)] n3 f3 p4 retag_def)
    done
  have T: "tot [(ps, False), (cs, False), (ns, False)] = ps + cs + ns" by simp
  have m: "heap_ok (?s2\<lparr>heap := ?m4\<rparr>) lo
      (pre @ (tot [(ps, False), (cs, False), (ns, False)], False) # post) {xp}"
    by (rule heap_ok_merge [OF _ pre _ xp]) (use ok2 x in \<open>auto simp add: add.assoc\<close>)
  have eq: "?s2\<lparr>heap := ?m4\<rparr> = s\<lparr>heap := ?m4, tree_root := r2\<rparr>" by simp
  have ok3: "heap_ok (s\<lparr>heap := ?m4, tree_root := r2\<rparr>) lo (pre @ (ps + cs + ns, False) # post) {xp}"
    using m unfolding eq T .
  have c1: "chg ?m m1 (links (?F - {x} - {?xn}))"
    unfolding links_def
    by (rule chg_frame_links [OF f1]) (use wsepD1 [OF ws] in auto)
  have c2: "chg m1 m2 (links (?F - {x, ?xn} - {xp}))"
    unfolding links_def
    by (rule chg_frame_links [OF f2]) (use wsepD1 [OF ws] in auto)
  have c3: "chg m2 ?m4 ({xp - 4..<xp} \<union> {xp + fst ?b - 8..<xp + fst ?b - 4})"
    by (rule chg_retag) (use x4 sz e E x xp in auto)
  have "chg ?m ?m4 (links (?F - {x} - {?xn}) \<union> links (?F - {x, ?xn} - {xp})
       \<union> ({xp - 4..<xp} \<union> {xp + fst ?b - 8..<xp + fst ?b - 4}))"
    by (rule chg_trans [OF chg_trans [OF c1 c2] c3])
  then have c: "chg ?m ?m4 (links (?F - {x}) \<union> {xp - 4..<xp}
       \<union> {xp + (ps + cs + ns) - 8..<xp + (ps + cs + ns) - 4})"
    by (rule chg_mono) (auto simp add: links_def)
  show ?thesis using call ok3 c by (intro exI [of _ ?m4] exI [of _ r2]) simp
qed

text \<open>The four-case table, on the block sequence.\<close>

definition co_prev :: "(nat \<times> bool) list \<Rightarrow> nat" where
  "co_prev pre = (if snd (last pre) then 0 else fst (last pre))"

definition co_next :: "(nat \<times> bool) list \<Rightarrow> nat" where
  "co_next post = (if snd (ntag post) then 0 else fst (ntag post))"

definition co_pre :: "(nat \<times> bool) list \<Rightarrow> (nat \<times> bool) list" where
  "co_pre pre = (if snd (last pre) then pre else butlast pre)"

definition co_post :: "(nat \<times> bool) list \<Rightarrow> (nat \<times> bool) list" where
  "co_post post = (if snd (ntag post) then post else tl post)"

lemma co_post_cases:
  obtains (A) "snd (ntag post)" "co_next post = 0" "co_post post = post"
  | (F) ns post' where "post = (ns, False) # post'" "co_next post = ns" "co_post post = post'"
    "\<not> snd (ntag post)"
proof (cases "snd (ntag post)")
  case True
  then show ?thesis by (intro A) (simp_all add: co_next_def co_post_def)
next
  case False
  then obtain b post' where p: "post = b # post'" by (cases post) (auto simp add: ntag_def)
  then have "b = (fst b, False)" using False by (cases b) (simp add: ntag_def)
  then show ?thesis using False p by (intro F [of "fst b" post']) (simp_all add: co_next_def co_post_def ntag_def)
qed

lemma co_pre_cases [consumes 1, case_names A F]:
  assumes "pre \<noteq> []"
  obtains (A) "snd (last pre)" "co_prev pre = 0" "co_pre pre = pre"
  | (F) ps pre' where "pre = pre' @ [(ps, False)]" "co_prev pre = ps" "co_pre pre = pre'"
    "\<not> snd (last pre)"
proof (cases "snd (last pre)")
  case True
  then show ?thesis by (intro A) (simp_all add: co_prev_def co_pre_def)
next
  case False
  obtain pre' b where p: "pre = pre' @ [b]" using assms by (cases pre rule: rev_cases) auto
  then have "b = (fst b, False)" using False by (cases b) simp
  then show ?thesis using False p by (intro F [of pre' "fst b"]) (simp_all add: co_prev_def co_pre_def)
qed

lemma coalesce_correct:
  assumes ok: "heap_ok s lo (pre @ (cs, False) # post) {x}" and x: "x = lo + 8 + tot pre"
  defines "x' \<equiv> x - co_prev pre" and "cs' \<equiv> co_prev pre + cs + co_next post"
  shows "\<exists>m' r'. coalesce s (of_nat x) = ret (s\<lparr>heap := m', tree_root := r'\<rparr>, of_nat x')
           \<and> heap_ok (s\<lparr>heap := m', tree_root := r'\<rparr>) lo (co_pre pre @ (cs', False) # co_post post) {x'}
           \<and> x' = lo + 8 + tot (co_pre pre)
           \<and> chg (heap s) m' (links (set (frees (lo + 8) (pre @ (cs, False) # post)) - {x}
                   - (if snd (ntag post) then {x'} else {}))
                 \<union> {x' - 4..<x'} \<union> {x' + cs' - 8..<x' + cs' - 4})"
proof -
  have pre: "pre \<noteq> []" by (rule heap_ok_free_pre [OF ok])
  from pre show ?thesis
  proof (cases rule: co_pre_cases)
    case pA: A
    show ?thesis
    proof (cases rule: co_post_cases [of post])
      case A
      have "coalesce s (of_nat x) = ret (s, of_nat x)"
        by (rule coalesce_AA [OF ok x pA(1) A(1)])
      moreover have "s\<lparr>heap := heap s, tree_root := tree_root s\<rparr> = s" by simp
      ultimately show ?thesis
        using ok x pA A unfolding x'_def cs'_def
        by (intro exI [of _ "heap s"] exI [of _ "tree_root s"]) simp
    next
      case (F ns post')
      have ok': "heap_ok s lo (pre @ (cs, False) # (ns, False) # post') {x}" using ok F by simp
      show ?thesis
        using coalesce_AF [OF ok' x pA(1)] pA F x unfolding x'_def cs'_def by simp
    qed
  next
    case pF: (F ps pre')
    have xp: "x - ps = lo + 8 + tot pre'" and xx: "x = x - ps + ps" using x pF by simp_all
    show ?thesis
    proof (cases rule: co_post_cases [of post])
      case A
      have ok': "heap_ok s lo (pre' @ (ps, False) # (cs, False) # post) {x}" using ok pF by simp
      show ?thesis
        using coalesce_FA [OF ok' xp xx A(1)] pF A xp unfolding x'_def cs'_def by simp
    next
      case (F ns post')
      have ok': "heap_ok s lo (pre' @ (ps, False) # (cs, False) # (ns, False) # post') {x}"
        using ok pF F by simp
      show ?thesis
        using coalesce_FF [OF ok' xp xx] pF F xp unfolding x'_def cs'_def by simp
    qed
  qed
qed

lemma noadj_append:
  "noadj (as @ bs) \<longleftrightarrow> noadj as \<and> noadj bs \<and> (as = [] \<or> bs = [] \<or> snd (last as) \<or> snd (hd bs))"
proof (induction as rule: noadj.induct)
  case 1
  then show ?case by simp
next
  case (2 b)
  then show ?case by (cases bs) auto
next
  case (3 b c cs)
  then show ?case by auto
qed

lemma noadj_co:
  assumes "noadj pre" "noadj post" "pre \<noteq> []" "hd pre = (8, True)"
  shows "noadj (co_pre pre @ (c, False) # co_post post)"
    "co_pre pre \<noteq> []" "snd (last (co_pre pre))" "snd (ntag (co_post post))"
proof -
  from assms(3) have a: "co_pre pre \<noteq> [] \<and> snd (last (co_pre pre)) \<and> noadj (co_pre pre)"
  proof (cases rule: co_pre_cases)
    case A
    then show ?thesis using assms by simp
  next
    case (F ps pre')
    then have "pre' \<noteq> []" using assms(4) by (cases pre') auto
    then show ?thesis using F assms(1) by (simp add: noadj_append)
  qed
  have b: "snd (ntag (co_post post)) \<and> noadj (co_post post)"
  proof (cases rule: co_post_cases [of post])
    case A
    then show ?thesis using assms by simp
  next
    case (F ns post')
    then show ?thesis using assms(2) by (cases post') (auto simp add: ntag_def)
  qed
  show "co_pre pre \<noteq> []" "snd (last (co_pre pre))" "snd (ntag (co_post post))"
    using a b by simp_all
  have "noadj ((c, False) # co_post post)"
    using b by (cases "co_post post") (auto simp add: ntag_def)
  then show "noadj (co_pre pre @ (c, False) # co_post post)"
    using a by (simp add: noadj_append)
qed

lemma heap_ok_index:
  assumes ok: "heap_ok s lo (pre @ b # post) {x}" and x: "x = lo + 8 + tot pre" and b: "\<not> snd b"
  shows "tree_ok (heap s) (tree_root s) (set (frees (lo + 8) pre) \<union> set (frees (x + fst b) post))"
    "x \<notin> set (frees (lo + 8) pre) \<union> set (frees (x + fst b) post)"
proof -
  note sp = heap_ok_split [OF ok, folded x]
  have a: "y + 16 \<le> x" if "y \<in> set (frees (lo + 8) pre)" for y
    using frees_bounds [OF sp(1) that] by simp
  have c: "x + fst b \<le> y" if "y \<in> set (frees (x + fst b) post)" for y
    using frees_bounds [OF sp(3) that] by simp
  have sz: "8 \<le> fst b" using sp(2) by (simp add: blk_def)
  show n: "x \<notin> set (frees (lo + 8) pre) \<union> set (frees (x + fst b) post)"
    using a [of x] c [of x] sz by auto
  have "set (frees (lo + 8) (pre @ b # post)) - {x}
      = set (frees (lo + 8) pre) \<union> set (frees (x + fst b) post)"
    using n b by (auto simp add: frees_append x)
  then show "tree_ok (heap s) (tree_root s) (set (frees (lo + 8) pre) \<union> set (frees (x + fst b) post))"
    using heap_ok_tree [OF ok] by simp
qed

text \<open>
  C5. Let the heap be well formed, with the block \<open>bp\<close> at \<open>x\<close> free in both tags and
  the only free block missing from the index, and no two adjacent free blocks elsewhere.
  Then \<^verbatim>\<open>coalesce(bp)\<close> returns, following the table on the allocation flags of the
  previous block's footer and the next block's header: a free neighbour is taken out of
  the index and its size (\<open>co_prev\<close>, \<open>co_next\<close>; 0 for an allocated neighbour) is added.
  The block returned starts at the previous block if that one was free; its header and
  footer agree, free, with the sum of the merged sizes; both its neighbours are now
  allocated; it is not in the index, which holds exactly the other free blocks.
\<close>

theorem coalesce_spec:
  assumes "heap_ok s lo (pre @ (cs, False) # post) {x}" and "x = lo + 8 + tot pre"
    and "noadj pre" and "noadj post"
  shows "\<exists>s'. coalesce s (of_nat x) = ret (s', of_nat (x - co_prev pre))
     \<and> (GET_ALLOC (heap s) (FTRP (heap s) (PREV_BLKP (heap s) (of_nat x))) = 0 \<longleftrightarrow> \<not> snd (last pre))
     \<and> (GET_ALLOC (heap s) (HDRP (NEXT_BLKP (heap s) (of_nat x))) = 0 \<longleftrightarrow> \<not> snd (ntag post))
     \<and> heap_ok s' lo (co_pre pre @ (co_prev pre + cs + co_next post, False) # co_post post)
          {x - co_prev pre}
     \<and> blk (heap s') (x - co_prev pre) (co_prev pre + cs + co_next post, False)
     \<and> snd (last (co_pre pre)) \<and> snd (ntag (co_post post))
     \<and> noadj (co_pre pre @ (co_prev pre + cs + co_next post, False) # co_post post)
     \<and> tree_ok (heap s') (tree_root s')
          (set (frees (lo + 8) (co_pre pre)) \<union> set (frees (x + cs + co_next post) (co_post post)))
     \<and> x - co_prev pre \<notin> set (frees (lo + 8) (co_pre pre)) \<union> set (frees (x + cs + co_next post) (co_post post))"
proof -
  let ?x = "x - co_prev pre" and ?c = "co_prev pre + cs + co_next post"
  have pre: "pre \<noteq> []" by (rule heap_ok_free_pre [OF assms(1)])
  have hd: "hd pre = (8, True)" using assms(1) pre by (cases pre) (auto simp add: heap_ok_def)
  obtain m' r' where c: "coalesce s (of_nat x) = ret (s\<lparr>heap := m', tree_root := r'\<rparr>, of_nat ?x)"
    and ok: "heap_ok (s\<lparr>heap := m', tree_root := r'\<rparr>) lo (co_pre pre @ (?c, False) # co_post post) {?x}"
    and x': "?x = lo + 8 + tot (co_pre pre)"
    using coalesce_correct [OF assms(1,2)] by blast
  let ?s = "s\<lparr>heap := m', tree_root := r'\<rparr>"
  note n = noadj_co [OF assms(3,4) pre hd]
  note r = heap_reads [OF assms(1) pre, folded assms(2), simplified fst_conv snd_conv]
  have "fst (last pre) \<le> x" using r(13) by arith
  then have le: "co_prev pre \<le> x" by (simp add: co_prev_def)
  have xe: "?x + ?c = x + cs + co_next post" using le by simp
  have i: "tree_ok (heap ?s) (tree_root ?s)
      (set (frees (lo + 8) (co_pre pre)) \<union> set (frees (?x + fst (?c, False)) (co_post post)))"
    "?x \<notin> set (frees (lo + 8) (co_pre pre)) \<union> set (frees (?x + fst (?c, False)) (co_post post))"
    using heap_ok_index [OF ok x'] by simp_all
  have b: "blk (heap ?s) ?x (?c, False)" using heap_ok_split(2) [OF ok] x' by simp
  have f1: "GET_ALLOC (heap s) (FTRP (heap s) (PREV_BLKP (heap s) (of_nat x))) = 0 \<longleftrightarrow> \<not> snd (last pre)"
    by (simp only: r) simp
  have f2: "GET_ALLOC (heap s) (HDRP (NEXT_BLKP (heap s) (of_nat x))) = 0 \<longleftrightarrow> \<not> snd (ntag post)"
    by (simp only: r) simp
  show ?thesis
    using c ok n(1,3,4) i b f1 f2 unfolding fst_conv xe by (intro exI [of _ ?s]) blast
qed

definition coalesce_example :: state where
  "coalesce_example =
     \<lparr>heap = PUT (PUT (PUT (PUT (PUT (PUT (PUT (\<lambda>_. 0) 12 9) 16 9) 20 16) 32 16) 36 16) 48 16) 52 1,
      heap_listp = 16, tree_root = 40, mem_brk = 56, mem_max_addr = 56, mem_fail = - 1\<rparr>"

lemma coalesce_example_ok:
  "heap_ok coalesce_example 8 ([(8, True)] @ (16, False) # [(16, False)]) {24}"
proof -
  let ?m = "heap coalesce_example"
  have g: "GET ?m 12 = 9" "GET ?m 16 = 9" "GET ?m 20 = 16" "GET ?m 32 = 16" "GET ?m 36 = 16"
    "GET ?m 48 = 16" "GET ?m 52 = 1" "GET ?m 40 = 0" "GET ?m 44 = 0"
    by (simp_all add: coalesce_example_def GET_def PUT_def)
  have t: "tag (8, True) = 9" "tag (16, False) = 16" by (simp_all add: tag_def PACK_def)
  have c: "cseg ?m 16 [(8, True), (16, False), (16, False)] 56"
    using g by (simp add: blk_def W_def t)
  have "Tree ?m 40 (Node Leaf 40 Leaf) \<and> ordered ?m (Node Leaf 40 Leaf)"
    using g by (simp add: LEFT_def RIGHT_def WSIZE_def)
  then have tr: "tree_ok ?m 40 {40}" unfolding tree_ok_def by (intro exI [of _ "Node Leaf 40 Leaf"]) simp
  have "set (frees 16 [(8, True), (16, False), (16, False)]) - {24} = {40 :: nat}" by auto
  then show ?thesis
    using c tr g(7) by (simp add: heap_ok_def W_def) (simp add: coalesce_example_def)
qed

theorem coalesce_spec_witness:
  "heap_ok coalesce_example 8 ([(8, True)] @ (16, False) # [(16, False)]) {24}
   \<and> noadj [(8, True)] \<and> noadj [(16, False)]
   \<and> (\<exists>s'. coalesce coalesce_example 24 = ret (s', 24)
        \<and> heap_ok s' 8 [(8, True), (32, False)] {24} \<and> blk (heap s') 24 (32, False)
        \<and> tree_ok (heap s') (tree_root s') {})"
proof -
  have "co_prev [(8, True)] = 0" "co_pre [(8, True)] = [(8, True)]"
    "co_next [(16, False)] = 16" "co_post [(16, False)] = []"
    by (simp_all add: co_prev_def co_pre_def co_next_def co_post_def ntag_def)
  then show ?thesis
    using coalesce_spec [OF coalesce_example_ok] coalesce_example_ok by auto
qed

subsection \<open>Placement\<close>

lemma heap_ok_insert:
  assumes ok: "heap_ok s lo bs {y}" and y: "y \<in> set (frees (lo + 8) bs)"
  shows "\<exists>m' r'. mm_insert (heap s) (tree_root s) (of_nat y) = ret (m', r')
           \<and> heap_ok (s\<lparr>heap := m', tree_root := r'\<rparr>) lo bs {}
           \<and> chg (heap s) m' (links (set (frees (lo + 8) bs)))
           \<and> r' = (if tree_root s = NULL then of_nat y else tree_root s)"
proof -
  let ?F = "set (frees (lo + 8) bs)"
  have ws: "wsep ?F" by (rule heap_ok_wsep [OF ok])
  have tr: "tree_ok (heap s) (tree_root s) (?F - {y})" by (rule heap_ok_tree [OF ok])
  have iy: "insert y (?F - {y}) = ?F" using y by auto
  have ws': "wsep (insert y (?F - {y}))" using ws iy by simp
  obtain m' r' where i: "mm_insert (heap s) (tree_root s) (of_nat y) = ret (m', r')"
    and t: "tree_ok m' r' (insert y (?F - {y}))"
    and f: "frame (lcells (of_nat ` insert y (?F - {y}))) (heap s) m'"
    and r: "r' = (if tree_root s = NULL then of_nat y else tree_root s)"
    using tree_ok_insert [OF tr _ ws'] by blast
  have t': "tree_ok m' r' (?F - {})" using t unfolding iy by simp
  have f': "frame (lcells (of_nat ` ?F)) (heap s) m'" using f unfolding iy .
  have ok': "heap_ok (s\<lparr>heap := m', tree_root := r'\<rparr>) lo bs {}"
    by (rule heap_ok_tree_step [OF ok f' _ t']) simp
  have c: "chg (heap s) m' (links ?F)"
    unfolding links_def by (rule chg_frame_links [OF f']) (use wsepD1 [OF ws] in auto)
  show ?thesis using i ok' c r by blast
qed

lemma heap_ok_split2:
  assumes ok: "heap_ok s lo (pre @ (cs, False) # post) {x}" and x: "x = lo + 8 + tot pre"
    and sz: "fst b1 + fst b2 = cs" "16 \<le> fst b1" "16 \<le> fst b2" "8 dvd fst b1" "8 dvd fst b2"
  defines "m' \<equiv> retag (retag (heap s) x b1) (x + fst b1) b2"
  shows "heap_ok (s\<lparr>heap := m'\<rparr>) lo (pre @ b1 # b2 # post) (set (frees x [b1, b2]))"
    "chg (heap s) m' ({x - 4..<x} \<union> {x + fst b1 - 8..<x + fst b1} \<union> {x + cs - 8..<x + cs - 4})"
    "NEXT_BLKP (retag (heap s) x b1) (of_nat x) = of_nat (x + fst b1)"
proof -
  let ?m = "heap s" and ?E = "unat (mem_brk s)"
  let ?m1 = "retag ?m x b1"
  have pre: "pre \<noteq> []" by (rule heap_ok_free_pre [OF ok])
  note sp = heap_ok_split [OF ok, folded x, simplified fst_conv]
  have lo: "8 \<le> lo" using ok by (simp add: heap_ok_def)
  have x4: "4 \<le> x" using x lo by simp
  have xe: "x + cs \<le> 2 ^ 32" using sp(4,5) by simp
  have b1: "blk ?m1 x b1" by (rule blk_retag) (use x4 sz xe in auto)
  show "NEXT_BLKP ?m1 (of_nat x) = of_nat (x + fst b1)" by (rule blk_NEXT [OF b1 x4])
  have o2: "outside ?m1 m' (x + fst b1 - 4) (x + cs - 4)"
    unfolding m'_def by (rule outside_retag) (use x4 sz xe in auto)
  have "cseg ?m1 x [b1] (x + fst b1)" using b1 by simp
  then have "cseg m' x [b1] (x + fst b1)"
    by (rule cseg_outside [OF _ o2]) (use x4 sz xe in auto)
  moreover have "blk m' (x + fst b1) b2"
    unfolding m'_def by (rule blk_retag) (use x4 sz xe in auto)
  ultimately have c: "cseg m' x [b1, b2] (x + tot [(cs, False)])" using sz by simp
  have o1: "outside ?m ?m1 (x - 4) (x + cs - 4)"
    by (rule outside_retag) (use x4 sz xe in auto)
  have o2': "outside ?m1 m' (x - 4) (x + cs - 4)"
    unfolding m'_def by (rule outside_retag) (use x4 sz xe in auto)
  have o: "outside ?m m' (x - 4) (x + tot [(cs, False)] - 4)"
    using outside_trans [OF o1 o2'] by simp
  have ok': "heap_ok s lo (pre @ [(cs, False)] @ post) {x}" using ok by simp
  have "heap_ok (s\<lparr>heap := m'\<rparr>) lo (pre @ [b1, b2] @ post) (set (frees x [b1, b2]))"
  proof (rule heap_ok_retag [OF ok' pre x refl o c])
    show "\<forall>b\<in>set [b1, b2]. 16 \<le> fst b" using sz by simp
    show "\<And>y. y \<in> set (frees x [(cs, False)]) \<Longrightarrow> y \<in> {x}" by simp
    have a: "y + 16 \<le> x" if "y \<in> set (frees (lo + 8) pre)" for y
      using frees_bounds [OF sp(1) that] by simp
    have b: "x + cs \<le> y" if "y \<in> set (frees (x + cs) post)" for y
      using frees_bounds [OF sp(3) that] by simp
    have d1: "set (frees (lo + 8) pre) \<inter> {x, x + fst b1} = {}" using a by fastforce
    have d2: "set (frees (x + cs) post) \<inter> {x, x + fst b1} = {}" using b sz by fastforce
    have s1: "set (frees x [b1, b2]) \<subseteq> {x, x + fst b1}" by auto
    have "set (frees (lo + 8) (pre @ [b1, b2] @ post))
        = set (frees (lo + 8) pre) \<union> set (frees x [b1, b2]) \<union> set (frees (x + cs) post)"
      unfolding frees_mid x [symmetric] using sz by simp
    moreover have "set (frees (lo + 8) (pre @ [(cs, False)] @ post))
        = set (frees (lo + 8) pre) \<union> {x} \<union> set (frees (x + cs) post)"
      unfolding frees_mid x [symmetric] by simp
    ultimately show "set (frees (lo + 8) (pre @ [b1, b2] @ post)) - set (frees x [b1, b2])
        = set (frees (lo + 8) (pre @ [(cs, False)] @ post)) - {x}"
      using d1 d2 s1 by blast
  qed
  then show "heap_ok (s\<lparr>heap := m'\<rparr>) lo (pre @ b1 # b2 # post) (set (frees x [b1, b2]))" by simp
  have c1: "chg ?m ?m1 ({x - 4..<x} \<union> {x + fst b1 - 8..<x + fst b1 - 4})"
    by (rule chg_retag) (use x4 sz xe in auto)
  have c2: "chg ?m1 m' ({x + fst b1 - 4..<x + fst b1} \<union> {x + fst b1 + fst b2 - 8..<x + fst b1 + fst b2 - 4})"
    unfolding m'_def by (rule chg_retag) (use x4 sz xe in auto)
  show "chg ?m m' ({x - 4..<x} \<union> {x + fst b1 - 8..<x + fst b1} \<union> {x + cs - 8..<x + cs - 4})"
    by (rule chg_mono [OF chg_trans [OF c1 c2]]) (use sz in auto)
qed

lemma heap_ok_mark:
  assumes ok: "heap_ok s lo (pre @ (cs, False) # post) {x}" and x: "x = lo + 8 + tot pre"
  defines "m' \<equiv> retag (heap s) x (cs, True)"
  shows "heap_ok (s\<lparr>heap := m'\<rparr>) lo (pre @ (cs, True) # post) {}"
    "chg (heap s) m' ({x - 4..<x} \<union> {x + cs - 8..<x + cs - 4})"
proof -
  let ?m = "heap s"
  have pre: "pre \<noteq> []" by (rule heap_ok_free_pre [OF ok])
  note sp = heap_ok_split [OF ok, folded x, simplified fst_conv]
  have lo: "8 \<le> lo" using ok by (simp add: heap_ok_def)
  have x4: "4 \<le> x" using x lo by simp
  have xe: "x + cs \<le> 2 ^ 32" using sp(4,5) by simp
  have sz: "16 \<le> cs" "8 dvd cs" using sp(2) by (simp_all add: blk_def)
  have b: "blk m' x (cs, True)" unfolding m'_def by (rule blk_retag) (use x4 sz xe in auto)
  have o: "outside ?m m' (x - 4) (x + tot [(cs, False)] - 4)"
    unfolding m'_def by (rule outside_retag) (use x4 sz xe in auto)
  have c: "cseg m' x [(cs, True)] (x + tot [(cs, False)])" using b by simp
  have ok': "heap_ok s lo (pre @ [(cs, False)] @ post) {x}" using ok by simp
  have "heap_ok (s\<lparr>heap := m'\<rparr>) lo (pre @ [(cs, True)] @ post) {}"
  proof (rule heap_ok_retag [OF ok' pre x refl o c])
    show "\<forall>b\<in>set [(cs, True)]. 16 \<le> fst b" using sz by simp
    show "\<And>y. y \<in> set (frees x [(cs, False)]) \<Longrightarrow> y \<in> {x}" by simp
    have a: "y + 16 \<le> x" if "y \<in> set (frees (lo + 8) pre)" for y
      using frees_bounds [OF sp(1) that] by simp
    have b: "x + cs \<le> y" if "y \<in> set (frees (x + cs) post)" for y
      using frees_bounds [OF sp(3) that] by simp
    have d1: "x \<notin> set (frees (lo + 8) pre)" using a by fastforce
    have d2: "x \<notin> set (frees (x + cs) post)" using b sz by fastforce
    show "set (frees (lo + 8) (pre @ [(cs, True)] @ post)) - {}
        = set (frees (lo + 8) (pre @ [(cs, False)] @ post)) - {x}"
      unfolding frees_mid x [symmetric] using d1 d2 by auto
  qed
  then show "heap_ok (s\<lparr>heap := m'\<rparr>) lo (pre @ (cs, True) # post) {}" by simp
  show "chg ?m m' ({x - 4..<x} \<union> {x + cs - 8..<x + cs - 4})"
    using chg_retag(1) [of x "(cs, True)" ?m] x4 sz xe unfolding m'_def by simp
qed

lemma word_le_of_nat:
  "a < 2 ^ 32 \<Longrightarrow> b < 2 ^ 32 \<Longrightarrow> (of_nat a :: 32 word) \<le> of_nat b \<longleftrightarrow> a \<le> b"
  by (simp add: word_le_nat_alt unat_of_nat32)

lemma word_sless_of_nat:
  "a < 2 ^ 31 \<Longrightarrow> b < 2 ^ 31 \<Longrightarrow> (of_nat a :: 32 word) <s of_nat b \<longleftrightarrow> a < b"
  by (simp add: word_sless_alt sint_of_nat31)

lemma last_le_tot: "bs \<noteq> [] \<Longrightarrow> fst (last bs) \<le> tot bs"
  by (induction bs) auto

lemma ntag_le_tot: "fst (ntag bs) \<le> tot bs"
  by (cases bs) (auto simp add: ntag_def)

text \<open>The three outcomes of placement, on the block sequence.\<close>

definition place_split :: "nat \<Rightarrow> nat \<Rightarrow> bool" where
  "place_split cs a \<longleftrightarrow> 48 \<le> cs - a"

definition place_front :: "(nat \<times> bool) list \<Rightarrow> (nat \<times> bool) list \<Rightarrow> bool" where
  "place_front pre post \<longleftrightarrow> fst (last pre) < fst (ntag post)"

definition place_list :: "(nat \<times> bool) list \<Rightarrow> (nat \<times> bool) list \<Rightarrow> nat \<Rightarrow> nat \<Rightarrow> (nat \<times> bool) list" where
  "place_list pre post cs a =
     (if \<not> place_split cs a then [(cs, True)]
      else if place_front pre post then [(a, True), (cs - a, False)]
      else [(cs - a, False), (a, True)])"

definition place_off :: "(nat \<times> bool) list \<Rightarrow> (nat \<times> bool) list \<Rightarrow> nat \<Rightarrow> nat \<Rightarrow> nat" where
  "place_off pre post cs a =
     (if place_split cs a \<and> \<not> place_front pre post then cs - a else 0)"

definition place_chg :: "nat \<Rightarrow> (nat \<times> bool) list \<Rightarrow> (nat \<times> bool) list \<Rightarrow> nat \<Rightarrow> nat \<Rightarrow> nat set" where
  "place_chg x pre post cs a =
     {x - 4..<x} \<union> {x + cs - 8..<x + cs - 4}
     \<union> (if place_split cs a
         then {x + fst (hd (place_list pre post cs a)) - 8..<x + fst (hd (place_list pre post cs a))}
         else {})"

lemma place_reads:
  assumes ok: "heap_ok s lo (pre @ (cs, False) # post) {x}" and x: "x = lo + 8 + tot pre"
    and a: "a \<le> cs"
  shows "6 * OVERHEAD \<le> GET_SIZE (heap s) (HDRP (of_nat x)) - of_nat a \<longleftrightarrow> place_split cs a"
    "GETSIZE (heap s) (PREV_BLKP (heap s) (of_nat x)) <s GETSIZE (heap s) (NEXT_BLKP (heap s) (of_nat x))
       \<longleftrightarrow> place_front pre post"
proof -
  have pre: "pre \<noteq> []" by (rule heap_ok_free_pre [OF ok])
  note r = heap_reads [OF ok pre, folded x, simplified fst_conv snd_conv]
  note sp = heap_ok_split [OF ok, folded x, simplified fst_conv]
  have "(of_nat cs :: 32 word) - of_nat a = of_nat (cs - a)" using a by (simp add: of_nat_diff)
  moreover have "cs - a < 2 ^ 32" using sp(4,5) by simp
  moreover have "(48 :: 32 word) = of_nat 48" by simp
  ultimately have "(48 :: 32 word) \<le> of_nat cs - of_nat a \<longleftrightarrow> 48 \<le> cs - a"
    using word_le_of_nat [of 48 "cs - a"] by simp
  then show "6 * OVERHEAD \<le> GET_SIZE (heap s) (HDRP (of_nat x)) - of_nat a \<longleftrightarrow> place_split cs a"
    by (simp only: r place_split_def OVERHEAD_def) simp
  have "fst (last pre) < 2 ^ 31" using last_le_tot [OF pre] sp(4,7) x by simp
  moreover have "fst (ntag post) < 2 ^ 31" using ntag_le_tot [of post] sp(4,7) x by simp
  ultimately have "(of_nat (fst (last pre)) :: 32 word) <s of_nat (fst (ntag post))
      \<longleftrightarrow> fst (last pre) < fst (ntag post)"
    by (rule word_sless_of_nat)
  then show "GETSIZE (heap s) (PREV_BLKP (heap s) (of_nat x)) <s GETSIZE (heap s) (NEXT_BLKP (heap s) (of_nat x))
       \<longleftrightarrow> place_front pre post"
    by (simp only: r place_front_def)
qed

lemma retag_PUT:
  assumes "4 \<le> x" "8 dvd fst b" "8 \<le> fst b"
  shows "PUT (PUT m (of_nat (x - 4)) (tag b)) (FTRP (PUT m (of_nat (x - 4)) (tag b)) (of_nat x)) (tag b)
      = retag m x b"
  unfolding retag_def FTRP_PUT_hdr [OF assms] ..

lemma place_correct:
  assumes ok: "heap_ok s lo (pre @ (cs, False) # post) {x}" and x: "x = lo + 8 + tot pre"
    and a: "16 \<le> a" "8 dvd a" "a \<le> cs"
  shows "\<exists>m' r'. place s (of_nat x) (of_nat a)
             = ret (s\<lparr>heap := m', tree_root := r'\<rparr>, of_nat (x + place_off pre post cs a))
           \<and> heap_ok (s\<lparr>heap := m', tree_root := r'\<rparr>) lo (pre @ place_list pre post cs a @ post) {}
           \<and> chg (heap s) m' (links (set (frees (lo + 8) (pre @ place_list pre post cs a @ post)))
                 \<union> place_chg x pre post cs a)"
proof -
  let ?m = "heap s"
  have pre: "pre \<noteq> []" by (rule heap_ok_free_pre [OF ok])
  note r = heap_reads [OF ok pre, folded x, simplified fst_conv snd_conv]
  note sp = heap_ok_split [OF ok, folded x, simplified fst_conv]
  note pr = place_reads [OF ok x a(3)]
  have x4: "4 \<le> x" using r by simp
  have sz: "16 \<le> cs" "8 dvd cs" using sp(2) by (simp_all add: blk_def)
  have xe: "x + cs \<le> 2 ^ 32" using sp(4,5) by simp
  have hx: "HDRP (of_nat x) = of_nat (x - 4)" by (rule HDRP_of_nat [OF x4])
  show ?thesis
  proof (cases "place_split cs a")
    case False
    let ?m2 = "retag ?m x (cs, True)"
    have pk: "PACK (of_nat cs) 1 = tag (cs, True)" by (rule PACK_tag)
    have rt: "PUT (PUT ?m (of_nat (x - 4)) (tag (cs, True)))
        (FTRP (PUT ?m (of_nat (x - 4)) (tag (cs, True))) (of_nat x)) (tag (cs, True)) = ?m2"
      by (rule retag_PUT) (use x4 sz in simp_all)
    have call: "place s (of_nat x) (of_nat a)
        = ret (s\<lparr>heap := ?m2, tree_root := tree_root s\<rparr>, of_nat x)"
      unfolding place_def Let_def
      apply (simp only: pr False if_False)
      apply (simp only: r)
      apply (simp only: pk hx rt)
      apply simp
      done
    note hm0 = heap_ok_mark [OF ok x]
    have hm: "heap_ok (s\<lparr>heap := ?m2, tree_root := tree_root s\<rparr>) lo (pre @ (cs, True) # post) {}"
      "chg ?m ?m2 ({x - 4..<x} \<union> {x + cs - 8..<x + cs - 4})"
      using hm0 by simp_all
    have pl: "place_list pre post cs a = [(cs, True)]" "place_off pre post cs a = 0"
      "place_chg x pre post cs a = {x - 4..<x} \<union> {x + cs - 8..<x + cs - 4}"
      using False by (simp_all add: place_list_def place_off_def place_chg_def)
    have c: "chg ?m ?m2 (links (set (frees (lo + 8) (pre @ [(cs, True)] @ post)))
                 \<union> place_chg x pre post cs a)"
      by (rule chg_mono [OF hm(2)]) (simp add: pl)
    show ?thesis
      using call hm(1) c unfolding pl
      by (intro exI [of _ ?m2] exI [of _ "tree_root s"]) simp
  next
    case True
    then have rem: "48 \<le> cs - a" by (simp add: place_split_def)
    have dr: "8 dvd cs - a" using sz(2) a(2) by (rule dvd_diff_nat)
    show ?thesis
    proof (cases "place_front pre post")
      case front: True
      let ?b1 = "(a, True)" and ?b2 = "(cs - a, False)"
      let ?m2 = "retag ?m x ?b1"
      let ?m4 = "retag ?m2 (x + a) ?b2"
      have s2: "heap_ok (s\<lparr>heap := ?m4\<rparr>) lo (pre @ ?b1 # ?b2 # post) (set (frees x [?b1, ?b2]))"
        "chg ?m ?m4 ({x - 4..<x} \<union> {x + a - 8..<x + a} \<union> {x + cs - 8..<x + cs - 4})"
        "NEXT_BLKP ?m2 (of_nat x) = of_nat (x + a)"
        using heap_ok_split2 [OF ok x, of ?b1 ?b2] a rem dr by simp_all
      have ok4: "heap_ok (s\<lparr>heap := ?m4\<rparr>) lo (pre @ ?b1 # ?b2 # post) {x + a}" using s2(1) by simp
      have yF: "x + a \<in> set (frees (lo + 8) (pre @ ?b1 # ?b2 # post))"
        by (simp add: frees_append x)
      obtain m5 r5 where i: "mm_insert ?m4 (tree_root s) (of_nat (x + a)) = ret (m5, r5)"
        and ok5: "heap_ok (s\<lparr>heap := ?m4\<rparr>\<lparr>heap := m5, tree_root := r5\<rparr>) lo (pre @ ?b1 # ?b2 # post) {}"
        and c5: "chg ?m4 m5 (links (set (frees (lo + 8) (pre @ ?b1 # ?b2 # post))))"
        using heap_ok_insert [OF ok4 yF] by auto
      have pk: "PACK (of_nat a) 1 = tag ?b1" "PACK (of_nat cs - of_nat a) 0 = tag ?b2"
        using PACK_tag [of a] PACK_tag [of "cs - a"] a by (simp_all add: of_nat_diff)
      have rt1: "PUT (PUT ?m (of_nat (x - 4)) (tag ?b1))
          (FTRP (PUT ?m (of_nat (x - 4)) (tag ?b1)) (of_nat x)) (tag ?b1) = ?m2"
        by (rule retag_PUT) (use x4 a in simp_all)
      have hn: "HDRP (of_nat (x + a)) = of_nat (x + a - 4)" by (rule HDRP_of_nat) (use x4 in simp)
      have rt2: "PUT (PUT ?m2 (of_nat (x + a - 4)) (tag ?b2))
          (FTRP (PUT ?m2 (of_nat (x + a - 4)) (tag ?b2)) (of_nat (x + a))) (tag ?b2) = ?m4"
        by (rule retag_PUT) (use x4 a rem dr in simp_all)
      have call: "place s (of_nat x) (of_nat a) = ret (s\<lparr>heap := m5, tree_root := r5\<rparr>, of_nat x)"
        unfolding place_def Let_def
        apply (simp only: pr True front if_True)
        apply (simp only: r)
        apply (simp only: pk hx rt1 s2(3) hn rt2 i bnd_ret split_conv)
        done
      have eq: "s\<lparr>heap := ?m4\<rparr>\<lparr>heap := m5, tree_root := r5\<rparr> = s\<lparr>heap := m5, tree_root := r5\<rparr>"
        by simp
      have pl: "place_list pre post cs a = [?b1, ?b2]" "place_off pre post cs a = 0"
        using True front by (simp_all add: place_list_def place_off_def)
      have pc: "place_chg x pre post cs a
          = {x - 4..<x} \<union> {x + cs - 8..<x + cs - 4} \<union> {x + fst ?b1 - 8..<x + fst ?b1}"
        using True by (simp add: place_chg_def pl)
      have c: "chg ?m m5 (links (set (frees (lo + 8) (pre @ [?b1, ?b2] @ post)))
                 \<union> place_chg x pre post cs a)"
        by (rule chg_mono [OF chg_trans [OF s2(2) c5]]) (unfold pc fst_conv append.simps, blast)
      show ?thesis
        using call ok5 c unfolding eq pl
        by (intro exI [of _ m5] exI [of _ r5]) simp
    next
      case tail: False
      let ?b1 = "(cs - a, False)" and ?b2 = "(a, True)"
      let ?m2 = "retag ?m x ?b1"
      let ?m4 = "retag ?m2 (x + (cs - a)) ?b2"
      have s2: "heap_ok (s\<lparr>heap := ?m4\<rparr>) lo (pre @ ?b1 # ?b2 # post) (set (frees x [?b1, ?b2]))"
        "chg ?m ?m4 ({x - 4..<x} \<union> {x + (cs - a) - 8..<x + (cs - a)} \<union> {x + cs - 8..<x + cs - 4})"
        "NEXT_BLKP ?m2 (of_nat x) = of_nat (x + (cs - a))"
        using heap_ok_split2 [OF ok x, of ?b1 ?b2] a rem dr by simp_all
      have ok4: "heap_ok (s\<lparr>heap := ?m4\<rparr>) lo (pre @ ?b1 # ?b2 # post) {x}" using s2(1) by simp
      have yF: "x \<in> set (frees (lo + 8) (pre @ ?b1 # ?b2 # post))"
        by (simp add: frees_append x)
      obtain m5 r5 where i: "mm_insert ?m4 (tree_root s) (of_nat x) = ret (m5, r5)"
        and ok5: "heap_ok (s\<lparr>heap := ?m4\<rparr>\<lparr>heap := m5, tree_root := r5\<rparr>) lo (pre @ ?b1 # ?b2 # post) {}"
        and c5: "chg ?m4 m5 (links (set (frees (lo + 8) (pre @ ?b1 # ?b2 # post))))"
        using heap_ok_insert [OF ok4 yF] by auto
      have pk: "PACK (of_nat a) 1 = tag ?b2" "PACK (of_nat cs - of_nat a) 0 = tag ?b1"
        using PACK_tag [of a] PACK_tag [of "cs - a"] a by (simp_all add: of_nat_diff)
      have rt1: "PUT (PUT ?m (of_nat (x - 4)) (tag ?b1))
          (FTRP (PUT ?m (of_nat (x - 4)) (tag ?b1)) (of_nat x)) (tag ?b1) = ?m2"
        by (rule retag_PUT) (use x4 a rem dr in simp_all)
      have hn: "HDRP (of_nat (x + (cs - a))) = of_nat (x + (cs - a) - 4)"
        by (rule HDRP_of_nat) (use x4 in simp)
      have rt2: "PUT (PUT ?m2 (of_nat (x + (cs - a) - 4)) (tag ?b2))
          (FTRP (PUT ?m2 (of_nat (x + (cs - a) - 4)) (tag ?b2)) (of_nat (x + (cs - a)))) (tag ?b2) = ?m4"
        by (rule retag_PUT) (use x4 a rem dr in simp_all)
      have call: "place s (of_nat x) (of_nat a)
          = ret (s\<lparr>heap := m5, tree_root := r5\<rparr>, of_nat (x + (cs - a)))"
        unfolding place_def Let_def
        apply (simp only: pr True tail if_True if_False)
        apply (simp only: r)
        apply (simp only: pk hx rt1 s2(3) hn rt2 i bnd_ret split_conv)
        done
      have eq: "s\<lparr>heap := ?m4\<rparr>\<lparr>heap := m5, tree_root := r5\<rparr> = s\<lparr>heap := m5, tree_root := r5\<rparr>"
        by simp
      have pl: "place_list pre post cs a = [?b1, ?b2]" "place_off pre post cs a = cs - a"
        using True tail by (simp_all add: place_list_def place_off_def)
      have pc: "place_chg x pre post cs a
          = {x - 4..<x} \<union> {x + cs - 8..<x + cs - 4} \<union> {x + fst ?b1 - 8..<x + fst ?b1}"
        using True by (simp add: place_chg_def pl)
      have c: "chg ?m m5 (links (set (frees (lo + 8) (pre @ [?b1, ?b2] @ post)))
                 \<union> place_chg x pre post cs a)"
        by (rule chg_mono [OF chg_trans [OF s2(2) c5]]) (unfold pc fst_conv append.simps, blast)
      show ?thesis
        using call ok5 c unfolding eq pl
        by (intro exI [of _ m5] exI [of _ r5]) simp
    qed
  qed
qed

text \<open>
  C6. Let the heap be well formed, with the free block \<open>bp\<close> at \<open>x\<close>, of size \<open>cs\<close>, taken
  out of the index, and let \<open>a \<le> cs\<close> be an adjusted size (a multiple of 8, at least 16).
  Then \<^verbatim>\<open>place(bp, a)\<close> returns and leaves a well-formed heap in which every free block
  is in the index. If \<open>cs - a < 48\<close> the whole block is allocated and \<open>bp\<close> returned.
  Otherwise the block is split: if the size in the next block's header is greater than
  the size in the previous block's header, the front part of size \<open>a\<close> is allocated, the
  free remainder of size \<open>cs - a\<close> follows it, and \<open>bp\<close> is returned; if not, the free
  remainder comes first and the allocated tail \<open>bp + (cs - a)\<close> is returned.
\<close>

theorem place_spec:
  assumes "heap_ok s lo (pre @ (cs, False) # post) {x}" and "x = lo + 8 + tot pre"
    and "16 \<le> a" and "8 dvd a" and "a \<le> cs"
  shows "\<exists>s' p bs. place s (of_nat x) (of_nat a) = ret (s', p) \<and> heap_ok s' lo (pre @ bs @ post) {}
     \<and> GETSIZE (heap s) (PREV_BLKP (heap s) (of_nat x)) = of_nat (fst (last pre))
     \<and> GETSIZE (heap s) (NEXT_BLKP (heap s) (of_nat x)) = of_nat (fst (ntag post))
     \<and> (if cs - a < 48 then p = of_nat x \<and> bs = [(cs, True)]
         else if fst (last pre) < fst (ntag post)
           then p = of_nat x \<and> bs = [(a, True), (cs - a, False)]
           else p = of_nat (x + (cs - a)) \<and> bs = [(cs - a, False), (a, True)])"
proof -
  have pre: "pre \<noteq> []" by (rule heap_ok_free_pre [OF assms(1)])
  note r = heap_reads [OF assms(1) pre, folded assms(2), simplified fst_conv snd_conv]
  have g: "GETSIZE (heap s) (PREV_BLKP (heap s) (of_nat x)) = of_nat (fst (last pre))"
    "GETSIZE (heap s) (NEXT_BLKP (heap s) (of_nat x)) = of_nat (fst (ntag post))"
    by (simp_all only: r)
  obtain m' r' where p: "place s (of_nat x) (of_nat a)
             = ret (s\<lparr>heap := m', tree_root := r'\<rparr>, of_nat (x + place_off pre post cs a))"
    and ok: "heap_ok (s\<lparr>heap := m', tree_root := r'\<rparr>) lo (pre @ place_list pre post cs a @ post) {}"
    using place_correct [OF assms] by blast
  have "if cs - a < 48 then (of_nat (x + place_off pre post cs a) :: ptr) = of_nat x
          \<and> place_list pre post cs a = [(cs, True)]
        else if fst (last pre) < fst (ntag post)
          then (of_nat (x + place_off pre post cs a) :: ptr) = of_nat x
            \<and> place_list pre post cs a = [(a, True), (cs - a, False)]
          else (of_nat (x + place_off pre post cs a) :: ptr) = of_nat (x + (cs - a))
            \<and> place_list pre post cs a = [(cs - a, False), (a, True)]"
    by (simp add: place_off_def place_list_def place_split_def place_front_def not_le)
  then show ?thesis using p ok g by blast
qed

definition place_example :: state where
  "place_example =
     \<lparr>heap = PUT (PUT (PUT (PUT (PUT (\<lambda>_. 0) 12 9) 16 9) 20 64) 80 64) 84 1,
      heap_listp = 16, tree_root = NULL, mem_brk = 88, mem_max_addr = 88, mem_fail = - 1\<rparr>"

lemma place_example_ok:
  "heap_ok place_example 8 ([(8, True)] @ (64, False) # []) {24}"
proof -
  let ?m = "heap place_example"
  have g: "GET ?m 12 = 9" "GET ?m 16 = 9" "GET ?m 20 = 64" "GET ?m 80 = 64" "GET ?m 84 = 1"
    by (simp_all add: place_example_def GET_def PUT_def)
  have t: "tag (8, True) = 9" "tag (64, False) = 64" by (simp_all add: tag_def PACK_def)
  have c: "cseg ?m 16 [(8, True), (64, False)] 88"
    using g by (simp add: blk_def W_def t)
  have "set (frees 16 [(8, True), (64, False)]) - {24} = ({} :: nat set)" by auto
  then show ?thesis
    using c g(5) by (simp add: heap_ok_def W_def) (simp add: place_example_def)
qed

theorem place_spec_witness:
  "heap_ok place_example 8 ([(8, True)] @ (64, False) # []) {24}
   \<and> (\<exists>s'. place place_example 24 16 = ret (s', 72)
        \<and> heap_ok s' 8 [(8, True), (48, False), (16, True)] {})"
  using place_spec [OF place_example_ok, of 16] place_example_ok
  by (auto simp add: ntag_def)

section \<open>Running the operations on concrete heaps\<close>

lemma GET_zero: "GET (\<lambda>_. 0) p = 0"
  by (simp add: GET_def)

lemma cdisj_numeral:
  "cdisj (numeral a) (numeral b) \<longleftrightarrow> 4 \<le> unat (numeral b - numeral a :: 32 word) \<and> 4 \<le> unat (numeral a - numeral b :: 32 word)"
  by (simp add: cdisj_def)

lemmas eval_defs = mm_init_def below_brk_def mm_malloc_def mm_free_def mm_realloc_def extend_heap_def coalesce_def place_def
  mem_sbrk_def Let_def WSIZE_def DSIZE_def CHUNKSIZE_def OVERHEAD_def MAX_macro_def PACK_def GET_SIZE_def GET_ALLOC_def
  HDRP_def FTRP_def NEXT_BLKP_def PREV_BLKP_def RIGHT_def LEFT_def SETLEFT_def SETRIGHT_def GETSIZE_def
  mm_children_def relink_def GET_PUT_disj GET_zero cdisj_numeral word_sle_eq word_sless_alt
  mm_insert.simps mm_fitter.simps mm_parent.simps mm_replace.simps mm_remove.simps

section \<open>Failure of the heap sink\<close>

text \<open>The adjusted size computed by \<^verbatim>\<open>mm_malloc\<close> and the byte count that \<^verbatim>\<open>extend_heap\<close>
  requests from the sink.\<close>

definition asize_of :: "32 word \<Rightarrow> 32 word" where
  "asize_of sz = (if sz \<le> DSIZE then DSIZE + OVERHEAD
                  else DSIZE * ((sz + OVERHEAD + (DSIZE - 1)) div DSIZE))"

definition ext_bytes :: "32 word \<Rightarrow> 32 word" where
  "ext_bytes words = (if words mod 2 \<noteq> 0 then (words + 1) * WSIZE else words * WSIZE)"

definition sink_refuses :: "state \<Rightarrow> 32 word \<Rightarrow> bool" where
  "sink_refuses s incr \<longleftrightarrow> unat (mem_max_addr s) < unat (mem_brk s) + unat incr"


lemma mem_sbrk_refused: "sink_refuses s incr \<Longrightarrow> mem_sbrk s incr = (mem_fail s, s)"
  by (simp add: mem_sbrk_def sink_refuses_def)

lemma extend_heap_refused:
  assumes "mem_fail s = - 1" "sink_refuses s (ext_bytes words)"
  shows "extend_heap s words = ret (s, NULL)"
  using assms mem_sbrk_refused [OF assms(2)]
  by (simp add: extend_heap_def Let_def ext_bytes_def)



lemma mm_init_refused:
  assumes "mem_fail s = - 1" "\<not> sink_refuses s (4 * WSIZE)"
    "sink_refuses s (4 * WSIZE + ext_bytes (CHUNKSIZE div WSIZE))"
  shows "\<exists>s'. mm_init s = ret (s', - 1) \<and> tree_root s' = NULL
     \<and> heap s' = (if mem_brk s = NULL then heap s
          else PUT (PUT (PUT (PUT (heap s) (mem_brk s) 0) (mem_brk s + 4) (PACK 8 1))
                 (mem_brk s + 8) (PACK 8 1)) (mem_brk s + 12) (PACK 0 1))"
proof -
  have e: "ext_bytes (CHUNKSIZE div WSIZE) = 4096" "4 * WSIZE = 16"
    by (simp_all add: ext_bytes_def CHUNKSIZE_def WSIZE_def)
  have r: "unat (mem_max_addr s) < unat (mem_brk s) + 4112"
    using assms(3) unfolding e sink_refuses_def by simp
  have u16: "unat (16 :: 32 word) = 16" by simp
  have c12: "12 + q = q + 12" for q :: ptr by simp
  have g: "unat (mem_brk s) + 16 \<le> unat (mem_max_addr s)"
    using assms(2) unfolding e sink_refuses_def by (simp add: not_less)
  then have u: "unat (mem_brk s + 16) = unat (mem_brk s) + 16"
    using unsigned_less [of "mem_max_addr s", where 'a = nat] by (simp add: unat_word_ariths)
  have x: "extend_heap s4 (CHUNKSIZE div 4) = ret (s4, NULL)"
    if "mem_fail s4 = - 1" "mem_max_addr s4 = mem_max_addr s" "mem_brk s4 = mem_brk s + 16" for s4
    using extend_heap_refused [of s4 "CHUNKSIZE div WSIZE"] that r u e
    by (simp add: sink_refuses_def WSIZE_def)
  show ?thesis
    using g assms(1)
    by (simp add: mm_init_def Let_def mem_sbrk_def below_brk_def WSIZE_def DSIZE_def OVERHEAD_def
        x u u16 c12)
qed

text \<open>
  When the sink refuses already the four sentinel words, its \<open>-1\<close> passes the \<^verbatim>\<open>NULL\<close>
  test of \<^verbatim>\<open>mm_init\<close> and the first store goes through it: the program ends with a
  segmentation fault instead of returning \<open>-1\<close>.
\<close>

lemma mm_init_sink_refuses_sentinels:
  assumes "mem_fail s = - 1" "sink_refuses s (4 * WSIZE)"
  shows "mm_init s = fault SegFault"
proof -
  have "unat (mem_brk s) < 2 ^ 32" using unsigned_less [of "mem_brk s", where 'a = nat] by simp
  moreover have "unat (- 1 :: 32 word) = 2 ^ 32 - 1"
    by (simp add: unsigned_minus_1_eq_mask mask_eq_exp_minus_1)
  ultimately have "\<not> unat (- 1 :: 32 word) + 16 \<le> unat (mem_brk s)" by simp
  then show ?thesis
    using assms mem_sbrk_refused [of "s\<lparr>tree_root := NULL\<rparr>" "4 * WSIZE"]
    by (simp add: mm_init_def Let_def below_brk_def sink_refuses_def)
qed




section \<open>Extending the heap\<close>

lemma word_div4_of_nat:
  assumes "n < 2 ^ 32"
  shows "(of_nat n :: 32 word) div 4 = of_nat (n div 4)"
proof -
  have "unat ((of_nat n :: 32 word) div 4) = n div 4"
    using assms by (simp add: unat_div unat_of_nat32)
  then have "of_nat (unat ((of_nat n :: 32 word) div 4)) = (of_nat (n div 4) :: 32 word)" by simp
  then show ?thesis by simp
qed

lemma word_even_of_nat:
  assumes "n < 2 ^ 32" "even n"
  shows "(of_nat n :: 32 word) mod 2 = 0"
proof -
  have "unat ((of_nat n :: 32 word) mod 2) = n mod 2"
    using assms by (simp add: unat_mod unat_of_nat32)
  then have "unat ((of_nat n :: 32 word) mod 2) = 0" using assms(2) by simp
  then show ?thesis by (simp add: unat_eq_0)
qed

lemma ext_bytes_even:
  assumes "8 dvd n" "n < 2 ^ 32"
  shows "ext_bytes (of_nat n div WSIZE) = of_nat n"
proof -
  obtain k where k: "n = 8 * k" using assms(1) by auto
  have n4: "n div 4 = 2 * k" using k by simp
  have d: "(of_nat n :: 32 word) div 4 = of_nat (2 * k)"
    using word_div4_of_nat [OF assms(2)] n4 by simp
  have "2 * k < 2 ^ 32" using assms(2) k by simp
  then have e: "(of_nat (2 * k) :: 32 word) mod 2 = 0" by (rule word_even_of_nat) simp
  show ?thesis
    unfolding ext_bytes_def WSIZE_def d using e k by simp
qed

lemma heap_ok_nonempty: "heap_ok s lo bs H \<Longrightarrow> bs \<noteq> [] \<and> hd bs = (8, True) \<and> 8 \<le> lo"
  by (simp add: heap_ok_def)

lemma heap_ok_brk:
  assumes "heap_ok s lo bs H"
  shows "unat (mem_brk s) = lo + 8 + tot bs" "mem_brk s = of_nat (lo + 8 + tot bs)"
    "unat (mem_brk s) \<le> unat (mem_max_addr s)" "unat (mem_max_addr s) < 2 ^ 32"
proof -
  have c: "cseg (heap s) (lo + 8) bs (unat (mem_brk s))" using assms by (simp add: heap_ok_def)
  show e: "unat (mem_brk s) = lo + 8 + tot bs" by (rule cseg_end [OF c])
  have "mem_brk s = of_nat (unat (mem_brk s))" by simp
  then show "mem_brk s = of_nat (lo + 8 + tot bs)" unfolding e .
  show "unat (mem_brk s) \<le> unat (mem_max_addr s)" using assms by (simp add: heap_ok_def)
  show "unat (mem_max_addr s) < 2 ^ 32"
    using unsigned_less [of "mem_max_addr s", where 'a = nat] by simp
qed

lemma heap_ok_grow:
  assumes ok: "heap_ok s lo bs {}" and n: "16 \<le> n" "8 dvd n"
    and fit: "unat (mem_brk s) + n \<le> unat (mem_max_addr s)"
  defines "E \<equiv> lo + 8 + tot bs"
  defines "m3 \<equiv> PUT (retag (heap s) E (n, False)) (of_nat (E + n - 4)) 1"
  shows "heap_ok (s\<lparr>mem_brk := mem_brk s + of_nat n, heap := m3\<rparr>) lo (bs @ (n, False) # []) {E}"
    "chg (heap s) m3 ({E - 4..<E} \<union> {E + n - 8..<E + n})"
proof -
  let ?m = "heap s"
  let ?m2 = "retag ?m E (n, False)"
  note b = heap_ok_brk [OF ok, folded E_def]
  note ne = heap_ok_nonempty [OF ok]
  have En: "E + n < 2 ^ 32" using fit b by simp
  have E12: "16 \<le> E" using ne by (simp add: E_def)
  have un: "unat (mem_brk s + of_nat n) = E + n"
    using En b(1) by (simp add: unat_word_ariths unat_of_nat32)
  have c: "cseg ?m (lo + 8) bs E" using ok b(1) by (simp add: heap_ok_def)
  have o1: "outside ?m ?m2 (E - 4) (E + n)"
    by (rule outside_retag) (use E12 n En in auto)
  have o2: "outside ?m2 m3 (E - 4) (E + n)"
    unfolding m3_def by (rule outside_PUT) (use E12 n En in auto)
  have o: "outside ?m m3 (E - 4) (E + n)" by (rule outside_trans [OF o1 o2])
  have c1: "cseg m3 (lo + 8) bs E"
    by (rule cseg_outside [OF c o]) (use E12 En in auto)
  have b2: "blk ?m2 E (n, False)" by (rule blk_retag) (use E12 n En in auto)
  have b3: "blk m3 E (n, False)"
  proof (rule blk_cong [OF b2])
    show "W m3 (E - 4) = W ?m2 (E - 4)"
      unfolding m3_def by (rule W_PUT_other) (use E12 n En in auto)
    show "W m3 (E + fst (n, False) - 8) = W ?m2 (E + fst (n, False) - 8)"
      unfolding m3_def by (rule W_PUT_other) (use E12 n En in auto)
  qed
  have c3: "cseg m3 (lo + 8) (bs @ [(n, False)]) (E + n)"
    using c1 b3 by (simp add: cseg_append E_def)
  have ep: "W m3 (E + n - 4) = 1" by (simp add: m3_def)
  have fb: "y + 16 \<le> E" if "y \<in> set (frees (lo + 8) bs)" for y
    using frees_bounds [OF c that] by simp
  have "E \<notin> set (frees (lo + 8) bs)" using fb [of E] by auto
  then have fr: "set (frees (lo + 8) (bs @ [(n, False)])) - {E} = set (frees (lo + 8) bs)"
    by (auto simp add: frees_append E_def)
  have tr: "tree_ok ?m (tree_root s) (set (frees (lo + 8) bs))"
    using heap_ok_tree [OF ok] by simp
  have tr3: "tree_ok m3 (tree_root s) (set (frees (lo + 8) bs))"
  proof (rule tree_ok_outside [OF tr o])
    fix y assume "y \<in> set (frees (lo + 8) bs)"
    then show "4 \<le> y \<and> y + 8 \<le> 2 ^ 32 \<and> (y + 8 \<le> E - 4 \<or> E + n + 4 \<le> y)"
      using fb [of y] frees_bounds [OF c, of y] En by auto
  qed
  have tl: "tl (bs @ [(n, False)]) = tl bs @ [(n, False)]" using ne by (cases bs) auto
  show "heap_ok (s\<lparr>mem_brk := mem_brk s + of_nat n, heap := m3\<rparr>) lo (bs @ (n, False) # []) {E}"
    using ok c3 ep tr3 n fit b(1,3,4) unfolding heap_ok_def
    by (simp add: un fr tl del: of_nat_add)
  have g1: "chg ?m ?m2 ({E - 4..<E} \<union> {E + fst (n, False) - 8..<E + fst (n, False) - 4})"
    by (rule chg_retag) (use E12 n En in auto)
  have g2: "chg ?m2 m3 {E + n - 4..<E + n - 4 + 4}"
    unfolding m3_def by (rule chg_PUT) (use E12 n En in auto)
  show "chg ?m m3 ({E - 4..<E} \<union> {E + n - 8..<E + n})"
    by (rule chg_mono [OF chg_trans [OF g1 g2]]) (use n in auto)
qed

lemma extend_heap_correct:
  assumes ok: "heap_ok s lo bs {}" and n: "16 \<le> n" "8 dvd n"
    and w: "ext_bytes words = of_nat n"
    and fit: "unat (mem_brk s) + n \<le> unat (mem_max_addr s)"
  defines "E \<equiv> lo + 8 + tot bs"
  defines "x' \<equiv> E - co_prev bs" and "cs' \<equiv> co_prev bs + n"
  shows "\<exists>m' r'. extend_heap s words
             = ret (s\<lparr>mem_brk := mem_brk s + of_nat n, heap := m', tree_root := r'\<rparr>, of_nat x')
           \<and> heap_ok (s\<lparr>mem_brk := mem_brk s + of_nat n, heap := m', tree_root := r'\<rparr>) lo
                (co_pre bs @ (cs', False) # []) {x'}
           \<and> x' = lo + 8 + tot (co_pre bs)
           \<and> chg (heap s) m' (links (set (frees (lo + 8) (co_pre bs)))
                 \<union> {E - 4..<E} \<union> {E + n - 8..<E + n} \<union> {x' - 4..<x'})"
proof -
  let ?m = "heap s"
  let ?m2 = "retag ?m E (n, False)"
  let ?m3 = "PUT ?m2 (of_nat (E + n - 4)) 1"
  let ?s1 = "s\<lparr>mem_brk := mem_brk s + of_nat n\<rparr>"
  let ?s3 = "s\<lparr>mem_brk := mem_brk s + of_nat n, heap := ?m3\<rparr>"
  note b = heap_ok_brk [OF ok, folded E_def]
  note ne = heap_ok_nonempty [OF ok]
  note g = heap_ok_grow [OF ok n fit, folded E_def]
  have En: "E + n < 2 ^ 32" using fit b by simp
  have E12: "16 \<le> E" "4 \<le> E" using ne by (simp_all add: E_def)
  have n32: "n < 2 ^ 32" using En by simp
  have sb: "mem_sbrk s (of_nat n) = (of_nat E, ?s1)"
    using fit b(2) by (simp add: mem_sbrk_def unat_of_nat32 [OF n32])
  have "unat (of_nat E :: ptr) \<noteq> unat (- 1 :: ptr)"
    using En n by (simp add: unat_of_nat32 unsigned_minus_1_eq_mask mask_eq_exp_minus_1)
  then have nm: "(of_nat E :: ptr) \<noteq> - 1" by auto
  have hx: "HDRP (of_nat E) = of_nat (E - 4)" by (rule HDRP_of_nat [OF E12(2)])
  have pk: "PACK (of_nat n) 0 = tag (n, False)" "PACK 0 1 = 1"
    using PACK_tag(1) [of n] by (simp_all add: PACK_def)
  have rt: "PUT (PUT ?m (of_nat (E - 4)) (tag (n, False)))
      (FTRP (PUT ?m (of_nat (E - 4)) (tag (n, False))) (of_nat E)) (tag (n, False)) = ?m2"
    by (rule retag_PUT) (use E12 n in simp_all)
  have b2: "blk ?m2 E (n, False)" by (rule blk_retag) (use E12 n En in auto)
  have nx: "NEXT_BLKP ?m2 (of_nat E) = of_nat (E + n)" using blk_NEXT [OF b2 E12(2)] by simp
  have hn: "HDRP (of_nat (E + n)) = of_nat (E + n - 4)" by (rule HDRP_of_nat) (use E12 in simp)
  have h1: "heap ?s1 = ?m" by simp
  have call: "extend_heap s words = coalesce ?s3 (of_nat E)"
    unfolding extend_heap_def ext_bytes_def [symmetric] w Let_def sb split_conv
    by (simp only: nm if_False h1 hx pk rt nx hn)
  have x: "E = lo + 8 + tot bs" by (simp add: E_def)
  have cn: "co_next [] = 0" "co_post [] = []" by (simp_all add: co_next_def co_post_def ntag_def)
  have nt: "snd (ntag []) = True" by (simp add: ntag_def)
  have "\<exists>m' r'. coalesce ?s3 (of_nat E) = ret (?s3\<lparr>heap := m', tree_root := r'\<rparr>, of_nat x')
      \<and> heap_ok (?s3\<lparr>heap := m', tree_root := r'\<rparr>) lo (co_pre bs @ (cs', False) # []) {x'}
      \<and> x' = lo + 8 + tot (co_pre bs)
      \<and> chg (heap ?s3) m' (links (set (frees (lo + 8) (bs @ (n, False) # [])) - {E} - {x'})
                 \<union> {x' - 4..<x'} \<union> {x' + cs' - 8..<x' + cs' - 4})"
    using coalesce_correct [OF g(1) x] unfolding cn nt if_True add_0_right x'_def cs'_def .
  then obtain m' r' where c: "coalesce ?s3 (of_nat E) = ret (?s3\<lparr>heap := m', tree_root := r'\<rparr>, of_nat x')"
    and ok': "heap_ok (?s3\<lparr>heap := m', tree_root := r'\<rparr>) lo (co_pre bs @ (cs', False) # []) {x'}"
    and xe: "x' = lo + 8 + tot (co_pre bs)"
    and ch0: "chg (heap ?s3) m' (links (set (frees (lo + 8) (bs @ (n, False) # [])) - {E} - {x'})
                 \<union> {x' - 4..<x'} \<union> {x' + cs' - 8..<x' + cs' - 4})"
    by blast
  have ch: "chg ?m3 m' (links (set (frees (lo + 8) (bs @ (n, False) # [])) - {E} - {x'})
                 \<union> {x' - 4..<x'} \<union> {x' + cs' - 8..<x' + cs' - 4})"
    using ch0 by simp
  have eq: "?s3\<lparr>heap := m', tree_root := r'\<rparr>
      = s\<lparr>mem_brk := mem_brk s + of_nat n, heap := m', tree_root := r'\<rparr>" by simp
  have le: "co_prev bs \<le> E"
    using last_le_tot [of bs] ne by (auto simp add: co_prev_def E_def)
  have xc: "x' + cs' = E + n" using le by (simp add: x'_def cs'_def)
  have "set (frees (lo + 8) bs) - {x'} \<subseteq> set (frees (lo + 8) (co_pre bs))"
  proof -
    have "bs \<noteq> []" using ne by simp
    then show ?thesis
    proof (cases rule: co_pre_cases)
      case A
      then show ?thesis by auto
    next
      case (F ps pre')
      then show ?thesis by (auto simp add: frees_append x'_def E_def)
    qed
  qed
  then have sub: "links (set (frees (lo + 8) (bs @ (n, False) # [])) - {E} - {x'})
      \<subseteq> links (set (frees (lo + 8) (co_pre bs)))"
    by (auto simp add: links_def frees_append E_def)
  have "chg ?m m' (({E - 4..<E} \<union> {E + n - 8..<E + n})
      \<union> (links (set (frees (lo + 8) (bs @ (n, False) # [])) - {E} - {x'})
                 \<union> {x' - 4..<x'} \<union> {x' + cs' - 8..<x' + cs' - 4}))"
    by (rule chg_trans [OF g(2) ch])
  then have ch': "chg ?m m' (links (set (frees (lo + 8) (co_pre bs)))
                 \<union> {E - 4..<E} \<union> {E + n - 8..<E + n} \<union> {x' - 4..<x'})"
    by (rule chg_mono) (use sub xc in auto)
  show ?thesis
    using call c ok' xe ch' unfolding eq by (intro exI [of _ m'] exI [of _ r']) simp
qed

section \<open>Allocation\<close>

subsection \<open>The adjusted size\<close>

definition adj :: "nat \<Rightarrow> nat" where
  "adj n = (if n \<le> 8 then 16 else 8 * ((n + 15) div 8))"

lemma adj_bounds: "16 \<le> adj n" "8 dvd adj n" "n + 8 \<le> adj n" "adj n \<le> n + 15 \<or> adj n = 16"
proof -
  show "16 \<le> adj n" by (auto simp add: adj_def)
  show "8 dvd adj n" by (simp add: adj_def)
  have "n + 8 \<le> 8 * ((n + 15) div 8)" by presburger
  then show "n + 8 \<le> adj n" by (simp add: adj_def)
  have "8 * ((n + 15) div 8) \<le> n + 15" by presburger
  then show "adj n \<le> n + 15 \<or> adj n = 16" by (simp add: adj_def)
qed

lemma asize_of_nat:
  assumes "unat sz + 15 < 2 ^ 32"
  shows "asize_of sz = of_nat (adj (unat sz))"
proof (cases "unat sz \<le> 8")
  case True
  then have "sz \<le> 8" by (simp add: word_le_nat_alt)
  then show ?thesis using True by (simp add: asize_of_def adj_def DSIZE_def OVERHEAD_def)
next
  case False
  then have f: "\<not> sz \<le> 8" by (simp add: word_le_nat_alt)
  have u: "unat (sz + 15) = unat sz + 15" using assms by (simp add: unat_word_ariths)
  have d: "unat ((sz + 15) div 8) = (unat sz + 15) div 8" by (simp add: unat_div u)
  have "8 * ((unat sz + 15) div 8) \<le> unat sz + 15" by presburger
  then have "8 * ((unat sz + 15) div 8) < 2 ^ 32" using assms by simp
  then have "unat (8 * ((sz + 15) div 8)) = 8 * ((unat sz + 15) div 8)"
    by (simp add: unat_word_ariths d)
  then have "of_nat (unat (8 * ((sz + 15) div 8))) = (of_nat (8 * ((unat sz + 15) div 8)) :: 32 word)"
    by simp
  then have "8 * ((sz + 15) div 8) = (of_nat (8 * ((unat sz + 15) div 8)) :: 32 word)"
    by simp
  moreover have "sz + 8 + 7 = sz + 15" by simp
  ultimately show ?thesis
    using f False by (simp add: asize_of_def adj_def DSIZE_def OVERHEAD_def add.commute)
qed

lemma MAX_of_nat:
  assumes "a < 2 ^ 32"
  shows "MAX_macro (of_nat a) CHUNKSIZE = of_nat (max a 4096)"
proof -
  have "(4096 :: 32 word) = of_nat 4096" by simp
  then have "(4096 :: 32 word) < of_nat a \<longleftrightarrow> 4096 < a"
    using assms by (simp add: word_less_nat_alt unat_of_nat32)
  then show ?thesis by (auto simp add: MAX_macro_def CHUNKSIZE_def max_def)
qed

subsection \<open>Allocated blocks of a block sequence\<close>

fun allocs :: "nat \<Rightarrow> (nat \<times> bool) list \<Rightarrow> (nat \<times> nat) list" where
  "allocs x [] = []"
| "allocs x (b # bs) = (if snd b then [(x, fst b)] else []) @ allocs (x + fst b) bs"

lemma allocs_append: "allocs x (as @ bs) = allocs x as @ allocs (x + tot as) bs"
  by (induction as arbitrary: x) (simp_all add: add.assoc)

lemma allocs_bounds:
  "cseg m x bs e \<Longrightarrow> (y, c) \<in> set (allocs x bs) \<Longrightarrow> x \<le> y \<and> y + c \<le> e \<and> 8 \<le> c"
proof (induction bs arbitrary: x)
  case Nil
  then show ?case by simp
next
  case (Cons b bs)
  then have cs: "cseg m (x + fst b) bs e" and b: "blk m x b" by auto
  have e: "e = x + fst b + tot bs" using cseg_end [OF cs] .
  show ?case
  proof (cases "(y, c) \<in> set (allocs (x + fst b) bs)")
    case True
    then show ?thesis using Cons.IH [OF cs] by auto
  next
    case False
    then have "y = x" "c = fst b" using Cons.prems(2) by (auto split: if_splits)
    then show ?thesis using b e by (auto simp add: blk_def)
  qed
qed

lemma frees_decomp:
  "y \<in> set (frees x bs) \<Longrightarrow> \<exists>pre c post. bs = pre @ (c, False) # post \<and> y = x + tot pre"
proof (induction bs arbitrary: x)
  case Nil
  then show ?case by simp
next
  case (Cons b bs)
  show ?case
  proof (cases "y \<in> set (frees (x + fst b) bs)")
    case True
    then obtain pre c post where "bs = pre @ (c, False) # post" "y = x + fst b + tot pre"
      using Cons.IH by blast
    then have "b # bs = (b # pre) @ (c, False) # post \<and> y = x + tot (b # pre)" by simp
    then show ?thesis by blast
  next
    case False
    then have "y = x" "\<not> snd b" using Cons.prems by (auto split: if_splits)
    then have "b # bs = [] @ (fst b, False) # bs \<and> y = x + tot []" by (cases b) simp
    then show ?thesis by blast
  qed
qed

lemma allocs_decomp:
  "(y, c) \<in> set (allocs x bs) \<Longrightarrow> \<exists>pre post. bs = pre @ (c, True) # post \<and> y = x + tot pre"
proof (induction bs arbitrary: x)
  case Nil
  then show ?case by simp
next
  case (Cons b bs)
  show ?case
  proof (cases "(y, c) \<in> set (allocs (x + fst b) bs)")
    case True
    then obtain pre post where "bs = pre @ (c, True) # post" "y = x + fst b + tot pre"
      using Cons.IH by blast
    then have "b # bs = (b # pre) @ (c, True) # post \<and> y = x + tot (b # pre)" by simp
    then show ?thesis by blast
  next
    case False
    then have "y = x" "snd b" "c = fst b" using Cons.prems by (auto split: if_splits)
    then have "b # bs = [] @ (c, True) # bs \<and> y = x + tot []" by (cases b) simp
    then show ?thesis by blast
  qed
qed

lemma frees_allocs_disj:
  assumes "cseg m x bs e" "z \<in> set (frees x bs)" "(y, c) \<in> set (allocs x bs)"
  shows "z + 16 \<le> y \<or> y + c \<le> z"
proof -
  obtain pre post where d: "bs = pre @ (c, True) # post" "y = x + tot pre"
    using allocs_decomp [OF assms(3)] by blast
  have c1: "cseg m x pre y" and c3: "cseg m (y + c) post e"
    using assms(1) d by (simp_all add: cseg_append)
  have "z \<in> set (frees x pre) \<or> z \<in> set (frees (y + c) post)"
    using assms(2) d by (simp add: frees_append)
  then show ?thesis using frees_bounds [OF c1, of z] frees_bounds [OF c3, of z] by auto
qed

subsection \<open>Searching the index of a heap\<close>

lemma heap_ok_key:
  assumes ok: "heap_ok s lo (pre @ (c, False) # post) H"
  shows "key (heap s) (of_nat (lo + 8 + tot pre)) = int c" "c < 2 ^ 31"
    "lo + 8 + tot pre \<in> set (frees (lo + 8) (pre @ (c, False) # post))"
    "(of_nat (lo + 8 + tot pre) :: ptr) \<noteq> NULL"
proof -
  note sp = heap_ok_split [OF ok, simplified fst_conv]
  have lo: "8 \<le> lo" using ok by (simp add: heap_ok_def)
  show c: "c < 2 ^ 31" using sp(4,7) by simp
  show "key (heap s) (of_nat (lo + 8 + tot pre)) = int c"
    using blk_key [OF sp(2)] lo c by simp
  show "lo + 8 + tot pre \<in> set (frees (lo + 8) (pre @ (c, False) # post))"
    by (simp add: frees_append)
  have "lo + 8 + tot pre < 2 ^ 32" using sp(4,5) by simp
  then have "unat (of_nat (lo + 8 + tot pre) :: ptr) = lo + 8 + tot pre" by (rule unat_of_nat32)
  then have "unat (of_nat (lo + 8 + tot pre) :: ptr) \<noteq> unat (0 :: ptr)" by simp
  then show "(of_nat (lo + 8 + tot pre) :: ptr) \<noteq> NULL" by auto
qed

lemma heap_ok_fitter:
  assumes ok: "heap_ok s lo bs {}" and a: "a < 2 ^ 31"
  shows "(mm_fitter (heap s) (tree_root s) (of_nat a) = ret NULL
            \<and> (\<forall>pre c post. bs = pre @ (c, False) # post \<longrightarrow> c < a))
       \<or> (\<exists>pre c post. bs = pre @ (c, False) # post \<and> a \<le> c
            \<and> mm_fitter (heap s) (tree_root s) (of_nat a) = ret (of_nat (lo + 8 + tot pre)))"
proof -
  let ?F = "set (frees (lo + 8) bs)"
  have tr: "tree_ok (heap s) (tree_root s) ?F" using heap_ok_tree [OF ok] by simp
  have sa: "sint (of_nat a :: 32 word) = int a" by (rule sint_of_nat31 [OF a])
  obtain r where r: "mm_fitter (heap s) (tree_root s) (of_nat a) = ret r"
    "r = NULL \<longleftrightarrow> (\<forall>y\<in>?F. key (heap s) (of_nat y) < int a)"
    "r \<noteq> NULL \<longrightarrow> (\<exists>y\<in>?F. r = of_nat y \<and> int a \<le> key (heap s) (of_nat y))"
    using tree_ok_fitter [OF tr, of "of_nat a"] unfolding sa by blast
  show ?thesis
  proof (cases "r = NULL")
    case True
    have "c < a" if d: "bs = pre @ (c, False) # post" for pre c post
    proof -
      have ok': "heap_ok s lo (pre @ (c, False) # post) {}" using ok d by simp
      have "lo + 8 + tot pre \<in> ?F" using heap_ok_key(3) [OF ok'] d by simp
      then have "key (heap s) (of_nat (lo + 8 + tot pre)) < int a" using r(2) True by blast
      then show ?thesis using heap_ok_key(1) [OF ok'] by simp
    qed
    then show ?thesis using r(1) True by blast
  next
    case False
    then obtain y where y: "y \<in> ?F" "r = of_nat y" "int a \<le> key (heap s) (of_nat y)"
      using r(3) by blast
    obtain pre c post where d: "bs = pre @ (c, False) # post" "y = lo + 8 + tot pre"
      using frees_decomp [OF y(1)] by blast
    have ok': "heap_ok s lo (pre @ (c, False) # post) {}" using ok d by simp
    have "a \<le> c" using y(3) heap_ok_key(1) [OF ok'] d(2) by simp
    then show ?thesis using d r(1) y(2) by blast
  qed
qed

subsection \<open>Bytes outside a region\<close>

definition clear :: "nat set \<Rightarrow> nat \<Rightarrow> nat \<Rightarrow> bool" where
  "clear S A B \<longleftrightarrow> (\<forall>i\<in>S. i < A \<or> B \<le> i)"

lemma clear_Un [simp]: "clear (S \<union> T) A B \<longleftrightarrow> clear S A B \<and> clear T A B"
  by (auto simp add: clear_def)

lemma clear_empty [simp]: "clear {} A B"
  by (simp add: clear_def)

lemma clear_interval: "d \<le> A \<or> B \<le> c \<Longrightarrow> clear {c..<d} A B"
  by (auto simp add: clear_def)

lemma clear_links: "(\<And>y. y \<in> Y \<Longrightarrow> y + 8 \<le> A \<or> B \<le> y) \<Longrightarrow> clear (links Y) A B"
  by (fastforce simp add: clear_def links_def)

lemma clear_mono: "clear S A B \<Longrightarrow> T \<subseteq> S \<Longrightarrow> clear T A B"
  by (auto simp add: clear_def)

lemma chg_clear:
  assumes "chg m m' S" "clear S A B" "A \<le> i" "i < B" "i < 2 ^ 32"
  shows "m' (of_nat i) = m (of_nat i)"
proof -
  have "i \<notin> S" using assms(2,3,4) unfolding clear_def by fastforce
  then show ?thesis using assms(1,5) unfolding chg_def by blast
qed

subsection \<open>The block sequence after placement\<close>

definition place_size :: "nat \<Rightarrow> nat \<Rightarrow> nat" where
  "place_size cs a = (if place_split cs a then a else cs)"

lemma tot_place_list: "a \<le> cs \<Longrightarrow> tot (place_list pre post cs a) = cs"
  by (simp add: place_list_def)

lemma place_list_shape:
  assumes "a \<le> cs"
  shows "\<exists>l1 l2. place_list pre post cs a = l1 @ (place_size cs a, True) # l2
     \<and> tot l1 = place_off pre post cs a
     \<and> allocs x l1 = [] \<and> allocs (x + tot l1 + place_size cs a) l2 = []"
proof (cases "place_split cs a")
  case False
  then have "place_list pre post cs a = [] @ (place_size cs a, True) # []"
    "tot [] = place_off pre post cs a"
    by (simp_all add: place_list_def place_size_def place_off_def)
  then show ?thesis by (intro exI [of _ "[]"]) simp
next
  case True
  show ?thesis
  proof (cases "place_front pre post")
    case front: True
    have "place_list pre post cs a = [] @ (place_size cs a, True) # [(cs - a, False)]"
      "tot [] = place_off pre post cs a"
      using True front by (simp_all add: place_list_def place_size_def place_off_def)
    then show ?thesis by (intro exI [of _ "[]"] exI [of _ "[(cs - a, False)]"]) simp
  next
    case False
    have "place_list pre post cs a = [(cs - a, False)] @ (place_size cs a, True) # []"
      "tot [(cs - a, False)] = place_off pre post cs a"
      using True False by (simp_all add: place_list_def place_size_def place_off_def)
    then show ?thesis by (intro exI [of _ "[(cs - a, False)]"] exI [of _ "[]"]) simp
  qed
qed

lemma noadj_place:
  assumes "noadj (pre @ (cs, False) # post)"
  shows "noadj (pre @ place_list pre post cs a @ post)"
proof -
  have n0: "noadj pre" "noadj ((cs, False) # post)" "pre = [] \<or> snd (last pre)"
    using assms by (auto simp add: noadj_append)
  have n1: "noadj post \<and> (post = [] \<or> snd (hd post))"
    using n0(2) by (cases post) auto
  note n = n0(1) n1 [THEN conjunct1] n0(3) n1 [THEN conjunct2]
  have q: "noadj ((c, True) # post)" "noadj ((c, False) # post)" for c
    using n(2,4) by (cases post; simp)+
  show ?thesis
    using n q by (auto simp add: place_list_def noadj_append)
qed

lemma allocs_place:
  assumes "a \<le> cs"
  shows "set (allocs x0 (pre @ place_list pre post cs a @ post))
     = insert (x0 + tot pre + place_off pre post cs a, place_size cs a)
         (set (allocs x0 (pre @ (cs, False) # post)))"
  using assms by (auto simp add: allocs_append place_list_def place_off_def place_size_def add.assoc)

lemma frees_place:
  assumes "a \<le> cs"
  shows "set (frees x0 (pre @ place_list pre post cs a @ post))
     \<subseteq> set (frees x0 pre) \<union> set (frees (x0 + tot pre + cs) post)
        \<union> (if place_split cs a then {x0 + tot pre + (if place_front pre post then a else 0)} else {})"
  using assms by (auto simp add: frees_append place_list_def add.assoc)

lemma place_clear:
  assumes a: "16 \<le> a" "a \<le> cs"
    and fp: "\<And>y. y \<in> Fp \<Longrightarrow> y + 16 \<le> x" and fq: "\<And>y. y \<in> Fq \<Longrightarrow> x + cs \<le> y"
    and F: "F \<subseteq> Fp \<union> Fq \<union> (if place_split cs a then {x + (if place_front pre post then a else 0)} else {})"
  defines "A \<equiv> x + place_off pre post cs a"
  shows "clear (links F \<union> place_chg x pre post cs a) A (A + place_size cs a - 8)"
proof -
  have 1: "clear (links F) A (A + place_size cs a - 8)"
  proof (rule clear_links)
    fix y assume "y \<in> F"
    then consider "y \<in> Fp" | "y \<in> Fq"
      | "place_split cs a" "y = x + (if place_front pre post then a else 0)"
      using F by (auto split: if_splits)
    then show "y + 8 \<le> A \<or> A + place_size cs a - 8 \<le> y"
    proof cases
      case 1
      then show ?thesis using fp [of y] by (simp add: A_def)
    next
      case 2
      then show ?thesis using fq [of y] a
        by (auto simp add: A_def place_off_def place_size_def place_split_def)
    next
      case 3
      then show ?thesis using a
        by (auto simp add: A_def place_off_def place_size_def place_split_def)
    qed
  qed
  have 2: "clear (place_chg x pre post cs a) A (A + place_size cs a - 8)"
    using a unfolding place_chg_def clear_Un
    by (auto intro!: clear_interval
        simp add: A_def place_off_def place_size_def place_split_def place_list_def)
  show ?thesis using 1 2 by simp
qed

subsection \<open>A request served from the index\<close>

lemma mm_malloc_fit:
  assumes ok: "heap_ok s lo (pre @ (cs, False) # post) {}"
    and x: "x = lo + 8 + tot pre"
    and fit: "mm_fitter (heap s) (tree_root s) (of_nat a) = ret (of_nat x)"
    and a: "16 \<le> a" "8 dvd a" "a \<le> cs"
    and as: "asize_of sz = of_nat a" and sz: "0 < sz"
  defines "bs' \<equiv> pre @ place_list pre post cs a @ post"
  defines "p \<equiv> x + place_off pre post cs a" and "c \<equiv> place_size cs a"
  shows "\<exists>m' r' S. mm_malloc s sz = ret (s\<lparr>heap := m', tree_root := r'\<rparr>, of_nat p)
     \<and> heap_ok (s\<lparr>heap := m', tree_root := r'\<rparr>) lo bs' {}
     \<and> (noadj (pre @ (cs, False) # post) \<longrightarrow> noadj bs')
     \<and> set (allocs (lo + 8) bs') = insert (p, c) (set (allocs (lo + 8) (pre @ (cs, False) # post)))
     \<and> p \<notin> fst ` set (allocs (lo + 8) (pre @ (cs, False) # post))
     \<and> chg (heap s) m' S \<and> clear S p (p + c - 8)
     \<and> (\<forall>(y, d)\<in>set (allocs (lo + 8) (pre @ (cs, False) # post)). clear S y (y + d - 8))"
proof -
  let ?bs = "pre @ (cs, False) # post"
  let ?F = "set (frees (lo + 8) ?bs)"
  let ?F' = "set (frees (lo + 8) bs')"
  have pre: "pre \<noteq> []" by (rule heap_ok_free_pre [OF ok])
  note sp = heap_ok_split [OF ok, folded x, simplified fst_conv]
  note k = heap_ok_key [OF ok, folded x]
  have ws: "wsep ?F" by (rule heap_ok_wsep [OF ok])
  have tr: "tree_ok (heap s) (tree_root s) ?F" using heap_ok_tree [OF ok] by simp
  obtain m1 r1 where rm: "mm_remove (heap s) (tree_root s) (of_nat x) = ret (m1, r1)"
    and t1: "tree_ok m1 r1 (?F - {x})"
    and f1: "frame (lcells (of_nat ` (?F - {x}))) (heap s) m1"
    using tree_ok_remove [OF tr k(3) ws] by blast
  let ?s1 = "s\<lparr>heap := m1, tree_root := r1\<rparr>"
  have ok1: "heap_ok ?s1 lo ?bs {x}"
    by (rule heap_ok_tree_step [OF ok f1 _ t1]) auto
  have c1: "chg (heap s) m1 (links (?F - {x}))"
    unfolding links_def by (rule chg_frame_links [OF f1]) (use wsepD1 [OF ws] in auto)
  obtain m' r' where pl: "place ?s1 (of_nat x) (of_nat a)
             = ret (?s1\<lparr>heap := m', tree_root := r'\<rparr>, of_nat p)"
    and ok2: "heap_ok (?s1\<lparr>heap := m', tree_root := r'\<rparr>) lo bs' {}"
    and c2: "chg (heap ?s1) m' (links ?F' \<union> place_chg x pre post cs a)"
    using place_correct [OF ok1 x a] unfolding bs'_def p_def by blast
  have eq: "?s1\<lparr>heap := m', tree_root := r'\<rparr> = s\<lparr>heap := m', tree_root := r'\<rparr>" by simp
  have nz: "\<not> sz \<le> 0" using sz by (simp add: not_le)
  have call: "mm_malloc s sz = ret (s\<lparr>heap := m', tree_root := r'\<rparr>, of_nat p)"
    unfolding mm_malloc_def Let_def asize_of_def [symmetric] as
    using nz k(4) pl by (simp only: fit rm bnd_ret if_False if_True split_conv simp_thms eq)
  let ?S = "links (?F - {x}) \<union> (links ?F' \<union> place_chg x pre post cs a)"
  have ch: "chg (heap s) m' ?S" using chg_trans [OF c1] c2 by simp
  have fp: "y + 16 \<le> x" if "y \<in> set (frees (lo + 8) pre)" for y
    using frees_bounds [OF sp(1) that] by simp
  have fq: "x + cs \<le> y" if "y \<in> set (frees (x + cs) post)" for y
    using frees_bounds [OF sp(3) that] by simp
  have F1: "?F - {x} \<subseteq> set (frees (lo + 8) pre) \<union> set (frees (x + cs) post)
      \<union> (if place_split cs a then {x + (if place_front pre post then a else 0)} else {})"
    by (auto simp add: frees_append x)
  have F2: "?F' \<subseteq> set (frees (lo + 8) pre) \<union> set (frees (x + cs) post)
      \<union> (if place_split cs a then {x + (if place_front pre post then a else 0)} else {})"
    using frees_place [OF a(3), of "lo + 8" pre post] unfolding bs'_def x .
  have cl1: "clear (links (?F - {x}) \<union> place_chg x pre post cs a) p (p + c - 8)"
    unfolding p_def c_def by (rule place_clear [OF a(1,3) fp fq F1])
  have cl2: "clear (links ?F' \<union> place_chg x pre post cs a) p (p + c - 8)"
    unfolding p_def c_def by (rule place_clear [OF a(1,3) fp fq F2])
  have cl: "clear ?S p (p + c - 8)" using cl1 cl2 by simp
  have pc: "place_chg x pre post cs a \<subseteq> {x - 4..<x + cs - 4}"
    using a by (auto simp add: place_chg_def place_list_def place_split_def)
  have sd: "(y + d \<le> x \<or> x + cs \<le> y) \<and> 8 \<le> d" if yd: "(y, d) \<in> set (allocs (lo + 8) ?bs)" for y d
  proof -
    have "(y, d) \<in> set (allocs (lo + 8) pre) \<or> (y, d) \<in> set (allocs (x + cs) post)"
      using yd by (simp add: allocs_append x)
    then show ?thesis
      using allocs_bounds [OF sp(1), of y d] allocs_bounds [OF sp(3), of y d] by auto
  qed
  have pin: "x \<le> p" "p < x + cs"
    using a by (auto simp add: p_def place_off_def place_split_def)
  have fresh: "p \<notin> fst ` set (allocs (lo + 8) ?bs)"
  proof
    assume "p \<in> fst ` set (allocs (lo + 8) ?bs)"
    then obtain d where "(p, d) \<in> set (allocs (lo + 8) ?bs)" by auto
    then show False using sd [of p d] pin by auto
  qed
  have oth: "clear ?S y (y + d - 8)" if yd: "(y, d) \<in> set (allocs (lo + 8) ?bs)" for y d
  proof -
    have side: "y + d \<le> x \<or> x + cs \<le> y" and d8: "8 \<le> d" using sd [OF yd] by auto
    have cg: "cseg (heap s) (lo + 8) ?bs (unat (mem_brk s))" using ok by (simp add: heap_ok_def)
    have z: "z + 8 \<le> y \<or> y + d - 8 \<le> z" if "z \<in> ?F" for z
      using frees_allocs_disj [OF cg that yd] by auto
    have 1: "clear (links (?F - {x})) y (y + d - 8)"
      by (rule clear_links) (use z in auto)
    have 2: "clear (links ?F') y (y + d - 8)"
    proof (rule clear_links)
      fix w assume "w \<in> ?F'"
      then consider "w \<in> ?F" | "x \<le> w" "w + 8 \<le> x + cs"
        using F2 a by (auto simp add: frees_append x place_split_def split: if_splits)
      then show "w + 8 \<le> y \<or> y + d - 8 \<le> w"
      proof cases
        case 1
        then show ?thesis by (rule z)
      next
        case 2
        then show ?thesis using side d8 by auto
      qed
    qed
    have 3: "clear (place_chg x pre post cs a) y (y + d - 8)"
      by (rule clear_mono [OF clear_interval pc]) (use side d8 sp(2) in \<open>auto simp add: blk_def\<close>)
    show ?thesis using 1 2 3 by simp
  qed
  have al: "set (allocs (lo + 8) bs') = insert (p, c) (set (allocs (lo + 8) ?bs))"
    unfolding bs'_def p_def c_def x by (rule allocs_place [OF a(3)])
  have nj: "noadj (pre @ (cs, False) # post) \<longrightarrow> noadj bs'"
    unfolding bs'_def using noadj_place by blast
  show ?thesis
    using call ok2 nj al fresh ch cl oth unfolding eq
    by (intro exI [of _ m'] exI [of _ r'] exI [of _ ?S]) auto
qed

subsection \<open>A request served by extending the heap\<close>

lemma allocs_co_pre:
  assumes "bs \<noteq> []"
  shows "allocs x0 (co_pre bs @ [(c, False)]) = allocs x0 bs"
  using assms
proof (cases rule: co_pre_cases)
  case A
  then show ?thesis by (simp add: allocs_append)
next
  case (F ps pre')
  then show ?thesis by (simp add: allocs_append)
qed

lemma mm_malloc_ext:
  assumes ok: "heap_ok s lo bs {}"
    and miss: "mm_fitter (heap s) (tree_root s) (of_nat a) = ret NULL"
    and a: "16 \<le> a" "8 dvd a" "a < 2 ^ 31"
    and as: "asize_of sz = of_nat a" and sz: "0 < sz"
  defines "N \<equiv> max a 4096" and "E \<equiv> lo + 8 + tot bs"
  defines "pre \<equiv> co_pre bs" and "cs \<equiv> co_prev bs + max a 4096"
  defines "bs' \<equiv> pre @ place_list pre [] cs a @ []"
  defines "p \<equiv> lo + 8 + tot pre + place_off pre [] cs a" and "c \<equiv> place_size cs a"
  shows "unat (mem_max_addr s) < E + N \<Longrightarrow> mm_malloc s sz = ret (s, NULL)"
    and "E + N \<le> unat (mem_max_addr s) \<Longrightarrow>
      \<exists>m' r' S. mm_malloc s sz
          = ret (s\<lparr>mem_brk := mem_brk s + of_nat N, heap := m', tree_root := r'\<rparr>, of_nat p)
        \<and> heap_ok (s\<lparr>mem_brk := mem_brk s + of_nat N, heap := m', tree_root := r'\<rparr>) lo bs' {}
        \<and> (noadj bs \<longrightarrow> noadj bs')
        \<and> set (allocs (lo + 8) bs') = insert (p, c) (set (allocs (lo + 8) bs))
        \<and> p \<notin> fst ` set (allocs (lo + 8) bs)
        \<and> chg (heap s) m' S \<and> clear (S - {E - 4..<E}) p (p + c - 8)
        \<and> (\<forall>(y, d)\<in>set (allocs (lo + 8) bs). clear S y (y + d - 8))"
proof -
  note b = heap_ok_brk [OF ok, folded E_def]
  note ne = heap_ok_nonempty [OF ok]
  have N: "16 \<le> N" "8 dvd N" "a \<le> N" "N < 2 ^ 32"
    using a by (auto simp add: N_def max_def)
  have a32: "a < 2 ^ 32" using a(3) by simp
  have w: "ext_bytes (MAX_macro (of_nat a) CHUNKSIZE div WSIZE) = of_nat N"
    unfolding MAX_of_nat [OF a32] N_def [symmetric] by (rule ext_bytes_even [OF N(2,4)])
  have nz: "\<not> sz \<le> 0" using sz by (simp add: not_le)
  have m0: "mm_malloc s sz = bnd (extend_heap s (MAX_macro (of_nat a) CHUNKSIZE div WSIZE))
      (\<lambda>(s1, bp). if bp = NULL then ret (s1, NULL) else place s1 bp (of_nat a))"
    unfolding mm_malloc_def Let_def asize_of_def [symmetric] as
    using nz by (simp only: miss bnd_ret if_False simp_thms)
  {
    assume "unat (mem_max_addr s) < E + N"
    then have "sink_refuses s (ext_bytes (MAX_macro (of_nat a) CHUNKSIZE div WSIZE))"
      unfolding w sink_refuses_def using b(1) N(4) by (simp add: unat_of_nat32)
    moreover have "mem_fail s = - 1" using ok by (simp add: heap_ok_def)
    ultimately have "extend_heap s (MAX_macro (of_nat a) CHUNKSIZE div WSIZE) = ret (s, NULL)"
      by (rule extend_heap_refused [rotated])
    then show "mm_malloc s sz = ret (s, NULL)" unfolding m0 by simp
  }
  {
    assume "E + N \<le> unat (mem_max_addr s)"
    then have fit: "unat (mem_brk s) + N \<le> unat (mem_max_addr s)" using b(1) by simp
    let ?x = "E - co_prev bs"
    let ?s2 = "\<lambda>m' r'. s\<lparr>mem_brk := mem_brk s + of_nat N, heap := m', tree_root := r'\<rparr>"
    obtain m2 r2 where ex: "extend_heap s (MAX_macro (of_nat a) CHUNKSIZE div WSIZE)
          = ret (?s2 m2 r2, of_nat ?x)"
      and ok2: "heap_ok (?s2 m2 r2) lo (pre @ (cs, False) # []) {?x}"
      and x: "?x = lo + 8 + tot pre"
      and c2: "chg (heap s) m2 (links (set (frees (lo + 8) pre))
                 \<union> {E - 4..<E} \<union> {E + N - 8..<E + N} \<union> {?x - 4..<?x})"
      using extend_heap_correct [OF ok N(1,2) w fit]
      unfolding E_def [symmetric] pre_def cs_def N_def [symmetric] by blast
    have nn: "(of_nat ?x :: ptr) \<noteq> NULL" using heap_ok_key(4) [OF ok2] x by simp
    have acs: "a \<le> cs" using N(3) by (simp add: cs_def N_def)
    obtain m' r' where pl: "place (?s2 m2 r2) (of_nat ?x) (of_nat a)
             = ret ((?s2 m2 r2)\<lparr>heap := m', tree_root := r'\<rparr>, of_nat (?x + place_off pre [] cs a))"
      and ok3: "heap_ok ((?s2 m2 r2)\<lparr>heap := m', tree_root := r'\<rparr>) lo bs' {}"
      and c3: "chg (heap (?s2 m2 r2)) m' (links (set (frees (lo + 8) bs')) \<union> place_chg ?x pre [] cs a)"
      using place_correct [OF ok2 x a(1,2) acs] unfolding bs'_def by blast
    have eq: "(?s2 m2 r2)\<lparr>heap := m', tree_root := r'\<rparr> = ?s2 m' r'" by simp
    have px: "p = ?x + place_off pre [] cs a" by (simp add: p_def x)
    have call: "mm_malloc s sz = ret (?s2 m' r', of_nat p)"
      unfolding m0 ex px using nn pl by (simp add: eq)
    let ?Se = "links (set (frees (lo + 8) pre)) \<union> {E - 4..<E} \<union> {E + N - 8..<E + N} \<union> {?x - 4..<?x}"
    let ?Sp = "links (set (frees (lo + 8) bs')) \<union> place_chg ?x pre [] cs a"
    have ch: "chg (heap s) m' (?Se \<union> ?Sp)" using chg_trans [OF c2] c3 by simp
    note sp = heap_ok_split [OF ok2, folded x, simplified fst_conv]
    have le: "co_prev bs \<le> E"
      using last_le_tot [of bs] ne by (auto simp add: co_prev_def E_def)
    have xe: "?x + cs = E + N" using le by (simp add: cs_def N_def)
    have fp: "y + 16 \<le> ?x" if "y \<in> set (frees (lo + 8) pre)" for y
      using frees_bounds [OF sp(1) that] by simp
    have fq: "?x + cs \<le> y" if "y \<in> set (frees (?x + cs) [])" for y using that by simp
    have F2: "set (frees (lo + 8) bs') \<subseteq> set (frees (lo + 8) pre) \<union> set (frees (?x + cs) [])
        \<union> (if place_split cs a then {?x + (if place_front pre [] then a else 0)} else {})"
      using frees_place [OF acs, of "lo + 8" pre "[]"] unfolding bs'_def x by simp
    have F1: "set (frees (lo + 8) pre) \<subseteq> set (frees (lo + 8) pre) \<union> set (frees (?x + cs) [])
        \<union> (if place_split cs a then {?x + (if place_front pre [] then a else 0)} else {})" by auto
    have cl1: "clear (links (set (frees (lo + 8) pre)) \<union> place_chg ?x pre [] cs a) p (p + c - 8)"
      unfolding px c_def by (rule place_clear [OF a(1) acs fp fq F1])
    have cl2: "clear ?Sp p (p + c - 8)"
      unfolding px c_def by (rule place_clear [OF a(1) acs fp fq F2])
    have pc: "p + c \<le> ?x + cs" "?x \<le> p"
      using acs by (auto simp add: px c_def place_off_def place_size_def)
    have cl3: "clear ({E + N - 8..<E + N} \<union> {?x - 4..<?x}) p (p + c - 8)"
      using pc xe by (auto intro!: clear_interval)
    have cl: "clear ((?Se \<union> ?Sp) - {E - 4..<E}) p (p + c - 8)"
      by (rule clear_mono [of "links (set (frees (lo + 8) pre)) \<union> place_chg ?x pre [] cs a
          \<union> ?Sp \<union> ({E + N - 8..<E + N} \<union> {?x - 4..<?x})"]) (use cl1 cl2 cl3 in auto)
    have al0: "set (allocs (lo + 8) (pre @ (cs, False) # [])) = set (allocs (lo + 8) bs)"
      using allocs_co_pre [of bs "lo + 8" cs] ne unfolding pre_def by simp
    have al: "set (allocs (lo + 8) bs') = insert (p, c) (set (allocs (lo + 8) bs))"
      unfolding bs'_def p_def c_def al0 [symmetric] by (rule allocs_place [OF acs])
    have nj: "noadj bs'" if na: "noadj bs"
    proof -
      have "noadj (pre @ (cs, False) # co_post [])"
        unfolding pre_def by (rule noadj_co(1) [OF na _ _ ]) (use ne in simp_all)
      then have nj0: "noadj (pre @ (cs, False) # [])" by (simp add: co_post_def ntag_def)
      show ?thesis unfolding bs'_def by (rule noadj_place [OF nj0])
    qed
    have pcs: "place_chg ?x pre [] cs a \<subseteq> {?x - 4..<?x + cs - 4}"
      using a acs by (auto simp add: place_chg_def place_list_def place_split_def)
    have fresh: "p \<notin> fst ` set (allocs (lo + 8) bs)"
    proof
      assume "p \<in> fst ` set (allocs (lo + 8) bs)"
      then obtain d where "(p, d) \<in> set (allocs (lo + 8) bs)" by auto
      then have "(p, d) \<in> set (allocs (lo + 8) pre)" using al0 by (simp add: allocs_append)
      then have "p + d \<le> ?x \<and> 8 \<le> d" using allocs_bounds [OF sp(1)] by auto
      then show False using pc(2) by simp
    qed
    have oth: "clear (?Se \<union> ?Sp) y (y + d - 8)" if yd: "(y, d) \<in> set (allocs (lo + 8) bs)" for y d
    proof -
      have yd': "(y, d) \<in> set (allocs (lo + 8) pre)"
        using yd al0 by (simp add: allocs_append)
      have side: "y + d \<le> ?x" "8 \<le> d" using allocs_bounds [OF sp(1) yd'] by auto
      have z: "z + 8 \<le> y \<or> y + d - 8 \<le> z" if "z \<in> set (frees (lo + 8) pre)" for z
        using frees_allocs_disj [OF sp(1) that yd'] by auto
      have 1: "clear (links (set (frees (lo + 8) pre))) y (y + d - 8)"
        by (rule clear_links) (use z in auto)
      have 2: "clear (links (set (frees (lo + 8) bs'))) y (y + d - 8)"
      proof (rule clear_links)
        fix w assume "w \<in> set (frees (lo + 8) bs')"
        then consider "w \<in> set (frees (lo + 8) pre)" | "?x \<le> w"
          using F2 by (auto split: if_splits)
        then show "w + 8 \<le> y \<or> y + d - 8 \<le> w"
        proof cases
          case 1
          then show ?thesis by (rule z)
        next
          case 2
          then show ?thesis using side by auto
        qed
      qed
      have 3: "clear (place_chg ?x pre [] cs a) y (y + d - 8)"
        by (rule clear_mono [OF clear_interval pcs]) (use side in auto)
      have 4: "clear ({E - 4..<E} \<union> {E + N - 8..<E + N} \<union> {?x - 4..<?x}) y (y + d - 8)"
        using side le N by (auto intro!: clear_interval)
      show ?thesis using 1 2 3 4 by simp
    qed
    show "\<exists>m' r' S. mm_malloc s sz = ret (?s2 m' r', of_nat p)
        \<and> heap_ok (?s2 m' r') lo bs' {} \<and> (noadj bs \<longrightarrow> noadj bs')
        \<and> set (allocs (lo + 8) bs') = insert (p, c) (set (allocs (lo + 8) bs))
        \<and> p \<notin> fst ` set (allocs (lo + 8) bs)
        \<and> chg (heap s) m' S \<and> clear (S - {E - 4..<E}) p (p + c - 8)
        \<and> (\<forall>(y, d)\<in>set (allocs (lo + 8) bs). clear S y (y + d - 8))"
      using call ok3 nj al fresh ch cl oth unfolding eq
      by (intro exI [of _ m'] exI [of _ r'] exI [of _ "?Se \<union> ?Sp"]) auto
  }
qed

subsection \<open>Allocation on a well-formed heap\<close>

lemma heap_ok_alloc_ptr:
  assumes "heap_ok s lo bs H" "(y, d) \<in> set (allocs (lo + 8) bs)"
  shows "y < 2 ^ 32" "unat (of_nat y :: ptr) = y" "(of_nat y :: ptr) \<noteq> NULL" "16 \<le> y" "8 dvd y"
    "y + d \<le> unat (mem_brk s)"
proof -
  have c: "cseg (heap s) (lo + 8) bs (unat (mem_brk s))" and lo: "8 \<le> lo" "8 dvd lo"
    using assms(1) by (simp_all add: heap_ok_def)
  have E: "unat (mem_brk s) < 2 ^ 32" using unsigned_less [of "mem_brk s", where 'a = nat] by simp
  note bd = allocs_bounds [OF c assms(2)]
  show y: "y < 2 ^ 32" using bd E by simp
  show u: "unat (of_nat y :: ptr) = y" by (rule unat_of_nat32 [OF y])
  show "16 \<le> y" using bd lo by simp
  then have "unat (of_nat y :: ptr) \<noteq> unat (0 :: ptr)" using u by simp
  then show "(of_nat y :: ptr) \<noteq> NULL" by auto
  show "y + d \<le> unat (mem_brk s)" using bd by simp
  obtain pre post where d: "bs = pre @ (d, True) # post" "y = lo + 8 + tot pre"
    using allocs_decomp [OF assms(2)] by blast
  have "cseg (heap s) (lo + 8) pre y" using c d by (simp add: cseg_append)
  moreover have "8 dvd tot as" if "cseg m x as e" for m x as e
    using that by (induction as arbitrary: x) (auto simp add: blk_def)
  ultimately have "8 dvd tot pre" by blast
  then show "8 dvd y" using lo d(2) by simp
qed

lemma mm_malloc_correct:
  assumes ok: "heap_ok s lo bs {}"
    and sz: "0 < sz" "unat sz + 16 \<le> 2 ^ 31"
  shows "\<exists>s' p. mm_malloc s sz = ret (s', p)
     \<and> (p = NULL \<longrightarrow> s' = s)
     \<and> (p \<noteq> NULL \<longrightarrow> (\<exists>bs' x c S. heap_ok s' lo bs' {} \<and> (noadj bs \<longrightarrow> noadj bs')
          \<and> p = of_nat x \<and> unat sz + 8 \<le> c
          \<and> set (allocs (lo + 8) bs') = insert (x, c) (set (allocs (lo + 8) bs))
          \<and> x \<notin> fst ` set (allocs (lo + 8) bs)
          \<and> chg (heap s) (heap s') S
          \<and> clear (S - (if mm_fitter (heap s) (tree_root s) (asize_of sz) = ret NULL
                         then {unat (mem_brk s) - 4..<unat (mem_brk s)} else {})) x (x + c - 8)
          \<and> (\<forall>(y, d)\<in>set (allocs (lo + 8) bs). clear S y (y + d - 8))))"
proof -
  let ?a = "adj (unat sz)"
  note ab = adj_bounds [of "unat sz"]
  have a31: "?a < 2 ^ 31" using ab(4) sz(2) by auto
  have as: "asize_of sz = of_nat ?a" by (rule asize_of_nat) (use sz(2) in simp)
  note b = heap_ok_brk [OF ok]
  consider (miss) "mm_fitter (heap s) (tree_root s) (of_nat ?a) = ret NULL"
    | (hit) pre cs post where "bs = pre @ (cs, False) # post" "?a \<le> cs"
      "mm_fitter (heap s) (tree_root s) (of_nat ?a) = ret (of_nat (lo + 8 + tot pre))"
    using heap_ok_fitter [OF ok a31] by blast
  then show ?thesis
  proof cases
    case miss
    let ?N = "max ?a 4096"
    note ext = mm_malloc_ext [OF ok miss ab(1,2) a31 as sz(1)]
    show ?thesis
    proof (cases "unat (mem_max_addr s) < lo + 8 + tot bs + ?N")
      case True
      then show ?thesis using ext(1) by simp
    next
      case False
      then have g: "lo + 8 + tot bs + ?N \<le> unat (mem_max_addr s)" by simp
      let ?pre = "co_pre bs" and ?cs = "co_prev bs + ?N"
      let ?bs' = "?pre @ place_list ?pre [] ?cs ?a @ []"
      let ?p = "lo + 8 + tot ?pre + place_off ?pre [] ?cs ?a"
      let ?c = "place_size ?cs ?a"
      obtain m' r' S where r: "mm_malloc s sz
            = ret (s\<lparr>mem_brk := mem_brk s + of_nat ?N, heap := m', tree_root := r'\<rparr>, of_nat ?p)"
        "heap_ok (s\<lparr>mem_brk := mem_brk s + of_nat ?N, heap := m', tree_root := r'\<rparr>) lo ?bs' {}"
        "noadj bs \<longrightarrow> noadj ?bs'"
        "set (allocs (lo + 8) ?bs') = insert (?p, ?c) (set (allocs (lo + 8) bs))"
        "?p \<notin> fst ` set (allocs (lo + 8) bs)"
        "chg (heap s) m' S" "clear (S - {lo + 8 + tot bs - 4..<lo + 8 + tot bs}) ?p (?p + ?c - 8)"
        "\<forall>(y, d)\<in>set (allocs (lo + 8) bs). clear S y (y + d - 8)"
        using ext(2) [OF g] by blast
      have "(?p, ?c) \<in> set (allocs (lo + 8) ?bs')" using r(4) by simp
      then have nn: "(of_nat ?p :: ptr) \<noteq> NULL" by (rule heap_ok_alloc_ptr(3) [OF r(2)])
      have c: "unat sz + 8 \<le> ?c" using ab(3) by (auto simp add: place_size_def)
      have fm: "mm_fitter (heap s) (tree_root s) (asize_of sz) = ret NULL" using miss as by simp
      show ?thesis
        using r nn c unfolding fm b(1)
        by (intro exI [of _ "s\<lparr>mem_brk := mem_brk s + of_nat ?N, heap := m', tree_root := r'\<rparr>"]
            exI [of _ "of_nat ?p"] conjI impI exI [of _ ?bs'] exI [of _ ?p] exI [of _ ?c] exI [of _ S])
          simp_all
    qed
  next
    case (hit pre cs post)
    let ?x = "lo + 8 + tot pre"
    have ok': "heap_ok s lo (pre @ (cs, False) # post) {}" using ok hit(1) by simp
    let ?bs' = "pre @ place_list pre post cs ?a @ post"
    let ?p = "?x + place_off pre post cs ?a"
    let ?c = "place_size cs ?a"
    obtain m' r' S where r: "mm_malloc s sz = ret (s\<lparr>heap := m', tree_root := r'\<rparr>, of_nat ?p)"
      "heap_ok (s\<lparr>heap := m', tree_root := r'\<rparr>) lo ?bs' {}"
      "noadj (pre @ (cs, False) # post) \<longrightarrow> noadj ?bs'"
      "set (allocs (lo + 8) ?bs') = insert (?p, ?c) (set (allocs (lo + 8) (pre @ (cs, False) # post)))"
      "?p \<notin> fst ` set (allocs (lo + 8) (pre @ (cs, False) # post))"
      "chg (heap s) m' S" "clear S ?p (?p + ?c - 8)"
      "\<forall>(y, d)\<in>set (allocs (lo + 8) (pre @ (cs, False) # post)). clear S y (y + d - 8)"
      using mm_malloc_fit [OF ok' refl hit(3) ab(1,2) hit(2) as sz(1)] by blast
    have "(?p, ?c) \<in> set (allocs (lo + 8) ?bs')" using r(4) by simp
    then have nn: "(of_nat ?p :: ptr) \<noteq> NULL" by (rule heap_ok_alloc_ptr(3) [OF r(2)])
    have c: "unat sz + 8 \<le> ?c" using ab(3) hit(2) by (auto simp add: place_size_def)
    have "(of_nat ?x :: ptr) \<noteq> NULL" by (rule heap_ok_key(4) [OF ok'])
    then have fm: "mm_fitter (heap s) (tree_root s) (asize_of sz) \<noteq> ret NULL"
      using hit(3) as by simp
    show ?thesis
      using r nn c unfolding hit(1) [symmetric]
      by (intro exI [of _ "s\<lparr>heap := m', tree_root := r'\<rparr>"]
            exI [of _ "of_nat ?p"] conjI impI exI [of _ ?bs'] exI [of _ ?p] exI [of _ ?c] exI [of _ S])
        (simp_all add: fm)
  qed
qed

section \<open>The payload of a fresh block\<close>

definition fresh_sink :: state where
  "fresh_sink = \<lparr>heap = (\<lambda>_. 0), heap_listp = 0, tree_root = 0, mem_brk = 0x1000,
     mem_max_addr = 0x100000, mem_fail = - 1\<rparr>"

text \<open>
  A run in which \<^verbatim>\<open>mm_malloc\<close> changes a word of the payload it returns: after
  \<^verbatim>\<open>mm_init\<close>, \<^verbatim>\<open>p = mm_malloc(8)\<close>, \<^verbatim>\<open>mm_malloc(4072)\<close> and \<^verbatim>\<open>mm_free(p)\<close>, the only free
  block is the last one before the epilogue. \<^verbatim>\<open>mm_malloc(4080)\<close> finds no fit, extends the
  heap and merges the new block with that free block; the header that \<^verbatim>\<open>extend_heap\<close>
  writes over the old epilogue ends up at offset 12 of the payload returned. The result
  of the run is the pointer returned and the word at offset 12 before and after the call.
\<close>

definition payload_run :: "(ptr \<times> 32 word \<times> 32 word) res" where
  "payload_run =
     bnd (mm_init fresh_sink) (\<lambda>(s1, _).
     bnd (mm_malloc s1 8) (\<lambda>(s2, p).
     bnd (mm_malloc s2 4072) (\<lambda>(s3, _).
     bnd (mm_free s3 p) (\<lambda>s4.
     bnd (mm_malloc s4 4080) (\<lambda>(s5, r).
       ret (r, GET (heap s4) (r + 12), GET (heap s5) (r + 12)))))))"

theorem malloc_writes_payload:
  "payload_run = ret (0x2000, 1, 4096)"
  by (simp add: payload_run_def fresh_sink_def eval_defs)

text \<open>
  C9 (as the code has it). On a well-formed heap, a request of at most \<open>2^31 - 16\<close> bytes
  returns. If the block returned was found in the index, no byte of the payload
  \<open>[p, p + size)\<close> has changed during the call. If the heap was extended, the same
  holds for every byte of the payload except the four bytes of the former epilogue
  header, just below the old break, where \<^verbatim>\<open>extend_heap\<close> writes the header of the new
  block.
\<close>

theorem mm_malloc_payload_frame:
  assumes "heap_ok s lo bs {}" and "0 < sz" and "unat sz + 16 \<le> 2 ^ 31"
  shows "\<exists>s' p. mm_malloc s sz = ret (s', p)
     \<and> (p \<noteq> NULL \<longrightarrow> (\<forall>i<unat sz.
           (mm_fitter (heap s) (tree_root s) (asize_of sz) = ret NULL
              \<longrightarrow> unat p + i + 4 < unat (mem_brk s) \<or> unat (mem_brk s) \<le> unat p + i)
           \<longrightarrow> heap s' (p + of_nat i) = heap s (p + of_nat i)))"
proof -
  let ?X = "if mm_fitter (heap s) (tree_root s) (asize_of sz) = ret NULL
            then {unat (mem_brk s) - 4..<unat (mem_brk s)} else {}"
  obtain s' p where m: "mm_malloc s sz = ret (s', p)"
    and r: "p \<noteq> NULL \<longrightarrow> (\<exists>bs' x c S. heap_ok s' lo bs' {} \<and> (noadj bs \<longrightarrow> noadj bs')
          \<and> p = of_nat x \<and> unat sz + 8 \<le> c
          \<and> set (allocs (lo + 8) bs') = insert (x, c) (set (allocs (lo + 8) bs))
          \<and> x \<notin> fst ` set (allocs (lo + 8) bs)
          \<and> chg (heap s) (heap s') S \<and> clear (S - ?X) x (x + c - 8)
          \<and> (\<forall>(y, d)\<in>set (allocs (lo + 8) bs). clear S y (y + d - 8)))"
    using mm_malloc_correct [OF assms] by blast
  have "heap s' (p + of_nat i) = heap s (p + of_nat i)"
    if nn: "p \<noteq> NULL" and i: "i < unat sz"
      and e: "mm_fitter (heap s) (tree_root s) (asize_of sz) = ret NULL
              \<longrightarrow> unat p + i + 4 < unat (mem_brk s) \<or> unat (mem_brk s) \<le> unat p + i" for i
  proof -
    obtain bs' x c S where ok': "heap_ok s' lo bs' {}" and p: "p = of_nat x"
      and c: "unat sz + 8 \<le> c"
      and al: "set (allocs (lo + 8) bs') = insert (x, c) (set (allocs (lo + 8) bs))"
      and ch: "chg (heap s) (heap s') S" and cl: "clear (S - ?X) x (x + c - 8)"
      using r nn by blast
    have xc: "(x, c) \<in> set (allocs (lo + 8) bs')" using al by simp
    note ap = heap_ok_alloc_ptr [OF ok' xc]
    have E: "unat (mem_brk s') < 2 ^ 32" using unsigned_less [of "mem_brk s'", where 'a = nat] by simp
    have xi: "x + i < 2 ^ 32" "x \<le> x + i" "x + i < x + c - 8" using ap(6) E i c by simp_all
    have up: "unat p = x" using p ap(2) by simp
    have nX: "x + i \<notin> ?X" using e up by auto
    have "x + i \<notin> S - ?X"
    proof
      assume "x + i \<in> S - ?X"
      then have "x + i < x \<or> x + c - 8 \<le> x + i" using cl unfolding clear_def by blast
      then show False using xi(2,3) by simp
    qed
    then have "x + i \<notin> S" using nX by blast
    then have "heap s' (of_nat (x + i)) = heap s (of_nat (x + i))"
      using ch xi(1) unfolding chg_def by blast
    then show ?thesis unfolding p by simp
  qed
  then show ?thesis using m by blast
qed

definition one_free_block :: state where
  "one_free_block =
     \<lparr>heap = PUT (PUT (PUT (PUT (PUT (\<lambda>_. 0) 12 9) 16 9) 20 64) 80 64) 84 1,
      heap_listp = 16, tree_root = 24, mem_brk = 88, mem_max_addr = 88, mem_fail = - 1\<rparr>"

lemma one_free_block_ok: "heap_ok one_free_block 8 [(8, True), (64, False)] {}"
proof -
  let ?m = "heap one_free_block"
  have g: "GET ?m 12 = 9" "GET ?m 16 = 9" "GET ?m 20 = 64" "GET ?m 80 = 64" "GET ?m 84 = 1"
    "GET ?m 24 = 0" "GET ?m 28 = 0"
    by (simp_all add: one_free_block_def GET_def PUT_def)
  have t: "tag (8, True) = 9" "tag (64, False) = 64" by (simp_all add: tag_def PACK_def)
  have c: "cseg ?m 16 [(8, True), (64, False)] 88"
    using g by (simp add: blk_def W_def t)
  have "Tree ?m 24 (Node Leaf 24 Leaf) \<and> ordered ?m (Node Leaf 24 Leaf)"
    using g by (simp add: LEFT_def RIGHT_def WSIZE_def)
  then have tr: "tree_ok ?m 24 {24}" unfolding tree_ok_def by (intro exI [of _ "Node Leaf 24 Leaf"]) simp
  have "set (frees 16 [(8, True), (64, False)]) - {} = {24 :: nat}" by auto
  then show ?thesis
    using c tr g(5) by (simp add: heap_ok_def W_def) (simp add: one_free_block_def)
qed

theorem mm_malloc_payload_frame_witness:
  "heap_ok one_free_block 8 [(8, True), (64, False)] {}
   \<and> (\<exists>s'. mm_malloc one_free_block 8 = ret (s', 72)
        \<and> heap s' 72 = heap one_free_block 72 \<and> heap s' 79 = heap one_free_block 79)"
proof -
  have e: "\<exists>s'. mm_malloc one_free_block 8 = ret (s', 72)"
    by (simp add: one_free_block_def eval_defs)
  have f: "mm_fitter (heap one_free_block) (tree_root one_free_block) (asize_of 8) \<noteq> ret NULL"
    by (simp add: one_free_block_def asize_of_def eval_defs)
  obtain s' p where m: "mm_malloc one_free_block 8 = ret (s', p)"
    and r: "p \<noteq> NULL \<longrightarrow> (\<forall>i<unat (8 :: 32 word).
           (mm_fitter (heap one_free_block) (tree_root one_free_block) (asize_of 8) = ret NULL
              \<longrightarrow> unat p + i + 4 < unat (mem_brk one_free_block) \<or> unat (mem_brk one_free_block) \<le> unat p + i)
           \<longrightarrow> heap s' (p + of_nat i) = heap one_free_block (p + of_nat i))"
    using mm_malloc_payload_frame [OF one_free_block_ok, of 8] by auto
  have p: "p = 72" using e m by auto
  have a: "\<forall>i<8. heap s' (72 + of_nat i) = heap one_free_block (72 + of_nat i)"
    using r f unfolding p by auto
  have "heap s' (72 + of_nat 0) = heap one_free_block (72 + of_nat 0)"
    "heap s' (72 + of_nat 7) = heap one_free_block (72 + of_nat 7)"
    using a [rule_format, of 0] a [rule_format, of 7] by simp_all
  then show ?thesis using one_free_block_ok m p by simp
qed

section \<open>Alignment of the pointers returned\<close>

lemma dvd8_mod32: "8 dvd n \<Longrightarrow> 8 dvd n mod 4294967296" for n :: nat
  by (rule dvd_mod) simp_all

lemma al8_of_nat: "8 dvd n \<Longrightarrow> 8 dvd unat (of_nat n :: 32 word)"
  by (simp add: unat_of_nat dvd8_mod32)

lemma al8_add: "8 dvd unat a \<Longrightarrow> 8 dvd unat b \<Longrightarrow> 8 dvd unat (a + b)" for a b :: "32 word"
  by (simp add: unat_word_ariths dvd8_mod32)

lemma al8_mult: "8 dvd unat (8 * w)" for w :: "32 word"
  by (simp add: unat_word_ariths dvd8_mod32)

lemma al8_and7: "x AND 7 = 0 \<Longrightarrow> 8 dvd unat x" for x :: "32 word"
proof -
  assume a: "x AND 7 = 0"
  have "take_bit 3 x = x AND mask 3" by (rule take_bit_eq_mask)
  then have "take_bit 3 x = 0" using a by (simp add: seven_mask)
  then have "unat (take_bit 3 x) = 0" by simp
  then have "take_bit 3 (unat x) = 0" by (simp add: unsigned_take_bit_eq)
  then show ?thesis by (simp add: take_bit_eq_mod dvd_eq_mod_eq_0)
qed

lemma al8_mask: "8 dvd unat (w AND NOT 7)" for w :: "32 word"
proof -
  have "(w AND NOT 7) AND 7 = 0"
    by (rule bit_word_eqI) (auto simp add: bit_simps seven_mask)
  then show ?thesis by (rule al8_and7)
qed

lemma bnd_retD: "bnd x f = ret v \<Longrightarrow> \<exists>u. x = ret u \<and> f u = ret v"
  by (cases x) (auto simp add: bnd_def ret_def split: sum.splits)

lemma place_result:
  assumes "place s bp asize = ret (s', p)"
  shows "p = bp \<or> (\<exists>w. p = bp + (w AND NOT 7))"
proof -
  have n: "NEXT_BLKP m bp = bp + (GET m (HDRP bp) AND NOT 7)" for m
    by (simp add: NEXT_BLKP_def GET_SIZE_def HDRP_def)
  show ?thesis
    using assms unfolding place_def Let_def n
    by (auto dest!: bnd_retD split: if_splits)
qed

lemma al8_place:
  assumes "place s bp asize = ret (s', p)" "8 dvd unat bp"
  shows "8 dvd unat p"
  using place_result [OF assms(1)] assms(2) al8_add [OF assms(2) al8_mask] by auto

lemma cseg_tot_dvd: "cseg m x bs e \<Longrightarrow> 8 dvd tot bs"
  by (induction bs arbitrary: x) (auto simp add: blk_def)

lemma heap_ok_aligned:
  assumes "heap_ok s lo (pre @ b # post) H"
  shows "8 dvd lo + 8 + tot pre"
proof -
  have "8 dvd tot pre" using heap_ok_split(1) [OF assms] by (rule cseg_tot_dvd)
  moreover have "8 dvd lo" using assms by (simp add: heap_ok_def)
  ultimately show ?thesis by simp
qed

lemma al8_asize_of: "8 dvd unat (asize_of sz)"
proof -
  have "8 dvd unat (16 :: 32 word)" by simp
  then show ?thesis using al8_mult by (simp add: asize_of_def DSIZE_def OVERHEAD_def)
qed

lemma mm_malloc_unfold:
  "mm_malloc s sz =
    (if sz \<le> 0 then ret (s, NULL)
     else bnd (mm_fitter (heap s) (tree_root s) (asize_of sz)) (\<lambda>bp.
       if bp \<noteq> NULL then
         bnd (mm_remove (heap s) (tree_root s) bp) (\<lambda>(m1, root).
           place (s\<lparr>heap := m1, tree_root := root\<rparr>) bp (asize_of sz))
       else
         bnd (extend_heap s (MAX_macro (asize_of sz) CHUNKSIZE div WSIZE)) (\<lambda>(s1, bp).
           if bp = NULL then ret (s1, NULL) else place s1 bp (asize_of sz))))"
  unfolding mm_malloc_def Let_def asize_of_def ..

lemma mm_malloc_al8:
  assumes ok: "heap_ok s lo bs {}" and m: "mm_malloc s sz = ret (s', p)"
  shows "8 dvd unat p"
proof (cases "sz \<le> 0")
  case True
  then show ?thesis using m by (simp add: mm_malloc_unfold)
next
  case False
  let ?F = "set (frees (lo + 8) bs)"
  let ?as = "asize_of sz"
  have tr: "tree_ok (heap s) (tree_root s) ?F" using heap_ok_tree [OF ok] by simp
  have ws: "wsep ?F" by (rule heap_ok_wsep [OF ok])
  obtain r where r: "mm_fitter (heap s) (tree_root s) ?as = ret r"
    "r \<noteq> NULL \<longrightarrow> (\<exists>y\<in>?F. r = of_nat y)"
    using tree_ok_fitter [OF tr, of ?as] by blast
  show ?thesis
  proof (cases "r = NULL")
    case hit: False
    then obtain y where y: "y \<in> ?F" "r = of_nat y" using r(2) by blast
    obtain m1 r1 where rm: "mm_remove (heap s) (tree_root s) (of_nat y) = ret (m1, r1)"
      using tree_ok_remove [OF tr y(1) ws] by blast
    have pl: "place (s\<lparr>heap := m1, tree_root := r1\<rparr>) (of_nat y) ?as = ret (s', p)"
      using m False hit unfolding mm_malloc_unfold r(1) y(2) by (simp add: rm)
    obtain pre c post where d: "bs = pre @ (c, False) # post" "y = lo + 8 + tot pre"
      using frees_decomp [OF y(1)] by blast
    have "8 dvd y" using heap_ok_aligned [of s lo pre "(c, False)" post "{}"] ok d by simp
    then show ?thesis using al8_place [OF pl] al8_of_nat by blast
  next
    case miss: True
    let ?A = "unat ?as"
    let ?N = "max ?A 4096"
    have A: "?as = of_nat ?A" "?A < 2 ^ 32" "8 dvd ?A"
      using unsigned_less [of ?as, where 'a = nat] al8_asize_of [of sz] by simp_all
    have N: "16 \<le> ?N" "8 dvd ?N" "?N < 2 ^ 32" using A(2,3) by (auto simp add: max_def)
    have mx: "MAX_macro ?as CHUNKSIZE = of_nat ?N"
      using MAX_of_nat [OF A(2)] A(1) by simp
    have w: "ext_bytes (MAX_macro ?as CHUNKSIZE div WSIZE) = of_nat ?N"
      unfolding mx by (rule ext_bytes_even [OF N(2,3)])
    have m0: "bnd (extend_heap s (MAX_macro ?as CHUNKSIZE div WSIZE))
        (\<lambda>(s1, bp). if bp = NULL then ret (s1, NULL) else place s1 bp ?as) = ret (s', p)"
      using m False miss unfolding mm_malloc_unfold r(1) by simp
    show ?thesis
    proof (cases "unat (mem_brk s) + ?N \<le> unat (mem_max_addr s)")
      case False
      then have "sink_refuses s (ext_bytes (MAX_macro ?as CHUNKSIZE div WSIZE))"
        unfolding w sink_refuses_def using N(3) by (simp add: unat_of_nat32)
      moreover have "mem_fail s = - 1" using ok by (simp add: heap_ok_def)
      ultimately have "extend_heap s (MAX_macro ?as CHUNKSIZE div WSIZE) = ret (s, NULL)"
        by (rule extend_heap_refused [rotated])
      then show ?thesis using m0 by simp
    next
      case True
      let ?x = "lo + 8 + tot bs - co_prev bs"
      obtain m2 r2 where ex: "extend_heap s (MAX_macro ?as CHUNKSIZE div WSIZE)
            = ret (s\<lparr>mem_brk := mem_brk s + of_nat ?N, heap := m2, tree_root := r2\<rparr>, of_nat ?x)"
        and ok2: "heap_ok (s\<lparr>mem_brk := mem_brk s + of_nat ?N, heap := m2, tree_root := r2\<rparr>) lo
                (co_pre bs @ (co_prev bs + ?N, False) # []) {?x}"
        and x: "?x = lo + 8 + tot (co_pre bs)"
        using extend_heap_correct [OF ok N(1,2) w True] by blast
      have ax: "8 dvd ?x" unfolding x by (rule heap_ok_aligned [OF ok2])
      have "p = NULL \<or> place (s\<lparr>mem_brk := mem_brk s + of_nat ?N, heap := m2, tree_root := r2\<rparr>)
          (of_nat ?x) ?as = ret (s', p)"
        using m0 unfolding ex by (auto split: if_splits)
      then show ?thesis using al8_place al8_of_nat [OF ax] by auto
    qed
  qed
qed

text \<open>
  C8. On a well-formed heap, every pointer that \<^verbatim>\<open>mm_malloc\<close> returns, for any size, is a
  multiple of 8. A request of at most \<open>2^31 - 16\<close> bytes does return, and its adjusted
  size is 16 for a size of at most 8 and otherwise the size plus 8 rounded up to a
  multiple of 8.
\<close>

theorem mm_malloc_aligned:
  assumes "heap_ok s lo bs {}"
  shows "(\<forall>s' p. mm_malloc s sz = ret (s', p) \<longrightarrow> 8 dvd unat p)
     \<and> (0 < sz \<and> unat sz + 16 \<le> 2 ^ 31 \<longrightarrow>
          (\<exists>s' p. mm_malloc s sz = ret (s', p))
          \<and> unat (asize_of sz) = (if unat sz \<le> 8 then 16 else 8 * ((unat sz + 8 + 7) div 8)))"
proof -
  have "unat (asize_of sz) = (if unat sz \<le> 8 then 16 else 8 * ((unat sz + 8 + 7) div 8))"
    if b: "unat sz + 16 \<le> 2 ^ 31"
  proof -
    have "asize_of sz = of_nat (adj (unat sz))" by (rule asize_of_nat) (use b in simp)
    moreover have "adj (unat sz) < 2 ^ 32" using adj_bounds(4) [of "unat sz"] b by auto
    ultimately have "unat (asize_of sz) = adj (unat sz)" by (simp add: unat_of_nat32)
    then show ?thesis by (simp add: adj_def add.assoc)
  qed
  then show ?thesis
    using mm_malloc_al8 [OF assms] mm_malloc_correct [OF assms, of sz] by blast
qed

theorem mm_malloc_aligned_witness:
  "heap_ok one_free_block 8 [(8, True), (64, False)] {}
   \<and> (\<exists>s'. mm_malloc one_free_block 8 = ret (s', 72)) \<and> 8 dvd unat (72 :: 32 word)
   \<and> unat (asize_of 8) = 16"
proof -
  have "\<exists>s'. mm_malloc one_free_block 8 = ret (s', 72)"
    by (simp add: one_free_block_def eval_defs)
  then obtain s' where e: "mm_malloc one_free_block 8 = ret (s', 72)" by blast
  have "8 dvd unat (72 :: 32 word)"
    using mm_malloc_aligned [OF one_free_block_ok, of 8] e by blast
  moreover have "unat (asize_of 8) = 16"
    using mm_malloc_aligned [OF one_free_block_ok, of 8] by simp
  ultimately show ?thesis using one_free_block_ok e by blast
qed

section \<open>Freeing a block\<close>

lemma allocs_co:
  assumes "pre \<noteq> []"
  shows "allocs x0 (co_pre pre @ (co_prev pre + c + co_next post, False) # co_post post)
    = allocs x0 (pre @ (c, False) # post)"
  using assms
proof (cases rule: co_pre_cases)
  case pA: A
  show ?thesis
  proof (cases rule: co_post_cases [of post])
    case A
    then show ?thesis using pA by simp
  next
    case (F ns post')
    then show ?thesis using pA by (simp add: allocs_append add.assoc)
  qed
next
  case pF: (F ps pre')
  show ?thesis
  proof (cases rule: co_post_cases [of post])
    case A
    then show ?thesis using pF by (simp add: allocs_append add.assoc)
  next
    case (F ns post')
    then show ?thesis using pF by (simp add: allocs_append add.assoc)
  qed
qed

lemma heap_ok_unmark:
  assumes ok: "heap_ok s lo (pre @ (c, True) # post) {}" and pre: "pre \<noteq> []"
    and x: "x = lo + 8 + tot pre"
  defines "m' \<equiv> retag (heap s) x (c, False)"
  shows "heap_ok (s\<lparr>heap := m'\<rparr>) lo (pre @ (c, False) # post) {x}"
    "chg (heap s) m' ({x - 4..<x} \<union> {x + c - 8..<x + c - 4})"
    "x \<notin> fst ` set (allocs (lo + 8) (pre @ (c, False) # post))"
proof -
  let ?m = "heap s"
  note sp = heap_ok_split [OF ok, folded x, simplified fst_conv]
  have lo: "8 \<le> lo" using ok by (simp add: heap_ok_def)
  have x4: "4 \<le> x" using x lo by simp
  have xe: "x + c \<le> 2 ^ 32" using sp(4,5) by simp
  have sz: "16 \<le> c" "8 dvd c"
    using heap_ok_sizes(1) [of s lo pre "[(c, True)]" post "{}"] ok pre by simp_all
  have b: "blk m' x (c, False)" unfolding m'_def by (rule blk_retag) (use x4 sz xe in auto)
  have o: "outside ?m m' (x - 4) (x + tot [(c, True)] - 4)"
    unfolding m'_def by (rule outside_retag) (use x4 sz xe in auto)
  have cg: "cseg m' x [(c, False)] (x + tot [(c, True)])" using b by simp
  have ok': "heap_ok s lo (pre @ [(c, True)] @ post) {}" using ok by simp
  have a: "y + 16 \<le> x" if "y \<in> set (frees (lo + 8) pre)" for y
    using frees_bounds [OF sp(1) that] by simp
  have q: "x + c \<le> y" if "y \<in> set (frees (x + c) post)" for y
    using frees_bounds [OF sp(3) that] by simp
  have "heap_ok (s\<lparr>heap := m'\<rparr>) lo (pre @ [(c, False)] @ post) {x}"
  proof (rule heap_ok_retag [OF ok' pre x refl o cg])
    show "\<forall>b\<in>set [(c, False)]. 16 \<le> fst b" using sz by simp
    show "\<And>y. y \<in> set (frees x [(c, True)]) \<Longrightarrow> y \<in> {}" by simp
    have d1: "x \<notin> set (frees (lo + 8) pre)" using a by fastforce
    have d2: "x \<notin> set (frees (x + c) post)" using q sz by fastforce
    show "set (frees (lo + 8) (pre @ [(c, False)] @ post)) - {x}
        = set (frees (lo + 8) (pre @ [(c, True)] @ post)) - {}"
      unfolding frees_mid x [symmetric] using d1 d2 by auto
  qed
  then show "heap_ok (s\<lparr>heap := m'\<rparr>) lo (pre @ (c, False) # post) {x}" by simp
  show "chg ?m m' ({x - 4..<x} \<union> {x + c - 8..<x + c - 4})"
    using chg_retag(1) [of x "(c, False)" ?m] x4 sz xe unfolding m'_def by simp
  have "y + d \<le> x \<or> x + c \<le> y" if "(y, d) \<in> set (allocs (lo + 8) (pre @ (c, False) # post))" for y d
  proof -
    have "(y, d) \<in> set (allocs (lo + 8) pre) \<or> (y, d) \<in> set (allocs (x + c) post)"
      using that by (simp add: allocs_append x)
    then show ?thesis
      using allocs_bounds [OF sp(1), of y d] allocs_bounds [OF sp(3), of y d] by auto
  qed
  moreover have "8 \<le> d" if "(y, d) \<in> set (allocs (lo + 8) (pre @ (c, False) # post))" for y d
  proof -
    have "(y, d) \<in> set (allocs (lo + 8) pre) \<or> (y, d) \<in> set (allocs (x + c) post)"
      using that by (simp add: allocs_append x)
    then show ?thesis
      using allocs_bounds [OF sp(1), of y d] allocs_bounds [OF sp(3), of y d] by auto
  qed
  ultimately show "x \<notin> fst ` set (allocs (lo + 8) (pre @ (c, False) # post))"
    using sz by fastforce
qed

lemma heap_ok_cseg: "heap_ok s lo bs H \<Longrightarrow> cseg (heap s) (lo + 8) bs (unat (mem_brk s))"
  by (simp add: heap_ok_def)

lemma mm_free_correct:
  assumes ok: "heap_ok s lo (pre @ (c, True) # post) {}" and pre: "pre \<noteq> []"
    and x: "x = lo + 8 + tot pre"
  defines "bs' \<equiv> co_pre pre @ (co_prev pre + c + co_next post, False) # co_post post"
  shows "\<exists>m' r' S. mm_free s (of_nat x) = ret (s\<lparr>heap := m', tree_root := r'\<rparr>)
     \<and> heap_ok (s\<lparr>heap := m', tree_root := r'\<rparr>) lo bs' {}
     \<and> (noadj (pre @ (c, True) # post) \<longrightarrow> noadj bs')
     \<and> set (allocs (lo + 8) bs') = set (allocs (lo + 8) (pre @ (c, True) # post)) - {(x, c)}
     \<and> x \<notin> fst ` set (allocs (lo + 8) bs')
     \<and> chg (heap s) m' S
     \<and> (\<forall>(y, d)\<in>set (allocs (lo + 8) bs'). clear S y (y + d - 8))"
proof -
  let ?m = "heap s"
  let ?mid = "pre @ (c, False) # post"
  let ?m2 = "retag ?m x (c, False)"
  let ?sm = "s\<lparr>heap := ?m2\<rparr>"
  let ?x' = "x - co_prev pre" and ?cs' = "co_prev pre + c + co_next post"
  note um = heap_ok_unmark [OF ok pre x]
  note r = heap_reads [OF ok pre, folded x, simplified fst_conv snd_conv]
  have x4: "4 \<le> x" using r by simp
  have sz: "16 \<le> c" "8 dvd c"
    using heap_ok_sizes(1) [of s lo pre "[(c, True)]" post "{}"] ok pre by simp_all
  have hx: "HDRP (of_nat x) = of_nat (x - 4)" by (rule HDRP_of_nat [OF x4])
  have pk: "PACK (of_nat c) 0 = tag (c, False)" by (rule PACK_tag)
  have rt: "PUT (PUT ?m (of_nat (x - 4)) (tag (c, False)))
      (FTRP (PUT ?m (of_nat (x - 4)) (tag (c, False))) (of_nat x)) (tag (c, False)) = ?m2"
    by (rule retag_PUT) (use x4 sz in simp_all)
  have m0: "mm_free s (of_nat x) = bnd (coalesce ?sm (of_nat x)) (\<lambda>(s1, bp1).
          bnd (mm_insert (heap s1) (tree_root s1) bp1) (\<lambda>(m3, root).
            ret (s1\<lparr>heap := m3, tree_root := root\<rparr>)))"
    unfolding mm_free_def Let_def
    apply (simp only: r)
    apply (simp only: pk hx rt)
    done
  have "\<exists>m1 r1. coalesce ?sm (of_nat x) = ret (?sm\<lparr>heap := m1, tree_root := r1\<rparr>, of_nat ?x')
      \<and> heap_ok (?sm\<lparr>heap := m1, tree_root := r1\<rparr>) lo bs' {?x'}
      \<and> ?x' = lo + 8 + tot (co_pre pre)
      \<and> chg (heap ?sm) m1 (links (set (frees (lo + 8) ?mid) - {x}
                   - (if snd (ntag post) then {?x'} else {}))
                 \<union> {?x' - 4..<?x'} \<union> {?x' + ?cs' - 8..<?x' + ?cs' - 4})"
    using coalesce_correct [OF um(1) x] unfolding bs'_def .
  then obtain m1 r1 where co: "coalesce ?sm (of_nat x) = ret (?sm\<lparr>heap := m1, tree_root := r1\<rparr>, of_nat ?x')"
    and ok1: "heap_ok (?sm\<lparr>heap := m1, tree_root := r1\<rparr>) lo bs' {?x'}"
    and x': "?x' = lo + 8 + tot (co_pre pre)"
    and c1: "chg (heap ?sm) m1 (links (set (frees (lo + 8) ?mid) - {x}
                   - (if snd (ntag post) then {?x'} else {}))
                 \<union> {?x' - 4..<?x'} \<union> {?x' + ?cs' - 8..<?x' + ?cs' - 4})"
    by blast
  let ?s1 = "?sm\<lparr>heap := m1, tree_root := r1\<rparr>"
  have xF: "?x' \<in> set (frees (lo + 8) bs')" unfolding bs'_def x' by (simp add: frees_append)
  obtain m3 r3 where ins: "mm_insert (heap ?s1) (tree_root ?s1) (of_nat ?x') = ret (m3, r3)"
    and ok3: "heap_ok (?s1\<lparr>heap := m3, tree_root := r3\<rparr>) lo bs' {}"
    and c3: "chg (heap ?s1) m3 (links (set (frees (lo + 8) bs')))"
    using heap_ok_insert [OF ok1 xF] by blast
  have eq: "?s1\<lparr>heap := m3, tree_root := r3\<rparr> = s\<lparr>heap := m3, tree_root := r3\<rparr>" by simp
  have call: "mm_free s (of_nat x) = ret (s\<lparr>heap := m3, tree_root := r3\<rparr>)"
    unfolding m0 co using ins by (simp add: eq)
  have ok3': "heap_ok (s\<lparr>heap := m3, tree_root := r3\<rparr>) lo bs' {}" using ok3 unfolding eq .
  have nj: "noadj bs'" if "noadj (pre @ (c, True) # post)"
  proof -
    have n: "noadj pre" "noadj ((c, True) # post)" using that by (auto simp add: noadj_append)
    have "noadj post" using n(2) by (cases post) auto
    moreover have "hd pre = (8, True)" using ok pre by (cases pre) (auto simp add: heap_ok_def)
    ultimately show ?thesis unfolding bs'_def using noadj_co(1) [OF n(1) _ pre] by blast
  qed
  have al1: "set (allocs (lo + 8) bs') = set (allocs (lo + 8) ?mid)"
    unfolding bs'_def using allocs_co [OF pre] by simp
  have al2: "set (allocs (lo + 8) (pre @ (c, True) # post)) = insert (x, c) (set (allocs (lo + 8) ?mid))"
    by (simp add: allocs_append x)
  have al: "set (allocs (lo + 8) bs') = set (allocs (lo + 8) (pre @ (c, True) # post)) - {(x, c)}"
    unfolding al1 al2 using um(3) by force
  have nx: "x \<notin> fst ` set (allocs (lo + 8) bs')" unfolding al1 by (rule um(3))
  let ?S = "({x - 4..<x} \<union> {x + c - 8..<x + c - 4})
      \<union> (links (set (frees (lo + 8) ?mid) - {x} - (if snd (ntag post) then {?x'} else {}))
                 \<union> {?x' - 4..<?x'} \<union> {?x' + ?cs' - 8..<?x' + ?cs' - 4})
      \<union> links (set (frees (lo + 8) bs'))"
  have c1': "chg ?m2 m1 (links (set (frees (lo + 8) ?mid) - {x}
                   - (if snd (ntag post) then {?x'} else {}))
                 \<union> {?x' - 4..<?x'} \<union> {?x' + ?cs' - 8..<?x' + ?cs' - 4})" using c1 by simp
  have c3': "chg m1 m3 (links (set (frees (lo + 8) bs')))" using c3 by simp
  have ch: "chg ?m m3 ?S" by (rule chg_trans [OF chg_trans [OF um(2) c1'] c3'])
  have le: "co_prev pre \<le> x" "x \<le> ?x' + co_prev pre"
  proof -
    have "fst (last pre) \<le> x" using r(13) by arith
    then show "co_prev pre \<le> x" "x \<le> ?x' + co_prev pre" by (simp_all add: co_prev_def)
  qed
  note sp1 = heap_ok_split [OF ok1 [unfolded bs'_def], folded x', simplified fst_conv]
  have oth: "clear ?S y (y + d - 8)" if yd: "(y, d) \<in> set (allocs (lo + 8) bs')" for y d
  proof -
    have "(y, d) \<in> set (allocs (lo + 8) (co_pre pre)) \<or> (y, d) \<in> set (allocs (?x' + ?cs') (co_post post))"
      using yd unfolding bs'_def by (simp add: allocs_append x' add.assoc)
    then have side: "(y + d \<le> ?x' \<or> ?x' + ?cs' \<le> y) \<and> 8 \<le> d"
      using allocs_bounds [OF sp1(1), of y d] allocs_bounds [OF sp1(3), of y d] by auto
    have z1: "z + 8 \<le> y \<or> y + d - 8 \<le> z" if "z \<in> set (frees (lo + 8) bs')" for z
      using frees_allocs_disj [OF heap_ok_cseg [OF ok1] that yd] by auto
    have yd2: "(y, d) \<in> set (allocs (lo + 8) ?mid)" using yd al1 by simp
    have z2: "z + 8 \<le> y \<or> y + d - 8 \<le> z" if "z \<in> set (frees (lo + 8) ?mid)" for z
      using frees_allocs_disj [OF heap_ok_cseg [OF um(1)] that yd2] by auto
    have 1: "clear (links (set (frees (lo + 8) bs'))) y (y + d - 8)"
      by (rule clear_links) (use z1 in auto)
    have 2: "clear (links (set (frees (lo + 8) ?mid) - {x} - (if snd (ntag post) then {?x'} else {})))
        y (y + d - 8)"
      by (rule clear_links) (use z2 in auto)
    have 3: "clear ({x - 4..<x} \<union> {x + c - 8..<x + c - 4} \<union> {?x' - 4..<?x'}
        \<union> {?x' + ?cs' - 8..<?x' + ?cs' - 4}) y (y + d - 8)"
      using side le sz unfolding clear_Un by (auto intro!: clear_interval)
    show ?thesis using 1 2 3 by simp
  qed
  show ?thesis
    using call ok3' nj al nx ch oth
    by (intro exI [of _ m3] exI [of _ r3] exI [of _ ?S]) auto
qed

section \<open>Initialisation\<close>

definition sink_ok :: "state \<Rightarrow> bool" where
  "sink_ok s \<longleftrightarrow> mem_fail s = - 1 \<and> 8 \<le> unat (mem_brk s) \<and> 8 dvd unat (mem_brk s)
     \<and> unat (mem_max_addr s) < unat (mem_brk s) + 2 ^ 31"

lemma heap_ok_sentinels:
  assumes sk: "sink_ok s0" and fit: "unat (mem_brk s0) + 16 \<le> unat (mem_max_addr s0)"
  defines "B \<equiv> unat (mem_brk s0)"
  defines "m4 \<equiv> PUT (PUT (PUT (PUT (heap s0) (of_nat B) 0) (of_nat (B + 4)) (PACK 8 1))
                  (of_nat (B + 8)) (PACK 8 1)) (of_nat (B + 12)) (PACK 0 1)"
  shows "heap_ok (s0\<lparr>tree_root := NULL, mem_brk := mem_brk s0 + 16, heap := m4,
            heap_listp := of_nat (B + 8)\<rparr>) B [(8, True)] {}"
proof -
  have mx: "unat (mem_max_addr s0) < 2 ^ 32"
    using unsigned_less [of "mem_max_addr s0", where 'a = nat] by simp
  have B: "8 \<le> B" "8 dvd B" "B + 16 < 2 ^ 32" using sk fit mx by (simp_all add: sink_ok_def B_def)
  have u: "unat (mem_brk s0 + 16) = B + 16"
    using B(3) by (simp add: unat_word_ariths B_def)
  have t: "tag (8, True) = PACK 8 1" "PACK 0 1 = 1" by (simp_all add: tag_def PACK_def)
  have w1: "W m4 (B + 4) = PACK 8 1"
  proof -
    have "W m4 (B + 4) = W (PUT (PUT (PUT (heap s0) (of_nat B) 0) (of_nat (B + 4)) (PACK 8 1))
                  (of_nat (B + 8)) (PACK 8 1)) (B + 4)"
      unfolding m4_def by (rule W_PUT_other) (use B in auto)
    also have "\<dots> = W (PUT (PUT (heap s0) (of_nat B) 0) (of_nat (B + 4)) (PACK 8 1)) (B + 4)"
      by (rule W_PUT_other) (use B in auto)
    finally show ?thesis by (simp only: W_PUT_same)
  qed
  have w2: "W m4 (B + 8) = PACK 8 1"
  proof -
    have "W m4 (B + 8) = W (PUT (PUT (PUT (heap s0) (of_nat B) 0) (of_nat (B + 4)) (PACK 8 1))
                  (of_nat (B + 8)) (PACK 8 1)) (B + 8)"
      unfolding m4_def by (rule W_PUT_other) (use B in auto)
    then show ?thesis by (simp only: W_PUT_same)
  qed
  have w3: "W m4 (B + 12) = 1" unfolding m4_def by (simp only: W_PUT_same t)
  have c: "cseg m4 (B + 8) [(8, True)] (B + 16)"
    using w1 w2 by (simp add: blk_def t add.commute)
  have c12: "12 + B = B + 12" by simp
  show ?thesis
    using sk fit c w3 B
    by (simp add: heap_ok_def u sink_ok_def B_def [symmetric] c12)
qed

lemma mm_init_correct:
  assumes sk: "sink_ok s0" and fit: "unat (mem_brk s0) + 16 + 4096 \<le> unat (mem_max_addr s0)"
  shows "\<exists>m' r'. mm_init s0 = ret (s0\<lparr>tree_root := r', mem_brk := mem_brk s0 + 16 + 4096,
              heap_listp := mem_brk s0 + 8, heap := m'\<rparr>, 0)
     \<and> heap_ok (s0\<lparr>tree_root := r', mem_brk := mem_brk s0 + 16 + 4096,
              heap_listp := mem_brk s0 + 8, heap := m'\<rparr>) (unat (mem_brk s0)) [(8, True), (4096, False)] {}"
proof -
  let ?B = "unat (mem_brk s0)"
  let ?m4 = "PUT (PUT (PUT (PUT (heap s0) (of_nat ?B) 0) (of_nat (?B + 4)) (PACK 8 1))
                  (of_nat (?B + 8)) (PACK 8 1)) (of_nat (?B + 12)) (PACK 0 1)"
  let ?s4 = "s0\<lparr>tree_root := NULL, mem_brk := mem_brk s0 + 16, heap := ?m4,
            heap_listp := of_nat (?B + 8)\<rparr>"
  have fit16: "?B + 16 \<le> unat (mem_max_addr s0)" using fit by simp
  have ok4: "heap_ok ?s4 ?B [(8, True)] {}" by (rule heap_ok_sentinels [OF sk fit16])
  have mx: "unat (mem_max_addr s0) < 2 ^ 32"
    using unsigned_less [of "mem_max_addr s0", where 'a = nat] by simp
  have B: "8 \<le> ?B" "?B + 16 < 2 ^ 32" using sk fit mx by (simp_all add: sink_ok_def)
  have u: "unat (mem_brk s0 + 16) = ?B + 16" using B(2) by (simp add: unat_word_ariths)
  have nz: "mem_brk s0 \<noteq> NULL" using B(1) by auto
  have ofB: "of_nat ?B = mem_brk s0" by simp
  have w: "ext_bytes (CHUNKSIZE div WSIZE) = of_nat 4096"
    by (simp add: ext_bytes_def CHUNKSIZE_def WSIZE_def)
  have fit4: "unat (mem_brk ?s4) + 4096 \<le> unat (mem_max_addr ?s4)" using fit u by simp
  have cp: "co_prev [(8, True)] = 0" "co_pre [(8, True)] = [(8, True)]"
    by (simp_all add: co_prev_def co_pre_def)
  have xe: "?B + 8 + tot [(8, True)] - co_prev [(8, True)] = ?B + 16"
    and ce: "co_prev [(8, True)] + 4096 = 4096" by (simp_all add: cp)
  have n1: "16 \<le> (4096 :: nat)" "8 dvd (4096 :: nat)" by simp_all
  note eh = extend_heap_correct [OF ok4 n1 w fit4, unfolded xe ce cp(2)]
  then obtain m5 r5 where ex: "extend_heap ?s4 (CHUNKSIZE div WSIZE)
             = ret (?s4\<lparr>mem_brk := mem_brk ?s4 + of_nat 4096, heap := m5, tree_root := r5\<rparr>,
                  of_nat (?B + 16))"
    and ok5: "heap_ok (?s4\<lparr>mem_brk := mem_brk ?s4 + of_nat 4096, heap := m5, tree_root := r5\<rparr>) ?B
                ([(8, True)] @ (4096, False) # []) {?B + 16}"
    by blast
  let ?s5 = "?s4\<lparr>mem_brk := mem_brk ?s4 + of_nat 4096, heap := m5, tree_root := r5\<rparr>"
  have nn: "(of_nat (?B + 16) :: ptr) \<noteq> NULL"
    using heap_ok_key(4) [OF ok5] by (simp add: add.commute)
  have yF: "?B + 16 \<in> set (frees (?B + 8) ([(8, True)] @ (4096, False) # []))" by simp
  obtain m6 r6 where ins: "mm_insert (heap ?s5) (tree_root ?s5) (of_nat (?B + 16)) = ret (m6, r6)"
    and ok6: "heap_ok (?s5\<lparr>heap := m6, tree_root := r6\<rparr>) ?B ([(8, True)] @ (4096, False) # []) {}"
    using heap_ok_insert [OF ok5 yF] by blast
  have eq: "?s5\<lparr>heap := m6, tree_root := r6\<rparr> = s0\<lparr>tree_root := r6, mem_brk := mem_brk s0 + 16 + 4096,
              heap_listp := mem_brk s0 + 8, heap := m6\<rparr>" by simp
  have sb: "mem_sbrk (s0\<lparr>tree_root := NULL\<rparr>) (4 * WSIZE)
      = (mem_brk s0, s0\<lparr>tree_root := NULL, mem_brk := mem_brk s0 + 16\<rparr>)"
    using fit16 by (simp add: mem_sbrk_def WSIZE_def)
  have bb: "below_brk (s0\<lparr>tree_root := NULL, mem_brk := mem_brk s0 + 16, heap_listp := mem_brk s0\<rparr>)
      (mem_brk s0) 16"
    by (simp add: below_brk_def u)
  have c12: "12 + q = q + 12" for q :: ptr by simp
  have call: "mm_init s0 = ret (?s5\<lparr>heap := m6, tree_root := r6\<rparr>, 0)"
    unfolding mm_init_def Let_def sb split_conv
    using nz bb ins nn ex by (simp add: WSIZE_def DSIZE_def OVERHEAD_def c12)
  show ?thesis using call ok6 unfolding eq by (intro exI [of _ m6] exI [of _ r6]) simp
qed

section \<open>Reallocation\<close>

lemma chg_W:
  assumes "chg m m' T" "t + 4 \<le> 2 ^ 32" "\<And>i. i \<in> T \<Longrightarrow> i < t \<or> t + 4 \<le> i"
  shows "W m' t = W m t"
proof -
  have b: "m' (of_nat i) = m (of_nat i)" if "t \<le> i" "i < t + 4" for i
  proof -
    have "i \<notin> T" using assms(3) [of i] that by auto
    moreover have "i < 2 ^ 32" using that assms(2) by simp
    ultimately show ?thesis using assms(1) unfolding chg_def by blast
  qed
  have "GET m' (of_nat t) = GET m (of_nat t)"
    using b [of t] b [of "t + 1"] b [of "t + 2"] b [of "t + 3"]
    by (intro GET_cong_bytes) (simp_all add: add.commute)
  then show ?thesis by (simp add: W_def)
qed

lemma chg_memcpy:
  assumes "xn + unat n \<le> 2 ^ 32"
  shows "chg m (memcpy m (of_nat xn) src n) {xn..<xn + unat n}"
  unfolding chg_def
proof (intro allI impI)
  fix i :: nat assume i: "i < 2 ^ 32" "i \<notin> {xn..<xn + unat n}"
  have xn: "xn < 2 ^ 32 \<or> unat n = 0" using assms by auto
  show "memcpy m (of_nat xn) src n (of_nat i) = m (of_nat i)"
  proof (cases "unat n = 0")
    case True
    then have "n = 0" by (simp add: unat_eq_0)
    then show ?thesis by (simp add: memcpy_def)
  next
    case False
    then have x32: "xn < 2 ^ 32" using assms by simp
    have "unat (of_nat i - of_nat xn :: ptr) = (if xn \<le> i then i - xn else 2 ^ 32 + i - xn)"
      by (rule unat_of_nat_diff [OF i(1) x32])
    then have "unat n \<le> unat (of_nat i - of_nat xn :: ptr)"
      using i(2) assms by (auto split: if_splits)
    then have "\<not> (of_nat i - of_nat xn :: ptr) < n" by (simp add: word_less_nat_alt)
    then show ?thesis by (simp add: memcpy_def)
  qed
qed

lemma memcpy_read:
  assumes "j < unat n"
  shows "memcpy m dst src n (dst + of_nat j) = m (src + of_nat j)"
proof -
  have "j < 2 ^ 32" using assms unsigned_less [of n, where 'a = nat] by simp
  then have "unat (of_nat j :: ptr) = j" by (rule unat_of_nat32)
  then have "(of_nat j :: ptr) < n" using assms by (simp add: word_less_nat_alt)
  then show ?thesis by (simp add: memcpy_def)
qed

lemma heap_ok_payload:
  assumes ok: "heap_ok s lo (pre @ (d, True) # post) {}" and pre: "pre \<noteq> []"
    and y: "y = lo + 8 + tot pre"
    and ch: "chg (heap s) m' T" and T: "T \<subseteq> {y..<y + d - 8}"
  shows "heap_ok (s\<lparr>heap := m'\<rparr>) lo (pre @ (d, True) # post) {}"
proof -
  let ?m = "heap s"
  note sp = heap_ok_split [OF ok, folded y, simplified fst_conv]
  have lo: "8 \<le> lo" using ok by (simp add: heap_ok_def)
  have y4: "4 \<le> y" using y lo by simp
  have ye: "y + d \<le> 2 ^ 32" using sp(4,5) by simp
  have sz: "16 \<le> d"
    using heap_ok_sizes(1) [of s lo pre "[(d, True)]" post "{}"] ok pre by simp
  have Ti: "y \<le> i \<and> i < y + d - 8" if "i \<in> T" for i using T that by auto
  have o: "outside ?m m' (y - 4) (y + tot [(d, True)] - 4)"
    unfolding outside_def
  proof (intro allI impI)
    fix t :: nat assume t: "t + 4 \<le> 2 ^ 32" "t + 4 \<le> y - 4 \<or> y + tot [(d, True)] - 4 \<le> t"
    show "W m' t = W ?m t"
      by (rule chg_W [OF ch t(1)]) (use Ti t(2) sz in fastforce)
  qed
  have b: "blk m' y (d, True)"
  proof (rule blk_cong [OF sp(2)])
    show "W m' (y - 4) = W ?m (y - 4)"
      by (rule chg_W [OF ch]) (use Ti y4 ye sz in fastforce)+
    show "W m' (y + fst (d, True) - 8) = W ?m (y + fst (d, True) - 8)"
      by (rule chg_W [OF ch]) (use Ti y4 ye sz in fastforce)+
  qed
  have c: "cseg m' y [(d, True)] (y + tot [(d, True)])" using b by simp
  have ok': "heap_ok s lo (pre @ [(d, True)] @ post) {}" using ok by simp
  have "heap_ok (s\<lparr>heap := m'\<rparr>) lo (pre @ [(d, True)] @ post) {}"
    by (rule heap_ok_retag [OF ok' pre y refl o c]) (use sz in simp_all)
  then show ?thesis by simp
qed

lemma allocs_hd:
  assumes "heap_ok s lo bs H" "bs = pre @ (d, True) # post" "d \<noteq> 8 \<or> lo + 8 + tot pre \<noteq> lo + 8"
  shows "pre \<noteq> []"
proof
  assume "pre = []"
  then have "hd bs = (d, True)" "tot pre = 0" using assms(2) by simp_all
  then show False using assms(1,3) by (simp add: heap_ok_def)
qed

lemma mm_realloc_correct:
  assumes ok: "heap_ok s lo bs {}" and live: "(x, c) \<in> set (allocs (lo + 8) bs)"
    and np: "x \<noteq> lo + 8" and sz: "0 < sz" "unat sz + 16 \<le> 2 ^ 31"
  shows "(mm_malloc s sz = ret (s, NULL) \<and> mm_realloc s (of_nat x) sz = fault (Exit 1))
     \<or> (\<exists>s1 s' xn cn bs'. mm_malloc s sz = ret (s1, of_nat xn) \<and> (of_nat xn :: ptr) \<noteq> NULL
          \<and> mm_realloc s (of_nat x) sz = ret (s', of_nat xn)
          \<and> mm_free (s1\<lparr>heap := memcpy (heap s1) (of_nat xn) (of_nat x)
                  (if sz < of_nat c then sz else of_nat c)\<rparr>) (of_nat x) = ret s'
          \<and> heap_ok s' lo bs' {} \<and> (noadj bs \<longrightarrow> noadj bs')
          \<and> set (allocs (lo + 8) bs') = insert (xn, cn) (set (allocs (lo + 8) bs)) - {(x, c)}
          \<and> xn \<notin> fst ` set (allocs (lo + 8) bs) \<and> x \<notin> fst ` set (allocs (lo + 8) bs')
          \<and> unat sz + 8 \<le> cn
          \<and> (\<forall>j<min (unat sz) (c - 8). heap s' (of_nat (xn + j)) = heap s (of_nat (x + j))))"
proof -
  obtain s1 p where m: "mm_malloc s sz = ret (s1, p)" and pn: "p = NULL \<longrightarrow> s1 = s"
    and r: "p \<noteq> NULL \<longrightarrow> (\<exists>bs' x c S. heap_ok s1 lo bs' {} \<and> (noadj bs \<longrightarrow> noadj bs')
          \<and> p = of_nat x \<and> unat sz + 8 \<le> c
          \<and> set (allocs (lo + 8) bs') = insert (x, c) (set (allocs (lo + 8) bs))
          \<and> x \<notin> fst ` set (allocs (lo + 8) bs)
          \<and> chg (heap s) (heap s1) S
          \<and> clear (S - (if mm_fitter (heap s) (tree_root s) (asize_of sz) = ret NULL
                         then {unat (mem_brk s) - 4..<unat (mem_brk s)} else {})) x (x + c - 8)
          \<and> (\<forall>(y, d)\<in>set (allocs (lo + 8) bs). clear S y (y + d - 8)))"
    using mm_malloc_correct [OF ok sz] by blast
  show ?thesis
  proof (cases "p = NULL")
    case True
    then show ?thesis using m pn by (simp add: mm_realloc_def)
  next
    case False
    then obtain bs1 xn cn S where ok1: "heap_ok s1 lo bs1 {}" and nj1: "noadj bs \<longrightarrow> noadj bs1"
      and p: "p = of_nat xn" and cn: "unat sz + 8 \<le> cn"
      and al1: "set (allocs (lo + 8) bs1) = insert (xn, cn) (set (allocs (lo + 8) bs))"
      and fresh: "xn \<notin> fst ` set (allocs (lo + 8) bs)"
      and ch1: "chg (heap s) (heap s1) S"
      and oth1: "\<forall>(y, d)\<in>set (allocs (lo + 8) bs). clear S y (y + d - 8)"
      using r by blast
    have xl: "(x, c) \<in> set (allocs (lo + 8) bs1)" using al1 live by simp
    have nl: "(xn, cn) \<in> set (allocs (lo + 8) bs1)" using al1 by simp
    have xnx: "xn \<noteq> x" using fresh live by force
    obtain pre1 post1 where d1: "bs1 = pre1 @ (c, True) # post1" "x = lo + 8 + tot pre1"
      using allocs_decomp [OF xl] by blast
    obtain pn qn where dn: "bs1 = pn @ (cn, True) # qn" "xn = lo + 8 + tot pn"
      using allocs_decomp [OF nl] by blast
    have pre1: "pre1 \<noteq> []" by (rule allocs_hd [OF ok1 d1(1)]) (use np d1(2) in simp)
    have "0 < unat sz" using sz(1) by (simp add: word_less_nat_alt)
    then have pnn: "pn \<noteq> []" by (intro allocs_hd [OF ok1 dn(1)]) (use cn in simp)
    have ok1x: "heap_ok s1 lo (pre1 @ (c, True) # post1) {}" using ok1 d1(1) by simp
    have ok1n: "heap_ok s1 lo (pn @ (cn, True) # qn) {}" using ok1 dn(1) by simp
    note rd = heap_reads(1) [OF ok1x pre1, folded d1(2), simplified fst_conv]
    note apx = heap_ok_alloc_ptr [OF ok1 xl]
    note apn = heap_ok_alloc_ptr [OF ok1 nl]
    have E1: "unat (mem_brk s1) < 2 ^ 32" using unsigned_less [of "mem_brk s1", where 'a = nat] by simp
    let ?n = "if sz < of_nat c then sz else of_nat c :: 32 word"
    have c32: "c < 2 ^ 32" using apx(6) E1 by simp
    have un: "unat ?n = min (unat sz) c"
      using c32 by (auto simp add: word_less_nat_alt unat_of_nat32)
    let ?m1 = "memcpy (heap s1) (of_nat xn) (of_nat x) ?n"
    have nle: "xn + unat ?n \<le> xn + cn - 8" using un cn by simp
    have chm: "chg (heap s1) ?m1 {xn..<xn + unat ?n}"
      by (rule chg_memcpy) (use nle apn(6) E1 in simp)
    have okm: "heap_ok (s1\<lparr>heap := ?m1\<rparr>) lo (pn @ (cn, True) # qn) {}"
      by (rule heap_ok_payload [OF ok1n pnn dn(2) chm]) (use nle in auto)
    have okmx: "heap_ok (s1\<lparr>heap := ?m1\<rparr>) lo (pre1 @ (c, True) # post1) {}"
      using okm dn(1) d1(1) by simp
    let ?bs2 = "co_pre pre1 @ (co_prev pre1 + c + co_next post1, False) # co_post post1"
    obtain m' r' S2 where fr: "mm_free (s1\<lparr>heap := ?m1\<rparr>) (of_nat x)
          = ret (s1\<lparr>heap := ?m1\<rparr>\<lparr>heap := m', tree_root := r'\<rparr>)"
      and ok2: "heap_ok (s1\<lparr>heap := ?m1\<rparr>\<lparr>heap := m', tree_root := r'\<rparr>) lo ?bs2 {}"
      and nj2: "noadj (pre1 @ (c, True) # post1) \<longrightarrow> noadj ?bs2"
      and al2: "set (allocs (lo + 8) ?bs2) = set (allocs (lo + 8) (pre1 @ (c, True) # post1)) - {(x, c)}"
      and nx2: "x \<notin> fst ` set (allocs (lo + 8) ?bs2)"
      and ch2: "chg (heap (s1\<lparr>heap := ?m1\<rparr>)) m' S2"
      and oth2: "\<forall>(y, d)\<in>set (allocs (lo + 8) ?bs2). clear S2 y (y + d - 8)"
      using mm_free_correct [OF okmx pre1 d1(2)] by blast
    let ?s' = "s1\<lparr>heap := ?m1\<rparr>\<lparr>heap := m', tree_root := r'\<rparr>"
    have nn: "(of_nat xn :: ptr) \<noteq> NULL" using False p by simp
    have call: "mm_realloc s (of_nat x) sz = ret (?s', of_nat xn)"
      unfolding mm_realloc_def m p
      apply (simp only: bnd_ret split_conv nn if_False Let_def rd)
      apply (simp only: fr bnd_ret)
      done
    have al: "set (allocs (lo + 8) ?bs2) = insert (xn, cn) (set (allocs (lo + 8) bs)) - {(x, c)}"
      using al2 al1 d1(1) by simp
    have nl2: "(xn, cn) \<in> set (allocs (lo + 8) ?bs2)" unfolding al using xnx by simp
    have cl2: "clear S2 xn (xn + cn - 8)" using oth2 nl2 by blast
    have cl1: "clear S x (x + c - 8)" using oth1 live by blast
    have ch2': "chg ?m1 m' S2" using ch2 by simp
    have cont: "heap ?s' (of_nat (xn + j)) = heap s (of_nat (x + j))"
      if j: "j < min (unat sz) (c - 8)" for j
    proof -
      have j1: "xn \<le> xn + j" "xn + j < xn + cn - 8" "xn + j < 2 ^ 32"
        using j cn apn(6) E1 by (simp, arith, arith)
      have j2: "x \<le> x + j" "x + j < x + c - 8" "x + j < 2 ^ 32"
        using j apx(6) E1 by (simp, arith, arith)
      have "heap ?s' (of_nat (xn + j)) = ?m1 (of_nat (xn + j))"
        using chg_clear [OF ch2' cl2 j1] by simp
      also have "\<dots> = ?m1 (of_nat xn + of_nat j)" by simp
      also have "\<dots> = heap s1 (of_nat x + of_nat j)"
      proof (rule memcpy_read)
        have "j < c" using j by arith
        then show "j < unat ?n" using j un by simp
      qed
      also have "\<dots> = heap s1 (of_nat (x + j))" by simp
      also have "\<dots> = heap s (of_nat (x + j))" by (rule chg_clear [OF ch1 cl1 j2])
      finally show ?thesis .
    qed
    have nj: "noadj bs \<longrightarrow> noadj ?bs2" using nj1 nj2 d1(1) by simp
    have 1: "mm_malloc s sz = ret (s1, of_nat xn)" using m p by simp
    have 2: "\<forall>j<min (unat sz) (c - 8). heap ?s' (of_nat (xn + j)) = heap s (of_nat (x + j))"
      using cont by blast
    show ?thesis
      by (rule disjI2, rule exI [of _ s1], rule exI [of _ ?s'], rule exI [of _ xn],
          rule exI [of _ cn], rule exI [of _ ?bs2])
        (intro conjI 1 nn call fr ok2 nj al fresh nx2 cn 2)
  qed
qed

text \<open>
  A call of \<^verbatim>\<open>mm_realloc\<close> that does not return: for the size 0, \<^verbatim>\<open>mm_malloc\<close> returns
  null, and \<^verbatim>\<open>mm_realloc\<close> answers a null result with \<^verbatim>\<open>exit(1)\<close>.
\<close>

lemma mm_realloc_zero: "mm_realloc s p 0 = fault (Exit 1)"
  by (simp add: mm_realloc_def mm_malloc_def)

definition realloc_zero_run :: "(state \<times> ptr) res" where
  "realloc_zero_run =
     bnd (mm_init fresh_sink) (\<lambda>(s1, _).
     bnd (mm_malloc s1 8) (\<lambda>(s2, p). mm_realloc s2 p 0))"

theorem realloc_zero_exits:
  "realloc_zero_run = fault (Exit 1)"
  unfolding realloc_zero_run_def mm_realloc_zero
  by (simp add: fresh_sink_def eval_defs)

text \<open>
  C2 (as the code has it). Let the heap be well formed, \<open>ptr\<close> an allocated block other
  than the prologue, of block size \<open>c\<close>, and \<open>0 < size \<le> 2^31 - 16\<close>. If \<^verbatim>\<open>mm_malloc(size)\<close>
  returns null, \<^verbatim>\<open>mm_realloc(ptr, size)\<close> ends the program with \<^verbatim>\<open>exit(1)\<close>. Otherwise it
  returns the pointer \<^verbatim>\<open>mm_malloc\<close> returned, to a new allocated block with room for
  \<open>size\<close> bytes; the old block is no longer allocated, the other allocated blocks are the
  same, the heap is well formed, and the first \<open>min size (c - 8)\<close> bytes of the new
  payload are the bytes the old payload had on entry.
\<close>

theorem mm_realloc_spec:
  assumes "heap_ok s lo bs {}" and "(x, c) \<in> set (allocs (lo + 8) bs)" and "x \<noteq> lo + 8"
    and "0 < sz" and "unat sz + 16 \<le> 2 ^ 31"
  shows "(mm_malloc s sz = ret (s, NULL) \<and> mm_realloc s (of_nat x) sz = fault (Exit 1))
     \<or> (\<exists>s1 s' xn cn bs'. mm_malloc s sz = ret (s1, of_nat xn) \<and> (of_nat xn :: ptr) \<noteq> NULL
          \<and> mm_realloc s (of_nat x) sz = ret (s', of_nat xn)
          \<and> heap_ok s' lo bs' {}
          \<and> set (allocs (lo + 8) bs') = insert (xn, cn) (set (allocs (lo + 8) bs)) - {(x, c)}
          \<and> xn \<notin> fst ` set (allocs (lo + 8) bs) \<and> x \<notin> fst ` set (allocs (lo + 8) bs')
          \<and> unat sz + 8 \<le> cn
          \<and> (\<forall>j<min (unat sz) (c - 8). heap s' (of_nat (xn + j)) = heap s (of_nat (x + j))))"
proof (rule disjE [OF mm_realloc_correct [OF assms]])
  assume "mm_malloc s sz = ret (s, NULL) \<and> mm_realloc s (of_nat x) sz = fault (Exit 1)"
  then show ?thesis by (rule disjI1)
next
  assume "\<exists>s1 s' xn cn bs'. mm_malloc s sz = ret (s1, of_nat xn) \<and> (of_nat xn :: ptr) \<noteq> NULL
          \<and> mm_realloc s (of_nat x) sz = ret (s', of_nat xn)
          \<and> mm_free (s1\<lparr>heap := memcpy (heap s1) (of_nat xn) (of_nat x)
                  (if sz < of_nat c then sz else of_nat c)\<rparr>) (of_nat x) = ret s'
          \<and> heap_ok s' lo bs' {} \<and> (noadj bs \<longrightarrow> noadj bs')
          \<and> set (allocs (lo + 8) bs') = insert (xn, cn) (set (allocs (lo + 8) bs)) - {(x, c)}
          \<and> xn \<notin> fst ` set (allocs (lo + 8) bs) \<and> x \<notin> fst ` set (allocs (lo + 8) bs')
          \<and> unat sz + 8 \<le> cn
          \<and> (\<forall>j<min (unat sz) (c - 8). heap s' (of_nat (xn + j)) = heap s (of_nat (x + j)))"
  then obtain s1 s' xn cn bs' where f: "mm_malloc s sz = ret (s1, of_nat xn)" "(of_nat xn :: ptr) \<noteq> NULL"
    "mm_realloc s (of_nat x) sz = ret (s', of_nat xn)"
    "heap_ok s' lo bs' {}"
    "set (allocs (lo + 8) bs') = insert (xn, cn) (set (allocs (lo + 8) bs)) - {(x, c)}"
    "xn \<notin> fst ` set (allocs (lo + 8) bs)" "x \<notin> fst ` set (allocs (lo + 8) bs')"
    "unat sz + 8 \<le> cn"
    "\<forall>j<min (unat sz) (c - 8). heap s' (of_nat (xn + j)) = heap s (of_nat (x + j))"
    by (elim exE conjE)
  show ?thesis
    by (rule disjI2, rule exI [of _ s1], rule exI [of _ s'], rule exI [of _ xn],
        rule exI [of _ cn], rule exI [of _ bs']) (intro conjI f)
qed

lemma GET_memcpy_out:
  "\<not> p - dst < n \<Longrightarrow> \<not> p + 1 - dst < n \<Longrightarrow> \<not> p + 2 - dst < n \<Longrightarrow> \<not> p + 3 - dst < n
   \<Longrightarrow> GET (memcpy m dst src n) p = GET m p"
  by (simp add: GET_def memcpy_def)

definition two_blocks :: state where
  "two_blocks =
     \<lparr>heap = PUT (PUT (PUT (PUT (PUT (PUT (PUT (PUT (\<lambda>_. 0) 12 9) 16 9) 20 48) 64 48) 68 17)
               72 0x04030201) 80 17) 84 1,
      heap_listp = 16, tree_root = 24, mem_brk = 88, mem_max_addr = 88, mem_fail = - 1\<rparr>"

lemma two_blocks_ok: "heap_ok two_blocks 8 [(8, True), (48, False), (16, True)] {}"
proof -
  let ?m = "heap two_blocks"
  have g: "GET ?m 12 = 9" "GET ?m 16 = 9" "GET ?m 20 = 48" "GET ?m 64 = 48" "GET ?m 68 = 17"
    "GET ?m 80 = 17" "GET ?m 84 = 1" "GET ?m 24 = 0" "GET ?m 28 = 0"
    by (simp_all add: two_blocks_def GET_def PUT_def)
  have t: "tag (8, True) = 9" "tag (48, False) = 48" "tag (16, True) = 17"
    by (simp_all add: tag_def PACK_def)
  have c: "cseg ?m 16 [(8, True), (48, False), (16, True)] 88"
    using g by (simp add: blk_def W_def t)
  have "Tree ?m 24 (Node Leaf 24 Leaf) \<and> ordered ?m (Node Leaf 24 Leaf)"
    using g by (simp add: LEFT_def RIGHT_def WSIZE_def)
  then have tr: "tree_ok ?m 24 {24}" unfolding tree_ok_def by (intro exI [of _ "Node Leaf 24 Leaf"]) simp
  have "set (frees 16 [(8, True), (48, False), (16, True)]) - {} = {24 :: nat}" by auto
  then show ?thesis
    using c tr g(7) by (simp add: heap_ok_def W_def) (simp add: two_blocks_def)
qed

theorem mm_realloc_spec_witness:
  "heap_ok two_blocks 8 [(8, True), (48, False), (16, True)] {}
   \<and> (72, 16) \<in> set (allocs (8 + 8) [(8, True), (48, False), (16, True)])
   \<and> (\<exists>s'. mm_realloc two_blocks 72 8 = ret (s', 24) \<and> heap s' 24 = 1
        \<and> heap two_blocks 72 = 1)"
proof -
  have a: "(72, 16) \<in> set (allocs (8 + 8) [(8, True), (48, False), (16, True)])" by simp
  have e: "\<exists>s'. mm_realloc two_blocks 72 8 = ret (s', 24)"
    by (simp add: two_blocks_def eval_defs GET_memcpy_out)
  have h: "heap two_blocks 72 = 1" by (simp add: two_blocks_def PUT_def)
  note t = mm_realloc_spec [OF two_blocks_ok a, of 8]
  have "(72 :: nat) \<noteq> 8 + 8" "0 < (8 :: 32 word)" "unat (8 :: 32 word) + 16 \<le> 2 ^ 31" by simp_all
  then obtain s' xn where r: "mm_realloc two_blocks (of_nat 72) 8 = ret (s', of_nat xn)"
    and c: "\<forall>j<min (unat (8 :: 32 word)) (16 - 8). heap s' (of_nat (xn + j)) = heap two_blocks (of_nat (72 + j))"
    using t e by auto
  have x: "(of_nat xn :: ptr) = 24" using r e by auto
  have "heap s' (of_nat (xn + 0)) = heap two_blocks (of_nat (72 + 0))"
    using c [rule_format, of 0] by simp
  then have "heap s' 24 = 1" using x h by simp
  then show ?thesis using two_blocks_ok a r x h by auto
qed

section \<open>No two adjacent free blocks\<close>

text \<open>
  A run after which a free block is followed by a header with allocation flag 0. The
  adjusted size is computed in 32 bits with no test for overflow: for the request of
  \<open>0xFFFFFFF9\<close> bytes it wraps to 8, less than the smallest block. \<^verbatim>\<open>mm_malloc\<close> carves a
  block of 8 bytes at \<open>p\<close>, the next request takes the rest of the heap at \<open>q = p + 8\<close>, and
  \<^verbatim>\<open>mm_free(p)\<close> then stores the two links of the index node at \<open>p\<close> and \<open>p + 4\<close>: the second
  one is the header of the block at \<open>q\<close>. The result of the run is \<open>p\<close>, \<open>q\<close>, the header
  word of the block at \<open>p\<close> and the header word of the block after it.
\<close>

definition overflow_run :: "(ptr \<times> ptr \<times> 32 word \<times> 32 word) res" where
  "overflow_run =
     bnd (mm_init fresh_sink) (\<lambda>(s1, _).
     bnd (mm_malloc s1 8) (\<lambda>(s2, _).
     bnd (mm_malloc s2 0xFFFFFFF9) (\<lambda>(s3, p).
     bnd (mm_malloc s3 4064) (\<lambda>(s4, q).
     bnd (mm_free s4 p) (\<lambda>s5.
       ret (p, q, GET (heap s5) (HDRP p), GET (heap s5) (HDRP (NEXT_BLKP (heap s5) p))))))))"

theorem free_block_before_free_header:
  "overflow_run = ret (0x1010, 0x1018, 8, 0)"
  by (simp add: overflow_run_def fresh_sink_def eval_defs)

text \<open>
  The states a client reaches: \<^verbatim>\<open>mm_init\<close> on a fresh sink returned 0, and then every
  operation returned; every request is for at most \<open>2^31 - 16\<close> bytes, and \<^verbatim>\<open>mm_free\<close> and
  \<^verbatim>\<open>mm_realloc\<close> are given pointers that an earlier call returned and that were not freed
  since. The second component is the set of these live pointers.
\<close>

inductive reach :: "state \<Rightarrow> ptr set \<Rightarrow> bool" where
  r_init: "sink_ok s0 \<Longrightarrow> mm_init s0 = ret (s, 0) \<Longrightarrow> reach s {}"
| r_malloc: "reach s L \<Longrightarrow> unat sz + 16 \<le> 2 ^ 31 \<Longrightarrow> mm_malloc s sz = ret (s', p)
     \<Longrightarrow> reach s' (if p = NULL then L else insert p L)"
| r_free: "reach s L \<Longrightarrow> p \<in> L \<Longrightarrow> mm_free s p = ret s' \<Longrightarrow> reach s' (L - {p})"
| r_realloc: "reach s L \<Longrightarrow> p \<in> L \<Longrightarrow> unat sz + 16 \<le> 2 ^ 31
     \<Longrightarrow> mm_realloc s p sz = ret (s', q) \<Longrightarrow> reach s' (insert q (L - {p}))"

definition live :: "nat \<Rightarrow> (nat \<times> bool) list \<Rightarrow> ptr set" where
  "live lo bs = of_nat ` (fst ` set (allocs (lo + 8) bs) - {lo + 8})"

lemma of_nat_inj32:
  assumes "a < 2 ^ 32" "b < 2 ^ 32" "(of_nat a :: 32 word) = of_nat b"
  shows "a = b"
proof -
  have "unat (of_nat a :: 32 word) = unat (of_nat b :: 32 word)" using assms(3) by simp
  then show ?thesis using assms(1,2) by (simp only: unat_of_nat32)
qed

lemma heap_ok_prologue: "heap_ok s lo bs H \<Longrightarrow> (lo + 8, 8) \<in> set (allocs (lo + 8) bs)"
  by (cases bs) (simp_all add: heap_ok_def)

lemma allocs_lt:
  assumes "heap_ok s lo bs H" "(y, d) \<in> set (allocs (lo + 8) bs)"
  shows "y < 2 ^ 32"
proof -
  have "y + d \<le> unat (mem_brk s)"
    using allocs_bounds [OF heap_ok_cseg [OF assms(1)] assms(2)] by simp
  moreover have "unat (mem_brk s) < 2 ^ 32"
    using unsigned_less [of "mem_brk s", where 'a = nat] by simp
  ultimately show ?thesis by simp
qed

lemma live_remove:
  assumes ok: "heap_ok s lo bs H" and A: "A = set (allocs (lo + 8) bs)"
    and x: "(x, c) \<in> A" and nx: "x \<notin> fst ` (A - {(x, c)})"
  shows "(of_nat ` (fst ` (A - {(x, c)}) - {lo + 8}) :: ptr set) = live lo bs - {of_nat x}"
proof (rule set_eqI, rule iffI)
  fix p :: ptr
  assume "p \<in> of_nat ` (fst ` (A - {(x, c)}) - {lo + 8})"
  then obtain y where y0: "p = of_nat y" "y \<in> fst ` (A - {(x, c)})" "y \<noteq> lo + 8" by blast
  then obtain d where y1: "(y, d) \<in> A" "(y, d) \<noteq> (x, c)" by force
  note y = y0(1) y1 y0(3)
  have "y \<in> fst ` (A - {(x, c)})" using y(2,3) by force
  then have "y \<noteq> x" using nx by auto
  moreover have "y < 2 ^ 32" "x < 2 ^ 32"
    using allocs_lt [OF ok] y(2) x unfolding A by blast+
  ultimately have "(of_nat y :: ptr) \<noteq> of_nat x" using of_nat_inj32 by blast
  moreover have "p \<in> live lo bs" unfolding live_def using y(1,2,4) A by force
  ultimately show "p \<in> live lo bs - {of_nat x}" using y(1) by simp
next
  fix p :: ptr
  assume "p \<in> live lo bs - {of_nat x}"
  then have "p \<in> of_nat ` (fst ` A - {lo + 8})" "p \<noteq> of_nat x" unfolding live_def A by simp_all
  then obtain y where y0: "p = of_nat y" "y \<in> fst ` A" "y \<noteq> lo + 8" "p \<noteq> of_nat x" by blast
  then obtain d where y1: "(y, d) \<in> A" by force
  note y = y0(1) y1 y0(3,4)
  have "y \<noteq> x" using y(1,4) by auto
  then have "(y, d) \<in> A - {(x, c)}" using y(2) by simp
  then have "y \<in> fst ` (A - {(x, c)}) - {lo + 8}" using y(3) by force
  then show "p \<in> of_nat ` (fst ` (A - {(x, c)}) - {lo + 8})" using y(1) by blast
qed

lemma live_block:
  assumes ok: "heap_ok s lo bs {}" and p: "p \<in> live lo bs"
  shows "\<exists>x c pre post. p = of_nat x \<and> (x, c) \<in> set (allocs (lo + 8) bs) \<and> x \<noteq> lo + 8
     \<and> bs = pre @ (c, True) # post \<and> pre \<noteq> [] \<and> x = lo + 8 + tot pre"
proof -
  obtain x where x0: "p = of_nat x" "x \<in> fst ` set (allocs (lo + 8) bs)" "x \<noteq> lo + 8"
    using p unfolding live_def by blast
  then obtain c where x1: "(x, c) \<in> set (allocs (lo + 8) bs)" by force
  note x = x0(1) x1 x0(3)
  obtain pre post where d: "bs = pre @ (c, True) # post" "x = lo + 8 + tot pre"
    using allocs_decomp [OF x(2)] by blast
  have "pre \<noteq> []" by (rule allocs_hd [OF ok d(1)]) (use x(3) d(2) in simp)
  then show ?thesis using x d by blast
qed

lemma mm_init_ok:
  assumes sk: "sink_ok s0" and r: "mm_init s0 = ret (s, 0)"
  shows "heap_ok s (unat (mem_brk s0)) [(8, True), (4096, False)] {}"
proof -
  have f: "mem_fail s0 = - 1" using sk by (simp add: sink_ok_def)
  have e: "ext_bytes (CHUNKSIZE div WSIZE) = 4096" "4 * WSIZE = (16 :: 32 word)"
    by (simp_all add: ext_bytes_def CHUNKSIZE_def WSIZE_def)
  have a: "\<not> sink_refuses s0 (4 * WSIZE)"
    using mm_init_sink_refuses_sentinels [OF f] r by auto
  have b: "\<not> sink_refuses s0 (4 * WSIZE + ext_bytes (CHUNKSIZE div WSIZE))"
  proof
    assume "sink_refuses s0 (4 * WSIZE + ext_bytes (CHUNKSIZE div WSIZE))"
    from mm_init_refused [OF f a this] obtain s' where "mm_init s0 = ret (s', - 1)" by blast
    then show False using r by (simp add: ret_inject)
  qed
  have "unat (mem_brk s0) + 16 + 4096 \<le> unat (mem_max_addr s0)"
    using b unfolding e sink_refuses_def by simp
  from mm_init_correct [OF sk this] show ?thesis using r by (auto simp add: ret_inject)
qed

lemma reach_heap_ok:
  assumes "reach s L"
  shows "\<exists>lo bs. heap_ok s lo bs {} \<and> noadj bs \<and> L = live lo bs"
  using assms
proof (induction rule: reach.induct)
  case (r_init s0 s)
  have "heap_ok s (unat (mem_brk s0)) [(8, True), (4096, False)] {}"
    by (rule mm_init_ok [OF r_init])
  moreover have "noadj [(8, True), (4096, False)]" by simp
  moreover have "{} = live (unat (mem_brk s0)) [(8, True), (4096, False)]"
    by (simp add: live_def)
  ultimately show ?case by blast
next
  case (r_malloc s L sz s' p)
  then obtain lo bs where ok: "heap_ok s lo bs {}" and na: "noadj bs" and L: "L = live lo bs"
    by blast
  show ?case
  proof (cases "sz = 0")
    case True
    then have "mm_malloc s sz = ret (s, NULL)" by (simp add: mm_malloc_def)
    then have "s' = s" "p = NULL" using r_malloc.hyps(3) by (simp_all add: ret_inject)
    then show ?thesis using ok na L by auto
  next
    case False
    then have "0 < sz" by (simp add: word_greater_zero_iff)
    from mm_malloc_correct [OF ok this r_malloc.hyps(2)]
    have c: "p = NULL \<longrightarrow> s' = s"
      and d: "p \<noteq> NULL \<longrightarrow> (\<exists>bs' x c. heap_ok s' lo bs' {} \<and> (noadj bs \<longrightarrow> noadj bs')
               \<and> p = of_nat x
               \<and> set (allocs (lo + 8) bs') = insert (x, c) (set (allocs (lo + 8) bs))
               \<and> x \<notin> fst ` set (allocs (lo + 8) bs))"
      using r_malloc.hyps(3) by (auto simp add: ret_inject)
    show ?thesis
    proof (cases "p = NULL")
      case True
      then show ?thesis using c ok na L by auto
    next
      case False
      then obtain bs' x c where f: "heap_ok s' lo bs' {}" "noadj bs'" "p = of_nat x"
        "set (allocs (lo + 8) bs') = insert (x, c) (set (allocs (lo + 8) bs))"
        "x \<notin> fst ` set (allocs (lo + 8) bs)"
        using d na by blast
      have "x \<noteq> lo + 8" using heap_ok_prologue [OF ok] f(5) by force
      then have "live lo bs' = insert p L" unfolding L live_def f(3,4) by auto
      then show ?thesis using f(1,2) False by auto
    qed
  qed
next
  case (r_free s L p s')
  then obtain lo bs where ok: "heap_ok s lo bs {}" and na: "noadj bs" and L: "L = live lo bs"
    by blast
  from live_block [OF ok] r_free.hyps(2) L
  obtain x c pre post where x: "p = of_nat x" "(x, c) \<in> set (allocs (lo + 8) bs)"
    "bs = pre @ (c, True) # post" "pre \<noteq> []" "x = lo + 8 + tot pre" by blast
  let ?bs' = "co_pre pre @ (co_prev pre + c + co_next post, False) # co_post post"
  from mm_free_correct [OF ok [unfolded x(3)] x(4,5)] r_free.hyps(3)
  have f: "heap_ok s' lo ?bs' {}" "noadj ?bs'"
    "set (allocs (lo + 8) ?bs') = set (allocs (lo + 8) bs) - {(x, c)}"
    "x \<notin> fst ` set (allocs (lo + 8) ?bs')"
    using na unfolding x(1,3) by (auto simp add: ret_inject)
  have "live lo ?bs' = live lo bs - {of_nat x}"
    using live_remove [OF ok refl x(2)] f(4) unfolding f(3) live_def [of lo ?bs'] by simp
  then show ?case using f(1,2) L x(1) by blast
next
  case (r_realloc s L p sz s' q)
  then obtain lo bs where ok: "heap_ok s lo bs {}" and na: "noadj bs" and L: "L = live lo bs"
    by blast
  from live_block [OF ok] r_realloc.hyps(2) L
  obtain x c where x: "p = of_nat x" "(x, c) \<in> set (allocs (lo + 8) bs)" "x \<noteq> lo + 8"
    by blast
  have "sz \<noteq> 0" using r_realloc.hyps(4) mm_realloc_zero [of s p] ret_not_fault by metis
  then have "0 < sz" by (simp add: word_greater_zero_iff)
  from mm_realloc_correct [OF ok x(2,3) this r_realloc.hyps(3)] r_realloc.hyps(4)
  obtain xn cn bs' where f: "q = of_nat xn" "heap_ok s' lo bs' {}" "noadj bs'"
    "set (allocs (lo + 8) bs') = insert (xn, cn) (set (allocs (lo + 8) bs)) - {(x, c)}"
    "xn \<notin> fst ` set (allocs (lo + 8) bs)" "x \<notin> fst ` set (allocs (lo + 8) bs')"
    using na unfolding x(1) by (auto simp add: ret_inject ret_not_fault)
  let ?A = "set (allocs (lo + 8) bs)"
  have n1: "xn \<noteq> x" using f(5) x(2) by force
  have n2: "xn \<noteq> lo + 8" using heap_ok_prologue [OF ok] f(5) by force
  have e: "insert (xn, cn) ?A - {(x, c)} = insert (xn, cn) (?A - {(x, c)})" using n1 by auto
  have nx: "x \<notin> fst ` (?A - {(x, c)})" using f(6) unfolding f(4) e by auto
  have "live lo bs' = insert (of_nat xn) (of_nat ` (fst ` (?A - {(x, c)}) - {lo + 8}))"
    unfolding live_def f(4) e using n2 by auto
  also have "\<dots> = insert q (L - {p})"
    unfolding live_remove [OF ok refl x(2) nx] L x(1) f(1) ..
  finally show ?case using f(2,3) by blast
qed

lemma free_block_flags:
  assumes ok: "heap_ok s lo bs {}" and na: "noadj bs" and x: "x \<in> set (frees (lo + 8) bs)"
  shows "GET_ALLOC (heap s) (HDRP (of_nat x)) = 0
     \<and> GET_ALLOC (heap s) (FTRP (heap s) (PREV_BLKP (heap s) (of_nat x))) = 1
     \<and> GET_ALLOC (heap s) (HDRP (NEXT_BLKP (heap s) (of_nat x))) = 1"
proof -
  obtain pre c post where d: "bs = pre @ (c, False) # post" and xe: "x = lo + 8 + tot pre"
    using frees_decomp [OF x] by blast
  have pre: "pre \<noteq> []" using heap_ok_nonempty [OF ok] d by (cases pre) auto
  have a: "snd (last pre)" using na pre unfolding d by (simp add: noadj_append)
  have b: "snd (ntag post)" using na unfolding d by (cases post) (simp_all add: noadj_append ntag_def)
  note r = heap_reads [OF ok [unfolded d] pre, folded xe, simplified fst_conv snd_conv]
  show ?thesis
    by (simp only: r(2) r(3) r(6) r(7) r(10) a b if_True if_False simp_thms)
qed

text \<open>
  C7 (as the code has it). In every state reached from a fresh sink by calls that
  returned, with requests of at most \<open>2^31 - 16\<close> bytes and with \<^verbatim>\<open>mm_free\<close> and \<^verbatim>\<open>mm_realloc\<close>
  given live pointers only, the heap is a sequence of blocks between the sentinels, the
  live pointers are the allocated blocks other than the prologue, and no two neighbours
  in the sequence are both free: for every block with allocation flag 0, the footer before
  it and the header after it carry allocation flag 1.
\<close>

theorem no_adjacent_free_blocks:
  assumes "reach s L"
  shows "\<exists>lo bs. heap_ok s lo bs {} \<and> noadj bs \<and> L = live lo bs
     \<and> (\<forall>x\<in>set (frees (lo + 8) bs).
          GET_ALLOC (heap s) (HDRP (of_nat x)) = 0
        \<and> GET_ALLOC (heap s) (FTRP (heap s) (PREV_BLKP (heap s) (of_nat x))) = 1
        \<and> GET_ALLOC (heap s) (HDRP (NEXT_BLKP (heap s) (of_nat x))) = 1)"
proof -
  obtain lo bs where f: "heap_ok s lo bs {}" "noadj bs" "L = live lo bs"
    using reach_heap_ok [OF assms] by blast
  have "\<forall>x\<in>set (frees (lo + 8) bs).
          GET_ALLOC (heap s) (HDRP (of_nat x)) = 0
        \<and> GET_ALLOC (heap s) (FTRP (heap s) (PREV_BLKP (heap s) (of_nat x))) = 1
        \<and> GET_ALLOC (heap s) (HDRP (NEXT_BLKP (heap s) (of_nat x))) = 1"
    using free_block_flags [OF f(1,2)] by blast
  with f show ?thesis by blast
qed

text \<open>
  On a reached state the operations return: \<^verbatim>\<open>mm_malloc\<close> for every request of at most
  \<open>2^31 - 16\<close> bytes, \<^verbatim>\<open>mm_free\<close> for every live pointer.
\<close>

lemma reach_returns:
  assumes "reach s L"
  shows "unat sz + 16 \<le> 2 ^ 31 \<Longrightarrow> \<exists>s' p. mm_malloc s sz = ret (s', p)"
    and "p \<in> L \<Longrightarrow> \<exists>s'. mm_free s p = ret s'"
proof -
  obtain lo bs where ok: "heap_ok s lo bs {}" and L: "L = live lo bs"
    using reach_heap_ok [OF assms] by blast
  show "\<exists>s' p. mm_malloc s sz = ret (s', p)" if b: "unat sz + 16 \<le> 2 ^ 31"
  proof (cases "sz = 0")
    case True
    then show ?thesis by (simp add: mm_malloc_def)
  next
    case False
    then have "0 < sz" by (simp add: word_greater_zero_iff)
    from mm_malloc_correct [OF ok this b] show ?thesis by blast
  qed
  show "\<exists>s'. mm_free s p = ret s'" if p: "p \<in> L"
  proof -
    from live_block [OF ok] p L
    obtain x c pre post where x: "p = of_nat x" "bs = pre @ (c, True) # post" "pre \<noteq> []"
      "x = lo + 8 + tot pre" by blast
    from mm_free_correct [OF ok [unfolded x(2)] x(3,4)] show ?thesis unfolding x(1) by blast
  qed
qed

lemma fresh_sink_ok: "sink_ok fresh_sink"
  by (simp add: sink_ok_def fresh_sink_def)

theorem no_adjacent_free_blocks_witness:
  "\<exists>s. mm_init fresh_sink = ret (s, 0) \<and> reach s {}
     \<and> (\<exists>lo bs. heap_ok s lo bs {} \<and> noadj bs \<and> {} = live lo bs
          \<and> (\<forall>x\<in>set (frees (lo + 8) bs).
               GET_ALLOC (heap s) (HDRP (of_nat x)) = 0
             \<and> GET_ALLOC (heap s) (FTRP (heap s) (PREV_BLKP (heap s) (of_nat x))) = 1
             \<and> GET_ALLOC (heap s) (HDRP (NEXT_BLKP (heap s) (of_nat x))) = 1))"
proof -
  have "unat (mem_brk fresh_sink) + 16 + 4096 \<le> unat (mem_max_addr fresh_sink)"
    by (simp add: fresh_sink_def)
  from mm_init_correct [OF fresh_sink_ok this]
  obtain s where i: "mm_init fresh_sink = ret (s, 0)" by blast
  have r: "reach s {}" by (rule r_init [OF fresh_sink_ok i])
  show ?thesis using i r no_adjacent_free_blocks [OF r] by blast
qed

end
